(* ===== verification/Prelude.thy ===== *)
theory Prelude
  imports Main "HOL-Library.Word" "HOL-Library.Signed_Division"
begin

text \<open>
  Shared vocabulary of the development: names for the machine integer types of the Rust
  sources, the checked and saturating operations of \<^verbatim>\<open>i64\<close>, errors as values of a sum
  type, and the two interfaces that several components provide: a state transition system
  with an invariant and a codec with a round trip.
\<close>

unbundle bit_operations_syntax

named_theorems i64_simps \<open>facts about the signed range of 64-bit words\<close>
named_theorems step_inv \<open>one lemma per kind of step: the step keeps the invariant\<close>

type_synonym i64 = "64 word"
type_synonym u64 = "64 word"
type_synonym u32 = "32 word"
type_synonym u8 = "8 word"

text \<open>A Rust \<^verbatim>\<open>Result\<close>: \<open>Inl\<close> the error, \<open>Inr\<close> the value.\<close>

type_synonym ('a, 'e) result = "'e + 'a"

abbreviation Ok :: "'a \<Rightarrow> ('a, 'e) result" where "Ok \<equiv> Inr"
abbreviation Err :: "'e \<Rightarrow> ('a, 'e) result" where "Err \<equiv> Inl"

definition bind_result :: "('a, 'e) result \<Rightarrow> ('a \<Rightarrow> ('b, 'e) result) \<Rightarrow> ('b, 'e) result" where
  "bind_result r f = (case r of Inl e \<Rightarrow> Inl e | Inr x \<Rightarrow> f x)"

lemma bind_result_simps [simp]:
  "bind_result (Inl e) f = Inl e" "bind_result (Inr x) f = f x"
  by (simp_all add: bind_result_def)

lemma bind_result_eq_Inr_iff:
  "bind_result r f = Inr y \<longleftrightarrow> (\<exists>x. r = Inr x \<and> f x = Inr y)"
  by (cases r) simp_all

subsection \<open>Signed 64-bit integers\<close>

definition i64_min :: int where "i64_min = - (2 ^ 63)"
definition i64_max :: int where "i64_max = 2 ^ 63 - 1"

definition in_i64 :: "int \<Rightarrow> bool" where
  "in_i64 x \<longleftrightarrow> i64_min \<le> x \<and> x \<le> i64_max"

text \<open>The shape of every \<^verbatim>\<open>i64::checked_*\<close>: the exact result if it fits, else \<open>None\<close>.\<close>

definition checked :: "int \<Rightarrow> i64 option" where
  "checked x = (if in_i64 x then Some (word_of_int x) else None)"

text \<open>The shape of every \<^verbatim>\<open>i64::saturating_*\<close>.\<close>

definition saturate :: "int \<Rightarrow> int" where
  "saturate x = max i64_min (min i64_max x)"

lemma i64_bounds: "i64_min = -9223372036854775808" "i64_max = 9223372036854775807"
  by (simp_all add: i64_min_def i64_max_def)

lemma in_i64_sint [simp, i64_simps]: "in_i64 (sint (a :: i64))"
proof -
  have "- (2 ^ 63) \<le> sint a" "sint a < 2 ^ 63"
    using sint_ge [of a] sint_lt [of a] by simp_all
  then show ?thesis by (simp add: in_i64_def i64_bounds)
qed

lemma sint_word_of_int [i64_simps]: "in_i64 x \<Longrightarrow> sint (word_of_int x :: i64) = x"
  by (simp add: in_i64_def i64_bounds sint_sbintrunc' signed_take_bit_int_eq_self)

lemma checked_eq_Some_iff [i64_simps]: "checked x = Some a \<longleftrightarrow> in_i64 x \<and> sint a = x"
  by (auto simp: checked_def sint_word_of_int)

lemma checked_eq_None_iff [i64_simps]: "checked x = None \<longleftrightarrow> \<not> in_i64 x"
  by (simp add: checked_def)

lemma saturate_in_i64 [simp]: "in_i64 (saturate x)"
  by (auto simp: saturate_def in_i64_def i64_bounds)

lemma saturate_id [simp]: "in_i64 x \<Longrightarrow> saturate x = x"
  by (auto simp: saturate_def in_i64_def)

subsection \<open>Transition systems\<close>

text \<open>
  A component whose operations are steps of a relation promises an invariant: it holds
  initially and every step keeps it. Clients use it in every reachable state.
\<close>

locale invariant_system =
  fixes init :: "'s \<Rightarrow> bool"
    and step :: "'s \<Rightarrow> 's \<Rightarrow> bool"
    and inv :: "'s \<Rightarrow> bool"
  assumes init_inv: "init s \<Longrightarrow> inv s"
    and step_keeps: "step s t \<Longrightarrow> inv s \<Longrightarrow> inv t"
begin

lemma run_keeps: "step\<^sup>*\<^sup>* s t \<Longrightarrow> inv s \<Longrightarrow> inv t"
  by (induction rule: rtranclp_induct) (auto intro: step_keeps)

lemma reachable_inv: "init s \<Longrightarrow> step\<^sup>*\<^sup>* s t \<Longrightarrow> inv t"
  using run_keeps init_inv by blast

end

subsection \<open>Codecs\<close>

text \<open>
  An encoder and a decoder that agree on the valid values: decoding an encoded value gives it
  back. Hence the encoder loses nothing and the decoder accepts everything the encoder produces.
\<close>

locale codec =
  fixes valid :: "'a \<Rightarrow> bool"
    and enc :: "'a \<Rightarrow> 'b"
    and dec :: "'b \<Rightarrow> ('a, 'e) result"
  assumes dec_enc: "valid x \<Longrightarrow> dec (enc x) = Inr x"
begin

lemma enc_inj_on: "inj_on enc {x. valid x}"
  by (rule inj_onI) (metis dec_enc mem_Collect_eq sum.inject(2))

lemma enc_eq_iff: "valid x \<Longrightarrow> valid y \<Longrightarrow> enc x = enc y \<longleftrightarrow> x = y"
  using enc_inj_on by (auto simp: inj_on_def)

lemma dec_total_on_image: "valid x \<Longrightarrow> \<exists>y. dec (enc x) = Inr y \<and> enc y = enc x"
  by (auto simp: dec_enc)

end

end
