(* ===== verification/Text.thy ===== *)
theory Text
  imports Prelude
begin

text \<open>
  Text at the level the sources use it. A Rust \<^verbatim>\<open>char\<close> is its code point (a \<open>nat\<close>), a string
  that is inspected character by character is a list of code points, and a string that is handled
  through \<^verbatim>\<open>as_bytes\<close> is a list of bytes. Here are the hexadecimal formats \<^verbatim>\<open>{:02x}\<close> and
  \<^verbatim>\<open>{:02X}\<close> and \<^verbatim>\<open>char::to_digit(16)\<close>.
\<close>

definition codes :: "string \<Rightarrow> nat list" where
  "codes s = map of_char s"

definition ascii :: "string \<Rightarrow> u8 list" where
  "ascii s = map (\<lambda>c. of_nat (of_char c)) s"

definition hex_lower :: "nat \<Rightarrow> nat" where
  "hex_lower d = (if d < 10 then 48 + d else 87 + d)"

definition hex_upper :: "nat \<Rightarrow> nat" where
  "hex_upper d = (if d < 10 then 48 + d else 55 + d)"

text \<open>\<open>w\<close> digits, most significant first: the format of width \<open>w\<close> for \<open>n < 16 ^ w\<close>.\<close>

fun hex_pad :: "nat \<Rightarrow> nat \<Rightarrow> nat list" where
  "hex_pad 0 n = []"
| "hex_pad (Suc w) n = hex_pad w (n div 16) @ [hex_lower (n mod 16)]"

definition to_digit16 :: "nat \<Rightarrow> nat option" where
  "to_digit16 c =
     (if 48 \<le> c \<and> c \<le> 57 then Some (c - 48)
      else if 97 \<le> c \<and> c \<le> 102 then Some (c - 87)
      else if 65 \<le> c \<and> c \<le> 70 then Some (c - 55)
      else None)"

lemma to_digit16_hex_lower [simp]: "d < 16 \<Longrightarrow> to_digit16 (hex_lower d) = Some d"
  by (simp add: to_digit16_def hex_lower_def)

lemma to_digit16_hex_upper [simp]: "d < 16 \<Longrightarrow> to_digit16 (hex_upper d) = Some d"
  by (simp add: to_digit16_def hex_upper_def)

lemma to_digit16_less: "to_digit16 c = Some d \<Longrightarrow> d < 16"
  by (auto simp: to_digit16_def split: if_splits)

lemma length_hex_pad [simp]: "length (hex_pad w n) = w"
  by (induction w arbitrary: n) simp_all

text \<open>Reading \<open>w\<close> digits back, accumulating from the left.\<close>

fun read_hex :: "nat list \<Rightarrow> nat \<Rightarrow> nat option" where
  "read_hex [] acc = Some acc"
| "read_hex (c # cs) acc = (case to_digit16 c of None \<Rightarrow> None | Some d \<Rightarrow> read_hex cs (acc * 16 + d))"

lemma read_hex_append:
  "read_hex (xs @ ys) acc = Option.bind (read_hex xs acc) (read_hex ys)"
  by (induction xs arbitrary: acc) (auto split: option.splits)

lemma read_hex_pad: "n < 16 ^ w \<Longrightarrow> read_hex (hex_pad w n) acc = Some (acc * 16 ^ w + n)"
proof (induction w arbitrary: n acc)
  case (Suc w)
  then have "n div 16 < 16 ^ w" by (simp add: less_mult_imp_div_less)
  then show ?case by (simp add: read_hex_append Suc.IH algebra_simps)
qed simp

end
