(* ===== verification/SliceRange.thy ===== *)
theory SliceRange
  imports Text
begin

text \<open>
  \<^verbatim>\<open>src/src/slice.rs\<close>: Python-style index normalisation and slice resolution, the one function
  every slice site calls, and the \<open>repr\<close> forms of bytes and strings. Signed 64-bit values are
  integers with the saturation and the overflow test written out; a length is a \<open>nat\<close>.
\<close>

subsection \<open>Indices and slices\<close>

text \<open>\<open>n as usize\<close>: the two's complement bits read as unsigned.\<close>

definition as_usize :: "int \<Rightarrow> nat" where
  "as_usize n = nat (n mod 2 ^ 64)"

definition norm_index :: "int \<Rightarrow> nat \<Rightarrow> nat option" where
  "norm_index n len =
     (let i = (if n < 0 then n + int len else n)
      in if i \<ge> 0 \<and> as_usize i < len then Some (as_usize i) else None)"

record range_parts =
  r_start :: "int option"
  r_end :: "int option"
  r_step :: int
  r_inclusive :: bool

text \<open>\<open>Ord::clamp\<close>; the sources call it with \<open>lo \<le> hi\<close>.\<close>

definition clamp :: "int \<Rightarrow> int \<Rightarrow> int \<Rightarrow> int" where
  "clamp lo hi x = (if x < lo then lo else if x > hi then hi else x)"

definition norm_bound :: "nat \<Rightarrow> int \<Rightarrow> int" where
  "norm_bound len b = (if b < 0 then saturate (b + int len) else b)"

definition range_lo :: "range_parts \<Rightarrow> nat \<Rightarrow> int" where
  "range_lo r len =
     (let n = int len; up = r_step r > 0;
          lo_c = (if up then 0 else -1); hi_c = (if up then n else n - 1)
      in clamp lo_c hi_c
           (case r_start r of Some b \<Rightarrow> norm_bound len b | None \<Rightarrow> if up then 0 else n - 1))"

definition range_hi :: "range_parts \<Rightarrow> nat \<Rightarrow> int" where
  "range_hi r len =
     (let n = int len; up = r_step r > 0;
          lo_c = (if up then 0 else -1); hi_c = (if up then n else n - 1)
      in clamp lo_c hi_c
           (case r_end r of
              Some b \<Rightarrow>
                (let b = norm_bound len b
                 in if \<not> r_inclusive r then b
                    else if up then saturate (b + 1) else saturate (b - 1))
            | None \<Rightarrow> if up then n else -1))"

text \<open>
  The \<^verbatim>\<open>while\<close> loop. The step is not zero here, so \<open>\<not> up\<close> is \<open>step < 0\<close>; a step that
  overflows \<^verbatim>\<open>i64\<close> ends the loop.
\<close>

function range_loop :: "int \<Rightarrow> int \<Rightarrow> int \<Rightarrow> nat list" where
  "range_loop st hi i =
     (if st > 0 \<and> i < hi \<or> st < 0 \<and> i > hi
      then as_usize i # (if in_i64 (i + st) then range_loop st hi (i + st) else [])
      else [])"
  by pat_completeness auto
termination
  by (relation "measure (\<lambda>(st, hi, i). nat (if st > 0 then hi - i else i - hi))") auto

declare range_loop.simps [simp del]

definition zero_step_message :: string where
  "zero_step_message = ''slice step cannot be zero''"

definition range_indices :: "range_parts \<Rightarrow> nat \<Rightarrow> (nat list, string) result" where
  "range_indices r len =
     (if r_step r = 0 then Err zero_step_message
      else Ok (range_loop (r_step r) (range_hi r len) (range_lo r len)))"

subsection \<open>The \<open>repr\<close> of bytes and strings\<close>

text \<open>Code points: 39 is \<^verbatim>\<open>'\<close>, 34 is \<^verbatim>\<open>"\<close>, 92 is the backslash.\<close>

definition repr_quote :: "bool \<Rightarrow> bool \<Rightarrow> nat" where
  "repr_quote has_single has_double = (if has_single \<and> \<not> has_double then 34 else 39)"

definition byte_escape :: "bool \<Rightarrow> nat \<Rightarrow> u8 \<Rightarrow> nat list" where
  "byte_escape always_escape_single quote b =
     (if b = 10 then [92, 110]
      else if b = 9 then [92, 116]
      else if b = 13 then [92, 114]
      else if b = 92 then [92, 92]
      else if b = 39 \<and> (always_escape_single \<or> quote = 39) then [92, 39]
      else if 0x20 \<le> b \<and> b \<le> 0x7E then [unat b]
      else [92, 120] @ hex_pad 2 (unat b))"

definition bytes_repr_quoted :: "u8 list \<Rightarrow> bool \<Rightarrow> nat list" where
  "bytes_repr_quoted bytes always_escape_single =
     (let quote = repr_quote (39 \<in> set bytes) (34 \<in> set bytes)
      in [98, quote] @ concat (map (byte_escape always_escape_single quote) bytes) @ [quote])"

definition bytes_repr :: "u8 list \<Rightarrow> nat list" where
  "bytes_repr bytes = bytes_repr_quoted bytes False"

definition bytearray_repr :: "u8 list \<Rightarrow> nat list" where
  "bytearray_repr bytes = codes ''bytearray('' @ bytes_repr_quoted bytes True @ [41]"

text \<open>
  \<open>escape_debug c\<close> stands for Rust's \<^verbatim>\<open>c.escape_debug().count() > 1\<close> (the Unicode tables of the
  standard library), \<open>mark c\<close> for \<^verbatim>\<open>printable::is_cpython_printable_mark(c)\<close>.
\<close>

definition char_escape :: "(nat \<Rightarrow> bool) \<Rightarrow> (nat \<Rightarrow> bool) \<Rightarrow> nat \<Rightarrow> nat \<Rightarrow> nat list" where
  "char_escape escape_debug mark quote c =
     (if c = 10 then [92, 110]
      else if c = 9 then [92, 116]
      else if c = 13 then [92, 114]
      else if c = 92 then [92, 92]
      else if c = quote then [92, c]
      else if c < 0x20 \<or> c = 0x7F \<or> (\<not> c < 128 \<and> escape_debug c \<and> \<not> mark c) then
        (if c \<le> 0xFF then [92, 120] @ hex_pad 2 c
         else if c \<le> 0xFFFF then [92, 117] @ hex_pad 4 c
         else [92, 85] @ hex_pad 8 c)
      else [c])"

definition str_repr :: "(nat \<Rightarrow> bool) \<Rightarrow> (nat \<Rightarrow> bool) \<Rightarrow> nat list \<Rightarrow> nat list" where
  "str_repr escape_debug mark s =
     (let quote = repr_quote (39 \<in> set s) (34 \<in> set s)
      in [quote] @ concat (map (char_escape escape_debug mark quote) s) @ [quote])"

text \<open>Reading a literal back: Python's escapes, then the quotes.\<close>

function unescape :: "nat list \<Rightarrow> nat list option" where
  "unescape [] = Some []"
| "unescape (c # cs) =
     (if c \<noteq> 92 then map_option ((#) c) (unescape cs)
      else case cs of
        [] \<Rightarrow> None
      | e # r \<Rightarrow>
          if e = 110 then map_option ((#) 10) (unescape r)
          else if e = 116 then map_option ((#) 9) (unescape r)
          else if e = 114 then map_option ((#) 13) (unescape r)
          else if e = 92 \<or> e = 39 \<or> e = 34 then map_option ((#) e) (unescape r)
          else if e = 120 then
            Option.bind (read_hex (take 2 r) 0) (\<lambda>n. map_option ((#) n) (unescape (drop 2 r)))
          else if e = 117 then
            Option.bind (read_hex (take 4 r) 0) (\<lambda>n. map_option ((#) n) (unescape (drop 4 r)))
          else if e = 85 then
            Option.bind (read_hex (take 8 r) 0) (\<lambda>n. map_option ((#) n) (unescape (drop 8 r)))
          else None)"
  by pat_completeness auto
termination
  by (relation "measure length") auto

declare unescape.simps(2) [simp del]

definition unquote :: "nat list \<Rightarrow> nat list option" where
  "unquote lit =
     (case lit of
        q # body \<Rightarrow> if body \<noteq> [] \<and> last body = q then unescape (butlast body) else None
      | [] \<Rightarrow> None)"

definition read_str :: "nat list \<Rightarrow> (nat list, unit) result" where
  "read_str lit = (case unquote lit of Some s \<Rightarrow> Ok s | None \<Rightarrow> Err ())"

definition read_bytes :: "nat list \<Rightarrow> (u8 list, unit) result" where
  "read_bytes lit =
     (case lit of
        b # q \<Rightarrow> if b = 98 then (case unquote q of Some s \<Rightarrow> Ok (map of_nat s) | None \<Rightarrow> Err ()) else Err ()
      | [] \<Rightarrow> Err ())"

definition scalar_text :: "nat list \<Rightarrow> bool" where
  "scalar_text s \<longleftrightarrow> (\<forall>c \<in> set s. c < 0x110000)"

subsection \<open>The stepping list\<close>

definition slice_len :: "int \<Rightarrow> int \<Rightarrow> int \<Rightarrow> nat" where
  "slice_len st hi lo =
     (if st < 0 then (if hi < lo then nat ((lo - hi - 1) div (- st)) + 1 else 0)
      else (if lo < hi then nat ((hi - lo - 1) div st) + 1 else 0))"

definition stepping :: "int \<Rightarrow> int \<Rightarrow> int \<Rightarrow> int list" where
  "stepping st hi lo = map (\<lambda>k. lo + int k * st) [0..<slice_len st hi lo]"

lemma div_step: "0 < st \<Longrightarrow> st \<le> (x::int) \<Longrightarrow> nat (x div st) = Suc (nat ((x - st) div st))"
proof -
  assume "0 < st" "st \<le> x"
  then have "x div st = (x - st) div st + 1" "0 \<le> (x - st) div st"
    by (simp_all add: div_pos_geq pos_imp_zdiv_nonneg_iff)
  then show ?thesis by simp
qed

lemma slice_len_step:
  assumes "st > 0 \<and> lo < hi \<or> st < 0 \<and> lo > hi"
  shows "slice_len st hi lo = Suc (slice_len st hi (lo + st))"
proof (cases "st > 0")
  case True
  with assms show ?thesis
    using div_step [of st "hi - lo - 1"]
    by (auto simp: slice_len_def algebra_simps)
next
  case False
  with assms show ?thesis
    using div_step [of "- st" "lo - hi - 1"]
    by (auto simp: slice_len_def algebra_simps)
qed

lemma slice_len_stop:
  "st \<noteq> 0 \<Longrightarrow> \<not> (st > 0 \<and> lo < hi \<or> st < 0 \<and> lo > hi) \<Longrightarrow> slice_len st hi lo = 0"
  by (auto simp: slice_len_def)

lemma stepping_unfold:
  "st \<noteq> 0 \<Longrightarrow> stepping st hi lo =
     (if st > 0 \<and> lo < hi \<or> st < 0 \<and> lo > hi then lo # stepping st hi (lo + st) else [])"
  by (simp add: stepping_def slice_len_step slice_len_stop map_upt_Suc algebra_simps del: upt_Suc)

lemma range_loop_stepping:
  "st \<noteq> 0 \<Longrightarrow> in_i64 hi \<Longrightarrow> in_i64 i \<Longrightarrow> range_loop st hi i = map as_usize (stepping st hi i)"
proof (induction st hi i rule: range_loop.induct)
  case (1 st hi i)
  let ?go = "st > 0 \<and> i < hi \<or> st < 0 \<and> i > hi"
  have over: "\<not> in_i64 (i + st) \<Longrightarrow> ?go \<Longrightarrow> stepping st hi (i + st) = []"
    using 1(2-4) by (subst stepping_unfold) (auto simp: in_i64_def)
  show ?case
    using 1 over by (subst range_loop.simps, subst stepping_unfold) auto
qed

lemma slice_len_less:
  assumes "st \<noteq> 0"
  shows "k < slice_len st hi lo \<longleftrightarrow> (if st > 0 then lo + int k * st < hi else hi < lo + int k * st)"
proof (induction k arbitrary: lo)
  case 0
  show ?case using assms by (auto simp: slice_len_def)
next
  case (Suc k)
  let ?go = "st > 0 \<and> lo < hi \<or> st < 0 \<and> lo > hi"
  show ?case
  proof (cases ?go)
    case True
    then show ?thesis by (simp add: slice_len_step Suc algebra_simps)
  next
    case False
    define m where "m = int k * st"
    have "st > 0 \<Longrightarrow> 0 \<le> m" "st < 0 \<Longrightarrow> m \<le> 0"
      by (simp_all add: m_def mult_le_0_iff)
    moreover have "lo + int (Suc k) * st = lo + st + m"
      by (simp add: m_def algebra_simps)
    ultimately show ?thesis using False assms by (auto simp: slice_len_stop)
  qed
qed

lemma set_stepping:
  "st \<noteq> 0 \<Longrightarrow> x \<in> set (stepping st hi lo) \<longleftrightarrow>
     (\<exists>k. x = lo + int k * st \<and> (if st > 0 then x < hi else hi < x))"
  by (auto simp: stepping_def slice_len_less)

lemma as_usize_nat: "0 \<le> x \<Longrightarrow> in_i64 x \<Longrightarrow> as_usize x = nat x"
  by (simp add: as_usize_def in_i64_def i64_bounds)

lemma range_lo_bounds:
  "r_step r > 0 \<Longrightarrow> 0 \<le> range_lo r len \<and> range_lo r len \<le> int len"
  "r_step r \<le> 0 \<Longrightarrow> -1 \<le> range_lo r len \<and> range_lo r len \<le> int len - 1"
  by (auto simp: range_lo_def clamp_def Let_def)

lemma range_hi_bounds:
  "r_step r > 0 \<Longrightarrow> 0 \<le> range_hi r len \<and> range_hi r len \<le> int len"
  "r_step r \<le> 0 \<Longrightarrow> -1 \<le> range_hi r len \<and> range_hi r len \<le> int len - 1"
  by (auto simp: range_hi_def clamp_def Let_def)

lemma stepping_in_range:
  assumes "r_step r \<noteq> 0" "x \<in> set (stepping (r_step r) (range_hi r len) (range_lo r len))"
  shows "0 \<le> x \<and> x < int len"
proof -
  from assms obtain k where k: "x = range_lo r len + int k * r_step r"
    "if r_step r > 0 then x < range_hi r len else range_hi r len < x"
    by (auto simp: set_stepping)
  show ?thesis
  proof (cases "r_step r > 0")
    case True
    then have "0 \<le> int k * r_step r" by simp
    with k True show ?thesis using range_lo_bounds(1) range_hi_bounds(1) by smt
  next
    case False
    then have "int k * r_step r \<le> 0" by (simp add: mult_le_0_iff)
    with k False show ?thesis using range_lo_bounds(2) [of r len] range_hi_bounds(2) [of r len] by simp
  qed
qed

lemma range_bounds_in_i64:
  assumes "int len \<le> i64_max"
  shows "in_i64 (range_lo r len)" "in_i64 (range_hi r len)"
  using assms range_lo_bounds [of r len] range_hi_bounds [of r len]
  by (cases "r_step r > 0"; simp add: in_i64_def i64_bounds)+

lemma range_indices_stepping:
  assumes "int len \<le> i64_max" "r_step r \<noteq> 0"
  shows "range_indices r len = Ok (map nat (stepping (r_step r) (range_hi r len) (range_lo r len)))"
proof -
  have "x \<in> set (stepping (r_step r) (range_hi r len) (range_lo r len)) \<Longrightarrow> as_usize x = nat x" for x
    using stepping_in_range [OF assms(2), of x len] assms(1)
    by (intro as_usize_nat) (auto simp: in_i64_def i64_bounds)
  with assms show ?thesis
    by (simp add: range_indices_def range_loop_stepping range_bounds_in_i64)
qed

subsection \<open>CPython's \<open>slice.indices\<close>\<close>

text \<open>
  \<^verbatim>\<open>PySlice_Unpack\<close> supplies the extreme values for missing bounds and
  \<^verbatim>\<open>PySlice_AdjustIndices\<close> moves each bound into the sequence.
\<close>

definition py_adjust :: "int \<Rightarrow> nat \<Rightarrow> int \<Rightarrow> int" where
  "py_adjust st len b =
     (if b < 0 then (if b + int len < 0 then (if st < 0 then -1 else 0) else b + int len)
      else if b \<ge> int len then (if st < 0 then int len - 1 else int len) else b)"

definition py_indices :: "int option \<Rightarrow> int option \<Rightarrow> int \<Rightarrow> nat \<Rightarrow> int list" where
  "py_indices start stop st len =
     stepping st
       (py_adjust st len (case stop of Some b \<Rightarrow> b | None \<Rightarrow> if st < 0 then i64_min else i64_max))
       (py_adjust st len (case start of Some b \<Rightarrow> b | None \<Rightarrow> if st < 0 then i64_max else 0))"

definition parts_in_i64 :: "range_parts \<Rightarrow> bool" where
  "parts_in_i64 r \<longleftrightarrow> pred_option in_i64 (r_start r) \<and> pred_option in_i64 (r_end r) \<and> in_i64 (r_step r)"

lemma norm_bound_eq: "in_i64 b \<Longrightarrow> int len \<le> i64_max \<Longrightarrow> norm_bound len b = (if b < 0 then b + int len else b)"
  by (simp add: norm_bound_def in_i64_def i64_bounds)


lemma unescape_char_escape:
  assumes "c < 16 ^ 8" "quote = 39 \<or> quote = 34"
  shows "unescape (char_escape ed mk quote c @ rest) = map_option ((#) c) (unescape rest)"
  using assms read_hex_pad [of c 2 0] read_hex_pad [of c 4 0] read_hex_pad [of c 8 0]
  by (auto simp: char_escape_def unescape.simps(2))

lemma unescape_byte_escape:
  assumes "quote = 39 \<or> quote = 34"
  shows "unescape (byte_escape al quote b @ rest) = map_option ((#) (unat b)) (unescape rest)"
proof -
  have ne: "b \<noteq> 92 \<Longrightarrow> unat b \<noteq> 92"
    by (simp add: word_unat_eq_iff)
  have lt: "unat b < 16 ^ 2" using unsigned_less [of b, where ?'a = nat] by simp
  show ?thesis
    using ne read_hex_pad [OF lt, of 0]
    by (auto simp: byte_escape_def unescape.simps(2))
qed

lemma unescape_concat:
  assumes "\<And>c rest. c \<in> set cs \<Longrightarrow> unescape (esc c @ rest) = map_option ((#) (val c)) (unescape rest)"
  shows "unescape (concat (map esc cs)) = Some (map val cs)"
  using assms by (induction cs) auto

lemma repr_quote_cases: "repr_quote a b = 39 \<or> repr_quote a b = 34"
  by (simp add: repr_quote_def)

interpretation str_repr_codec: codec scalar_text "str_repr ed mk" read_str for ed mk
proof
  fix s assume s: "scalar_text s"
  let ?q = "repr_quote (39 \<in> set s) (34 \<in> set s)"
  have "unescape (concat (map (char_escape ed mk ?q) s)) = Some (map (\<lambda>c. c) s)"
    using s by (intro unescape_concat unescape_char_escape repr_quote_cases)
      (force simp: scalar_text_def)
  then show "read_str (str_repr ed mk s) = Inr s"
    by (simp add: read_str_def str_repr_def unquote_def Let_def butlast_append)
qed

interpretation bytes_repr_codec: codec "\<lambda>_. True" "\<lambda>bs. bytes_repr_quoted bs al" read_bytes for al
proof
  fix bs :: "u8 list"
  let ?q = "repr_quote (39 \<in> set bs) (34 \<in> set bs)"
  have "unescape (concat (map (byte_escape al ?q) bs)) = Some (map unat bs)"
    by (intro unescape_concat unescape_byte_escape repr_quote_cases)
  then show "read_bytes (bytes_repr_quoted bs al) = Inr bs"
    by (simp add: read_bytes_def bytes_repr_quoted_def unquote_def Let_def butlast_append comp_def)
qed

subsection \<open>Properties\<close>

lemma distinct_stepping: "st \<noteq> 0 \<Longrightarrow> distinct (stepping st hi lo)"
  by (auto simp: stepping_def distinct_map inj_on_def)

text \<open>
  C21. For an exclusive range with a non-zero step, slice resolution selects exactly the positions
  of CPython's \<open>slice.indices\<close> followed by its stepping loop, in the same order: saturation, the
  clamps and the overflow exit of the loop change nothing.
\<close>

theorem range_indices_cpython:
  assumes "parts_in_i64 r" "int len \<le> i64_max" "r_step r \<noteq> 0" "\<not> r_inclusive r"
  shows "range_indices r len = Ok (map nat (py_indices (r_start r) (r_end r) (r_step r) len))"
proof -
  have "range_lo r len =
      py_adjust (r_step r) len (case r_start r of Some b \<Rightarrow> b | None \<Rightarrow> if r_step r < 0 then i64_max else 0)"
    using assms by (auto simp: range_lo_def py_adjust_def clamp_def norm_bound_eq parts_in_i64_def
        Let_def i64_bounds split: option.splits if_splits)
  moreover have "range_hi r len =
      py_adjust (r_step r) len (case r_end r of Some b \<Rightarrow> b | None \<Rightarrow> if r_step r < 0 then i64_min else i64_max)"
    using assms by (auto simp: range_hi_def py_adjust_def clamp_def norm_bound_eq parts_in_i64_def
        Let_def i64_bounds split: option.splits if_splits)
  ultimately show ?thesis
    using assms by (simp add: range_indices_stepping py_indices_def)
qed

theorem range_indices_cpython_witness:
  "range_indices \<lparr>r_start = Some (-100), r_end = Some (-1), r_step = 2, r_inclusive = False\<rparr> 6
     = Ok (map nat (py_indices (Some (-100)) (Some (-1)) 2 6))"
  using range_indices_cpython
    [of "\<lparr>r_start = Some (-100), r_end = Some (-1), r_step = 2, r_inclusive = False\<rparr>" 6]
  by (simp add: parts_in_i64_def in_i64_def i64_bounds)

text \<open>
  Slice resolution always answers: a zero step is the one error, and otherwise every selected
  position, inclusive ranges and negative steps included, is inside the sequence and no position
  is selected twice.
\<close>

theorem range_indices_total:
  assumes "int len \<le> i64_max"
  shows "(case range_indices r len of
            Inl e \<Rightarrow> r_step r = 0 \<and> e = zero_step_message
          | Inr xs \<Rightarrow> r_step r \<noteq> 0 \<and> distinct xs \<and> (\<forall>i \<in> set xs. i < len))"
proof (cases "r_step r = 0")
  case False
  have range: "x \<in> set (stepping (r_step r) (range_hi r len) (range_lo r len)) \<Longrightarrow> 0 \<le> x \<and> x < int len" for x
    using stepping_in_range [OF False] .
  then have "inj_on nat (set (stepping (r_step r) (range_hi r len) (range_lo r len)))"
    by (intro inj_onI) (simp add: eq_nat_nat_iff)
  moreover have "\<forall>x \<in> set (stepping (r_step r) (range_hi r len) (range_lo r len)). nat x < len"
    using range by (simp add: nat_less_iff)
  ultimately show ?thesis
    using False assms by (simp add: range_indices_stepping distinct_map distinct_stepping)
qed (simp add: range_indices_def)

theorem range_indices_total_witness:
  "range_indices \<lparr>r_start = None, r_end = None, r_step = -1, r_inclusive = False\<rparr> 3 = Ok [2, 1, 0] \<and>
   distinct [2, 1, 0::nat] \<and> list_all (\<lambda>i. i < 3) [2, 1, 0::nat]"
  using range_indices_total [of 3 "\<lparr>r_start = None, r_end = None, r_step = -1, r_inclusive = False\<rparr>"]
  by (simp add: range_indices_def range_lo_def range_hi_def clamp_def range_loop.simps as_usize_def
      in_i64_def i64_bounds)

text \<open>
  An inclusive range keeps its last element: with a positive unit step and bounds inside the
  sequence, either written from the front or, for the end, counted from the back, the selected
  positions are \<open>s, s+1, ..., e\<close>.
\<close>

theorem range_indices_inclusive:
  assumes "int len \<le> i64_max" "s \<le> e" "e < len" "b = int e \<or> b = int e - int len"
  shows "range_indices \<lparr>r_start = Some (int s), r_end = Some b, r_step = 1, r_inclusive = True\<rparr> len
           = Ok [s..<Suc e]"
proof -
  let ?r = "\<lparr>r_start = Some (int s), r_end = Some b, r_step = 1, r_inclusive = True\<rparr>"
  have lo: "range_lo ?r len = int s" and hi: "range_hi ?r len = int e + 1"
    using assms by (auto simp: range_lo_def range_hi_def clamp_def norm_bound_def in_i64_def i64_bounds)
  have "map nat (stepping 1 (int e + 1) (int s)) = map (\<lambda>k. k + s) [0..<Suc e - s]"
    using assms(2) by (simp add: stepping_def slice_len_def nat_add_distrib Suc_diff_le nat_diff_distrib' del: upt_Suc)
  also have "\<dots> = [s..<Suc e]"
    using assms(2) by (subst map_add_upt) (simp add: le_Suc_eq)
  finally show ?thesis using range_indices_stepping [of len ?r] assms(1) lo hi by simp
qed

theorem range_indices_inclusive_witness:
  "range_indices \<lparr>r_start = Some (int 1), r_end = Some (-1), r_step = 1, r_inclusive = True\<rparr> 4
     = Ok [1..<Suc 3]"
  by (rule range_indices_inclusive) (simp_all add: i64_bounds)

text \<open>
  A plain index is resolved Python-style and never clamped: it denotes position \<open>i\<close> exactly
  when \<open>i\<close> is in bounds and the index is \<open>i\<close> or \<open>i - len\<close>.
\<close>

theorem norm_index_iff:
  assumes "in_i64 n" "int len \<le> i64_max"
  shows "norm_index n len = Some i \<longleftrightarrow> i < len \<and> (n = int i \<or> n = int i - int len)"
  using assms by (auto simp: norm_index_def as_usize_def in_i64_def i64_bounds Let_def)

theorem norm_index_iff_witness: "norm_index (-5) 5 = Some 0"
  using norm_index_iff [of "-5" 5 0] by (simp add: in_i64_def i64_bounds)

text \<open>
  The nested form of a string is unambiguous: reading the literal's escapes back gives the
  string, so two different strings never print alike. This holds for every choice of what the
  Unicode tables call non-printable.
\<close>

theorem str_repr_unambiguous:
  assumes "scalar_text s" "scalar_text t"
  shows "read_str (str_repr ed mk s) = Ok s \<and> (str_repr ed mk s = str_repr ed mk t \<longleftrightarrow> s = t)"
  using str_repr_codec.dec_enc [OF assms(1), where ed = ed and mk = mk]
    str_repr_codec.enc_eq_iff [OF assms, where ed = ed and mk = mk]
  by blast

theorem str_repr_unambiguous_witness:
  "read_str (str_repr (\<lambda>c. c = 160) (\<lambda>_. False) [160, 39]) = Ok [160, 39] \<and>
   str_repr (\<lambda>c. c = 160) (\<lambda>_. False) [160, 39] \<noteq> str_repr (\<lambda>c. c = 160) (\<lambda>_. False) [32, 39]"
  using str_repr_unambiguous [of "[160, 39]" "[32, 39]" "\<lambda>c. c = 160" "\<lambda>_. False"]
  by (simp add: scalar_text_def)

text \<open>
  The same for bytes, in the plain form and in the \<open>bytearray\<close> form that escapes every single
  quote: the printed literal reads back as the bytes and distinguishes different ones.
\<close>

theorem bytes_repr_unambiguous:
  "read_bytes (bytes_repr bs) = Ok bs \<and> (bytes_repr bs = bytes_repr cs \<longleftrightarrow> bs = cs) \<and>
   (bytearray_repr bs = bytearray_repr cs \<longleftrightarrow> bs = cs)"
  using bytes_repr_codec.dec_enc [where x = bs and al = False]
    bytes_repr_codec.enc_eq_iff [where x = bs and y = cs and al = False]
    bytes_repr_codec.enc_eq_iff [where x = bs and y = cs and al = True]
  by (simp add: bytes_repr_def bytearray_repr_def)

end
