(* ===== verification/Consteval.thy ===== *)
theory Consteval
  imports Prelude
begin

text \<open>
  The one constant evaluator, \<^verbatim>\<open>src/src/ast/consteval.rs\<close>: the value and the fault of every
  integer operation (the VM, the peephole pass and the checker all call \<open>int_binop\<close>) and the
  fold of constant expression trees. Integers are 64-bit words read as two's complement. A float
  is its bit pattern; the five IEEE operations are a parameter (a record \<open>f64_ops\<close>), negation and
  the zero test work on the bits.
\<close>

record span =
  sp_line :: u32
  sp_col :: u32
  sp_file :: u32

datatype unary_op = U_Neg | U_Not | U_ErrVal | U_Wrap

datatype binary_op =
    B_Add | B_Sub | B_Mul | B_Div | B_Mod
  | B_Lt | B_LtEq | B_Gt | B_GtEq | B_Eq | B_NotEq | B_And | B_Or
  | B_BitAnd | B_BitOr | B_BitXor | B_Shl | B_Shr | B_In

type_synonym f64 = "64 word"

record f64_ops =
  f64_add :: "f64 \<Rightarrow> f64 \<Rightarrow> f64"
  f64_sub :: "f64 \<Rightarrow> f64 \<Rightarrow> f64"
  f64_mul :: "f64 \<Rightarrow> f64 \<Rightarrow> f64"
  f64_div :: "f64 \<Rightarrow> f64 \<Rightarrow> f64"
  f64_rem :: "f64 \<Rightarrow> f64 \<Rightarrow> f64"

text \<open>\<open>-x\<close> flips the sign bit; \<open>x == 0.0\<close> holds for both zeros.\<close>

definition f64_neg :: "f64 \<Rightarrow> f64" where
  "f64_neg x = x XOR push_bit 63 1"

definition f64_is_zero :: "f64 \<Rightarrow> bool" where
  "f64_is_zero x \<longleftrightarrow> push_bit 1 x = 0"

datatype const = CInt i64 | CFloat f64

datatype int_op = IO_Bin binary_op | IO_Neg | IO_Abs | IO_Lcm | IO_Gcd

datatype int_fault = Overflow int_op | DivByZero | ModByZero | ShiftRange i64

datatype fold = FValue const | FFault span int_fault | NotConst

subsection \<open>One integer operation\<close>

fun operand_fault :: "binary_op \<Rightarrow> i64 \<Rightarrow> int_fault option" where
  "operand_fault B_Div b = (if b = 0 then Some DivByZero else None)"
| "operand_fault B_Mod b = (if b = 0 then Some ModByZero else None)"
| "operand_fault B_Shl b = (if \<not> (0 \<le> sint b \<and> sint b < 64) then Some (ShiftRange b) else None)"
| "operand_fault B_Shr b = (if \<not> (0 \<le> sint b \<and> sint b < 64) then Some (ShiftRange b) else None)"
| "operand_fault _ b = None"

definition int_neg :: "i64 \<Rightarrow> (i64, int_fault) result" where
  "int_neg a = (case checked (- sint a) of Some n \<Rightarrow> Ok n | None \<Rightarrow> Err (Overflow IO_Neg))"

text \<open>\<open>opt.ok_or_else(overflow)\<close>\<close>

definition ok_or_overflow :: "binary_op \<Rightarrow> i64 option \<Rightarrow> (i64, int_fault) result" where
  "ok_or_overflow oper r = (case r of Some v \<Rightarrow> Ok v | None \<Rightarrow> Err (Overflow (IO_Bin oper)))"

fun int_arith :: "binary_op \<Rightarrow> i64 \<Rightarrow> i64 \<Rightarrow> (i64, int_fault) result option" where
  "int_arith B_Add a b = Some (ok_or_overflow B_Add (checked (sint a + sint b)))"
| "int_arith B_Sub a b = Some (ok_or_overflow B_Sub (checked (sint a - sint b)))"
| "int_arith B_Mul a b = Some (ok_or_overflow B_Mul (checked (sint a * sint b)))"
| "int_arith B_Div a b = Some (ok_or_overflow B_Div (checked (sint a sdiv sint b)))"
| "int_arith B_Mod a b = Some (Ok (word_of_int (sint a smod sint b)))"
| "int_arith B_BitAnd a b = Some (Ok (a AND b))"
| "int_arith B_BitOr a b = Some (Ok (a OR b))"
| "int_arith B_BitXor a b = Some (Ok (a XOR b))"
| "int_arith B_Shl a b =
     (let v = push_bit (unat b) a
      in Some (if signed_drop_bit (unat b) v = a then Ok v else Err (Overflow (IO_Bin B_Shl))))"
| "int_arith B_Shr a b = Some (Ok (signed_drop_bit (unat b) a))"
| "int_arith _ a b = None"

definition int_binop :: "binary_op \<Rightarrow> i64 \<Rightarrow> i64 \<Rightarrow> (i64, int_fault) result option" where
  "int_binop oper a b =
     (case operand_fault oper b of Some f \<Rightarrow> Some (Err f) | None \<Rightarrow> int_arith oper a b)"

fun float_binop :: "f64_ops \<Rightarrow> binary_op \<Rightarrow> f64 \<Rightarrow> f64 \<Rightarrow> f64 option" where
  "float_binop F B_Add a b = Some (f64_add F a b)"
| "float_binop F B_Sub a b = Some (f64_sub F a b)"
| "float_binop F B_Mul a b = Some (f64_mul F a b)"
| "float_binop F B_Div a b = (if f64_is_zero b then None else Some (f64_div F a b))"
| "float_binop F B_Mod a b = (if f64_is_zero b then None else Some (f64_rem F a b))"
| "float_binop F _ a b = None"

subsection \<open>The fold\<close>

text \<open>
  \<open>Other\<close> stands for the expression kinds that the evaluator answers \<open>NotConst\<close> for without
  descending (strings, names, calls, collections, ...).
\<close>

datatype expr =
    EInt span i64
  | EFloat span f64
  | EUnary span unary_op expr
  | EBinary span binary_op expr expr
  | Other span

primrec expr_span :: "expr \<Rightarrow> span" where
  "expr_span (EInt sp n) = sp"
| "expr_span (EFloat sp x) = sp"
| "expr_span (EUnary sp u e) = sp"
| "expr_span (EBinary sp b l r) = sp"
| "expr_span (Other sp) = sp"

type_synonym fault_note = "span \<times> binary_op \<times> int_fault"

definition combine :: "f64_ops \<Rightarrow> span \<Rightarrow> binary_op \<Rightarrow> fold \<Rightarrow> fold \<Rightarrow> fold" where
  "combine F sp oper l r =
     (case (l, r) of
        (FFault s f, _) \<Rightarrow> FFault s f
      | (_, FFault s f) \<Rightarrow> FFault s f
      | (FValue (CInt a), FValue (CInt b)) \<Rightarrow>
          (case int_binop oper a b of
             Some (Inr v) \<Rightarrow> FValue (CInt v)
           | Some (Inl f) \<Rightarrow> FFault sp f
           | None \<Rightarrow> NotConst)
      | (FValue (CFloat a), FValue (CFloat b)) \<Rightarrow>
          (case float_binop F oper a b of Some v \<Rightarrow> FValue (CFloat v) | None \<Rightarrow> NotConst)
      | _ \<Rightarrow> NotConst)"

definition note_of :: "span \<Rightarrow> binary_op \<Rightarrow> fold \<Rightarrow> fold \<Rightarrow> fault_note list" where
  "note_of sp oper l r =
     (case (l, r) of
        (NotConst, FValue (CInt b)) \<Rightarrow>
          (case operand_fault oper b of Some f \<Rightarrow> [(sp, oper, f)] | None \<Rightarrow> [])
      | _ \<Rightarrow> [])"

text \<open>The result, the visit counter and the notes in the order the callback receives them.\<close>

fun eval_noting :: "f64_ops \<Rightarrow> expr \<Rightarrow> nat \<Rightarrow> fault_note list \<Rightarrow> fold \<times> nat \<times> fault_note list" where
  "eval_noting F (EInt sp n) v ns = (FValue (CInt n), Suc v, ns)"
| "eval_noting F (EFloat sp x) v ns = (FValue (CFloat x), Suc v, ns)"
| "eval_noting F (EUnary sp U_Neg e) v ns =
     (case eval_noting F e (Suc v) ns of
        (FValue (CInt a), v', ns') \<Rightarrow>
          (case int_neg a of
             Inr n \<Rightarrow> (FValue (CInt n), v', ns')
           | Inl f \<Rightarrow> (FFault sp f, v', ns'))
      | (FValue (CFloat x), v', ns') \<Rightarrow> (FValue (CFloat (f64_neg x)), v', ns')
      | (other, v', ns') \<Rightarrow> (other, v', ns'))"
| "eval_noting F (EBinary sp oper lhs rhs) v ns =
     (case eval_noting F lhs (Suc v) ns of
        (l, v1, ns1) \<Rightarrow>
          (case eval_noting F rhs v1 ns1 of
             (r, v2, ns2) \<Rightarrow> (combine F sp oper l r, v2, ns2 @ note_of sp oper l r)))"
| "eval_noting F (EUnary sp u e) v ns = (NotConst, Suc v, ns)"
| "eval_noting F (Other sp) v ns = (NotConst, Suc v, ns)"

definition eval :: "f64_ops \<Rightarrow> expr \<Rightarrow> nat \<Rightarrow> fold \<times> nat" where
  "eval F e v = (case eval_noting F e v [] of (r, v', _) \<Rightarrow> (r, v'))"

subsection \<open>The fault's text\<close>

fun show_nat :: "nat \<Rightarrow> string" where
  "show_nat n =
     (if n < 10 then [char_of (48 + n)] else show_nat (n div 10) @ [char_of (48 + n mod 10)])"

declare show_nat.simps [simp del]

definition show_i64 :: "i64 \<Rightarrow> string" where
  "show_i64 a = (if sint a < 0 then CHR ''-'' # show_nat (nat (- sint a)) else show_nat (nat (sint a)))"

text \<open>\<^verbatim>\<open>Hook::of_binary(op)\<close> and its \<^verbatim>\<open>HOOKS\<close> row's protocol; \<open>and\<close>/\<open>or\<close> have no hook.\<close>

fun binary_protocol :: "binary_op \<Rightarrow> string option" where
  "binary_protocol B_Add = Some ''Add''"
| "binary_protocol B_Sub = Some ''Sub''"
| "binary_protocol B_Mul = Some ''Mul''"
| "binary_protocol B_Div = Some ''Div''"
| "binary_protocol B_Mod = Some ''Mod''"
| "binary_protocol B_Lt = Some ''Comparable''"
| "binary_protocol B_LtEq = Some ''Comparable''"
| "binary_protocol B_Gt = Some ''Comparable''"
| "binary_protocol B_GtEq = Some ''Comparable''"
| "binary_protocol B_Eq = Some ''Eq''"
| "binary_protocol B_NotEq = Some ''Eq''"
| "binary_protocol B_In = Some ''Contains''"
| "binary_protocol B_BitAnd = Some ''BitAnd''"
| "binary_protocol B_BitOr = Some ''BitOr''"
| "binary_protocol B_BitXor = Some ''BitXor''"
| "binary_protocol B_Shl = Some ''Shl''"
| "binary_protocol B_Shr = Some ''Shr''"
| "binary_protocol B_And = None"
| "binary_protocol B_Or = None"

fun op_name :: "int_op \<Rightarrow> string option" where
  "op_name (IO_Bin b) = binary_protocol b"
| "op_name IO_Neg = Some ''negation''"
| "op_name IO_Abs = Some ''abs''"
| "op_name IO_Lcm = Some ''lcm''"
| "op_name IO_Gcd = Some ''gcd''"

text \<open>\<open>None\<close> is the panic of \<^verbatim>\<open>expect(\"an int arithmetic op has a hook\")\<close>.\<close>

fun int_fault_message :: "int_fault \<Rightarrow> string option" where
  "int_fault_message (Overflow oper) = map_option (append ''integer overflow in '') (op_name oper)"
| "int_fault_message DivByZero = Some ''division by zero''"
| "int_fault_message ModByZero = Some ''modulo by zero''"
| "int_fault_message (ShiftRange b) =
     Some (''shift amount '' @ show_i64 b @ '' out of range (0..64)'')"

subsection \<open>The reference: unbounded integers\<close>

text \<open>The mathematical operation; division truncates towards zero and the remainder takes the
  sign of the dividend.\<close>

fun math_binop :: "binary_op \<Rightarrow> int \<Rightarrow> int \<Rightarrow> int option" where
  "math_binop B_Add x y = Some (x + y)"
| "math_binop B_Sub x y = Some (x - y)"
| "math_binop B_Mul x y = Some (x * y)"
| "math_binop B_Div x y = Some (x sdiv y)"
| "math_binop B_Mod x y = Some (x smod y)"
| "math_binop B_BitAnd x y = Some (x AND y)"
| "math_binop B_BitOr x y = Some (x OR y)"
| "math_binop B_BitXor x y = Some (x XOR y)"
| "math_binop B_Shl x y = Some (x * 2 ^ nat y)"
| "math_binop B_Shr x y = Some (x div 2 ^ nat y)"
| "math_binop _ x y = None"

lemma word_eq_of_sint: "sint (a :: i64) = x \<Longrightarrow> in_i64 x \<and> word_of_int x = a"
  by auto

lemma shr_sint: "sint (signed_drop_bit n (a::i64)) = sint a div 2 ^ n"
  by (simp add: sint_signed_drop_bit_eq drop_bit_eq_div)

lemma in_i64_smod [i64_simps]: "in_i64 (sint (a :: i64) smod y)"
proof -
  let ?x = "sint a"
  have "\<bar>?x\<bar> mod \<bar>y\<bar> \<le> \<bar>?x\<bar>"
    by (rule zmod_le_nonneg_dividend) simp
  moreover have "0 \<le> \<bar>?x\<bar> mod \<bar>y\<bar>"
    by (cases "y = 0") simp_all
  ultimately show ?thesis
    using in_i64_sint [of a] by (auto simp: signed_modulo_int_def in_i64_def i64_bounds sgn_if)
qed

lemma unat_shift: "0 \<le> sint (b :: i64) \<Longrightarrow> unat b = nat (sint b)"
proof -
  assume "0 \<le> sint b"
  moreover have "sint b < 2 ^ 64" using sint_lt [of b] by simp
  ultimately have "uint b = sint b" by (simp add: uint_sint take_bit_int_eq_self)
  then show ?thesis by (simp flip: nat_uint_eq)
qed

lemma i64_eq_iff: "a = b \<longleftrightarrow> sint a = sint (b :: i64)"
  by (metis word_eq_of_sint)

lemma shl_eq: "push_bit n a = (word_of_int (sint a * 2 ^ n) :: i64)"
  by (simp add: push_bit_eq_mult)

lemma shl_sint: "sint (push_bit n a :: i64) = (sint a * 2 ^ n + 2 ^ 63) mod 2 ^ 64 - 2 ^ 63"
  unfolding shl_eq int_word_sint by simp

lemma shl_detects_overflow:
  fixes a :: i64
  assumes n: "n < 64"
  shows "signed_drop_bit n (push_bit n a) = a \<longleftrightarrow> in_i64 (sint a * 2 ^ n)"
proof -
  let ?p = "sint a * 2 ^ n"
  define k where "k = (?p + 2 ^ 63) div 2 ^ 64"
  have v: "sint (push_bit n a) = ?p - k * 2 ^ 64"
    unfolding shl_sint k_def by (simp add: minus_div_mult_eq_mod [symmetric])
  have pow: "(2::int) ^ 64 = 2 ^ (64 - n) * 2 ^ n"
    using n by (simp flip: power_add)
  have d: "sint (signed_drop_bit n (push_bit n a)) = sint a - k * 2 ^ (64 - n)"
    unfolding shr_sint v pow
    by (simp add: mult.assoc [symmetric] flip: left_diff_distrib)
  have "signed_drop_bit n (push_bit n a) = a \<longleftrightarrow> k = 0"
    unfolding i64_eq_iff d by simp
  also have "k = 0 \<longleftrightarrow> in_i64 ?p"
    by (auto simp: k_def in_i64_def i64_bounds zdiv_eq_0_iff)
  finally show ?thesis .
qed

lemma int_binop_eq:
  "int_binop oper a b =
     (case math_binop oper (sint a) (sint b) of
        None \<Rightarrow> None
      | Some r \<Rightarrow> Some (case operand_fault oper b of
                           Some f \<Rightarrow> Err f
                         | None \<Rightarrow> if in_i64 r then Ok (word_of_int r)
                                   else Err (Overflow (IO_Bin oper))))"
proof (cases oper)
  case B_Mod
  then show ?thesis by (simp add: int_binop_def in_i64_smod)
next
  case B_BitAnd
  then show ?thesis using word_eq_of_sint [OF signed_and_eq [of a b]] by (simp add: int_binop_def)
next
  case B_BitOr
  then show ?thesis using word_eq_of_sint [OF signed_or_eq [of a b]] by (simp add: int_binop_def)
next
  case B_BitXor
  then show ?thesis using word_eq_of_sint [OF signed_xor_eq [of a b]] by (simp add: int_binop_def)
next
  case B_Shl
  show ?thesis
  proof (cases "0 \<le> sint b \<and> sint b < 64")
    case True
    then have "nat (sint b) < 64" by linarith
    with True B_Shl shl_detects_overflow [of "nat (sint b)" a] show ?thesis
      by (simp add: int_binop_def unat_shift shl_eq Let_def)
  qed (use B_Shl in \<open>simp add: int_binop_def\<close>)
next
  case B_Shr
  show ?thesis
  proof (cases "0 \<le> sint b \<and> sint b < 64")
    case True
    with B_Shr word_eq_of_sint [OF shr_sint [of "nat (sint b)" a]] show ?thesis
      by (simp add: int_binop_def unat_shift)
  qed (use B_Shr in \<open>simp add: int_binop_def\<close>)
qed (simp_all add: int_binop_def ok_or_overflow_def checked_def)

text \<open>Every node of the tree, itself included.\<close>

fun subexprs :: "expr \<Rightarrow> expr set" where
  "subexprs (EUnary sp u e) = insert (EUnary sp u e) (subexprs e)"
| "subexprs (EBinary sp oper l r) = insert (EBinary sp oper l r) (subexprs l \<union> subexprs r)"
| "subexprs e = {e}"

fun math_eval :: "expr \<Rightarrow> int option" where
  "math_eval (EInt sp n) = Some (sint n)"
| "math_eval (EUnary sp U_Neg e) = map_option uminus (math_eval e)"
| "math_eval (EBinary sp oper l r) =
     (case (math_eval l, math_eval r) of
        (Some x, Some y) \<Rightarrow>
          (if oper \<in> {B_Div, B_Mod} \<and> y = 0 \<or> oper \<in> {B_Shl, B_Shr} \<and> \<not> (0 \<le> y \<and> y < 64)
           then None else math_binop oper x y)
      | _ \<Rightarrow> None)"
| "math_eval _ = None"

definition fits :: "expr \<Rightarrow> bool" where
  "fits e \<longleftrightarrow> (\<forall>s \<in> subexprs e. \<exists>r. math_eval s = Some r \<and> in_i64 r)"

text \<open>
  The three results of the evaluator, each by plain recursion on the tree: the fold, the number of
  nodes entered and the notes.
\<close>

definition neg_fold :: "span \<Rightarrow> fold \<Rightarrow> fold" where
  "neg_fold sp r =
     (case r of
        FValue (CInt a) \<Rightarrow> (case int_neg a of Inr n \<Rightarrow> FValue (CInt n) | Inl f \<Rightarrow> FFault sp f)
      | FValue (CFloat x) \<Rightarrow> FValue (CFloat (f64_neg x))
      | other \<Rightarrow> other)"

fun fold_of :: "f64_ops \<Rightarrow> expr \<Rightarrow> fold" where
  "fold_of F (EInt sp n) = FValue (CInt n)"
| "fold_of F (EFloat sp x) = FValue (CFloat x)"
| "fold_of F (EUnary sp U_Neg e) = neg_fold sp (fold_of F e)"
| "fold_of F (EBinary sp oper l r) = combine F sp oper (fold_of F l) (fold_of F r)"
| "fold_of F _ = NotConst"

fun entered :: "expr \<Rightarrow> nat" where
  "entered (EUnary sp U_Neg e) = Suc (entered e)"
| "entered (EBinary sp oper l r) = Suc (entered l + entered r)"
| "entered e = 1"

fun noted :: "f64_ops \<Rightarrow> expr \<Rightarrow> fault_note list" where
  "noted F (EUnary sp U_Neg e) = noted F e"
| "noted F (EBinary sp oper l r) =
     noted F l @ noted F r @ note_of sp oper (fold_of F l) (fold_of F r)"
| "noted F e = []"

lemma self_in_subexprs [simp]: "e \<in> subexprs e"
  by (induction e rule: subexprs.induct) simp_all

lemma fits_unary [simp]:
  "fits (EUnary sp U_Neg e) \<longleftrightarrow> fits e \<and> (\<exists>r. math_eval e = Some r \<and> in_i64 (- r))"
  by (auto simp: fits_def)

lemma fits_binary:
  "fits (EBinary sp oper l r) \<longleftrightarrow>
     fits l \<and> fits r \<and> (\<exists>x. math_eval (EBinary sp oper l r) = Some x \<and> in_i64 x)"
  by (auto simp: fits_def simp del: math_eval.simps)

lemma eval_noting_eq:
  "eval_noting F e v ns = (fold_of F e, v + entered e, ns @ noted F e)"
  by (induction F e v ns rule: eval_noting.induct)
     (auto simp: neg_fold_def split: prod.splits fold.splits const.splits sum.splits)

lemma eval_eq: "eval F e v = (fold_of F e, v + entered e)"
  by (simp add: eval_def eval_noting_eq)

lemma int_neg_cases:
  "int_neg a = (if in_i64 (- sint a) then Ok (word_of_int (- sint a)) else Err (Overflow IO_Neg))"
  by (simp add: int_neg_def checked_def)

lemma sint_neg: "in_i64 (- sint a) \<Longrightarrow> sint (- a :: i64) = - sint a"
  using sint_word_of_int [of "- sint a"] by simp

lemma neg_fold_CInt_iff:
  "neg_fold sp r = FValue (CInt n) \<longleftrightarrow>
     (\<exists>a. r = FValue (CInt a) \<and> in_i64 (- sint a) \<and> sint n = - sint a)"
  by (auto simp: neg_fold_def int_neg_cases sint_neg split: fold.splits const.splits if_splits)
     (simp_all add: i64_eq_iff sint_neg)

lemma combine_CInt_iff:
  "combine F sp oper l r = FValue (CInt n) \<longleftrightarrow>
     (\<exists>a b. l = FValue (CInt a) \<and> r = FValue (CInt b) \<and> int_binop oper a b = Some (Ok n))"
  by (auto simp: combine_def split: fold.splits const.splits sum.splits option.splits)

lemma operand_fault_None_iff:
  "operand_fault oper b = None \<longleftrightarrow>
     \<not> (oper \<in> {B_Div, B_Mod} \<and> sint b = 0 \<or>
        oper \<in> {B_Shl, B_Shr} \<and> \<not> (0 \<le> sint b \<and> sint b < 64))"
  by (cases oper) (auto simp: i64_eq_iff)

lemma int_binop_Ok_iff:
  "int_binop oper a b = Some (Ok n) \<longleftrightarrow>
     operand_fault oper b = None \<and>
     (\<exists>r. math_binop oper (sint a) (sint b) = Some r \<and> in_i64 r \<and> sint n = r)"
  by (auto simp: int_binop_eq sint_word_of_int i64_eq_iff split: option.splits if_splits)

lemma fits_value:
  assumes "fits e"
  obtains a :: i64 where "math_eval e = Some (sint a)"
proof -
  from assms obtain r where r: "math_eval e = Some r" "in_i64 r"
    unfolding fits_def using self_in_subexprs [of e] by blast
  then have "math_eval e = Some (sint (word_of_int r :: i64))"
    by (simp only: sint_word_of_int)
  then show thesis by (rule that)
qed

lemma fits_simps [simp]:
  "fits (EInt sp n)" "\<not> fits (EFloat sp x)" "\<not> fits (Other sp)"
  "u \<noteq> U_Neg \<Longrightarrow> \<not> fits (EUnary sp u e)"
  by (auto simp: fits_def) (cases u; simp)

lemma fold_of_int_exact:
  "fold_of F e = FValue (CInt n) \<longleftrightarrow> fits e \<and> math_eval e = Some (sint n)"
proof (induction e arbitrary: n)
  case (EInt sp m)
  then show ?case by (auto simp: i64_eq_iff)
next
  case (EUnary sp u e)
  show ?case
  proof (cases "u = U_Neg \<and> fits e")
    case True
    then obtain a :: i64 where "math_eval e = Some (sint a)" by (blast elim: fits_value)
    with True EUnary show ?thesis by (auto simp: neg_fold_CInt_iff intro!: exI [of _ a])
  next
    case False
    with EUnary show ?thesis by (cases u) (auto simp: neg_fold_CInt_iff)
  qed
next
  case (EBinary sp oper l r)
  have "fold_of F (EBinary sp oper l r) = FValue (CInt n) \<longleftrightarrow>
    (\<exists>(a :: i64) (b :: i64). (fits l \<and> math_eval l = Some (sint a)) \<and> (fits r \<and> math_eval r = Some (sint b)) \<and>
       operand_fault oper b = None \<and>
       (\<exists>x. math_binop oper (sint a) (sint b) = Some x \<and> in_i64 x \<and> sint n = x))"
    by (simp add: combine_CInt_iff EBinary int_binop_Ok_iff)
  also have "\<dots> \<longleftrightarrow> fits (EBinary sp oper l r) \<and> math_eval (EBinary sp oper l r) = Some (sint n)"
  proof (cases "fits l \<and> fits r")
    case True
    then obtain a b :: i64 where "math_eval l = Some (sint a)" "math_eval r = Some (sint b)"
      by (blast elim: fits_value)
    with True show ?thesis by (auto simp: fits_binary operand_fault_None_iff)
  qed (auto simp: fits_binary)
  finally show ?case .
qed simp_all

text \<open>A node that faults by itself: its operands are exact constants and its operation faults.\<close>

definition faulty_node :: "span \<Rightarrow> int_fault \<Rightarrow> expr \<Rightarrow> bool" where
  "faulty_node sp f e \<longleftrightarrow>
     (\<exists>e' x. e = EUnary sp U_Neg e' \<and> fits e' \<and> math_eval e' = Some x \<and>
        \<not> in_i64 (- x) \<and> f = Overflow IO_Neg) \<or>
     (\<exists>oper l r a b. e = EBinary sp oper l r \<and> fits l \<and> math_eval l = Some (sint a) \<and>
        fits r \<and> math_eval r = Some (sint b) \<and> int_binop oper a b = Some (Err f))"

lemma faulty_node_neg:
  "fits e \<Longrightarrow> math_eval e = Some x \<Longrightarrow> \<not> in_i64 (- x) \<Longrightarrow>
     faulty_node sp (Overflow IO_Neg) (EUnary sp U_Neg e)"
  by (auto simp: faulty_node_def)

lemma faulty_node_bin:
  "fits l \<Longrightarrow> math_eval l = Some (sint a) \<Longrightarrow> fits r \<Longrightarrow> math_eval r = Some (sint b) \<Longrightarrow>
     int_binop oper a b = Some (Err f) \<Longrightarrow> faulty_node sp f (EBinary sp oper l r)"
  by (auto simp: faulty_node_def)

lemma neg_fold_fault:
  "neg_fold sp r = FFault sp' f \<Longrightarrow>
     r = FFault sp' f \<or> (\<exists>a. r = FValue (CInt a) \<and> sp' = sp \<and> \<not> in_i64 (- sint a) \<and> f = Overflow IO_Neg)"
  by (auto simp: neg_fold_def int_neg_cases split: fold.splits const.splits if_splits)

lemma combine_fault:
  "combine F sp oper l r = FFault sp' f \<Longrightarrow>
     l = FFault sp' f \<or> r = FFault sp' f \<or>
     (\<exists>a b. l = FValue (CInt a) \<and> r = FValue (CInt b) \<and> sp' = sp \<and> int_binop oper a b = Some (Err f))"
  by (auto simp: combine_def split: fold.splits const.splits sum.splits option.splits)

subsection \<open>Properties\<close>


text \<open>
  C11. The fold of an integer expression is exact: it yields the integer \<open>n\<close> if and only if every
  subexpression has a mathematical value that fits in 64 bits and the value of the whole tree
  over the unbounded integers is \<open>n\<close>.
\<close>

theorem eval_int_exact:
  "fst (eval F e v) = FValue (CInt n) \<longleftrightarrow> fits e \<and> math_eval e = Some (sint n)"
  by (simp add: eval_eq fold_of_int_exact)

text \<open>
  A reported fault is real: when the fold answers \<open>Fault(span, f)\<close>, the tree has a node at
  that span whose operands are exact constants and whose own operation faults with \<open>f\<close>, so
  the innermost faulting node is named and never one that could succeed.
\<close>

theorem eval_fault_sound:
  "fst (eval F e v) = FFault sp f \<Longrightarrow> \<exists>s \<in> subexprs e. faulty_node sp f s"
proof -
  have "fold_of F e = FFault sp f \<Longrightarrow> \<exists>s \<in> subexprs e. faulty_node sp f s" for e
  proof (induction e)
    case (EUnary sp' u e)
    show ?case
    proof (cases u)
      case U_Neg
      with EUnary.prems have "neg_fold sp' (fold_of F e) = FFault sp f" by simp
      from neg_fold_fault [OF this] EUnary.IH U_Neg show ?thesis
        by (auto simp: fold_of_int_exact intro: faulty_node_neg)
    qed (use EUnary.prems in simp_all)
  next
    case (EBinary sp' oper l r)
    then have "combine F sp' oper (fold_of F l) (fold_of F r) = FFault sp f" by simp
    from combine_fault [OF this] EBinary.IH show ?case
      by (auto simp: fold_of_int_exact intro: faulty_node_bin)
  qed simp_all
  then show "fst (eval F e v) = FFault sp f \<Longrightarrow> \<exists>s \<in> subexprs e. faulty_node sp f s"
    by (simp add: eval_eq)
qed

text \<open>Float operations that ignore their second operand: an instance for the examples below.\<close>

definition first_f64_ops :: f64_ops where
  "first_f64_ops = \<lparr>f64_add = \<lambda>a b. a, f64_sub = \<lambda>a b. a, f64_mul = \<lambda>a b. a,
     f64_div = \<lambda>a b. a, f64_rem = \<lambda>a b. a\<rparr>"

abbreviation (input) sp_at :: "u32 \<Rightarrow> span" where
  "sp_at c \<equiv> \<lparr>sp_line = 1, sp_col = c, sp_file = 0\<rparr>"

theorem eval_fault_sound_witness:
  "\<exists>s \<in> subexprs (EBinary (sp_at 5) B_Add (Other (sp_at 1))
       (EBinary (sp_at 9) B_Div (EInt (sp_at 7) 1) (EInt (sp_at 11) 0))).
     faulty_node (sp_at 9) DivByZero s"
  by (rule eval_fault_sound [of first_f64_ops _ 0])
     (simp add: eval_def combine_def int_binop_def)

text \<open>
  Every noted node deserves its note: it is a binary node of the tree whose left operand is
  not a constant, whose right operand folds to an integer constant, and whose operation faults
  with the noted fault for every left operand.
\<close>

theorem noted_operand_always_faults:
  assumes "(sp, oper, f) \<in> set (snd (snd (eval_noting F e v [])))"
  shows "\<exists>l r b. EBinary sp oper l r \<in> subexprs e \<and> fst (eval F l 0) = NotConst \<and>
           fst (eval F r 0) = FValue (CInt b) \<and> (\<forall>a. int_binop oper a b = Some (Err f))"
proof -
  have "(sp, oper, f) \<in> set (noted F e) \<Longrightarrow>
     \<exists>l r b. EBinary sp oper l r \<in> subexprs e \<and> fold_of F l = NotConst \<and>
           fold_of F r = FValue (CInt b) \<and> operand_fault oper b = Some f"
  proof (induction e)
    case (EUnary sp' u e)
    then show ?case by (cases u) auto
  next
    case (EBinary sp' oper' l r)
    then show ?case
      by (force simp: note_of_def split: fold.splits const.splits option.splits)
  qed simp_all
  with assms show ?thesis
    by (fastforce simp: eval_eq eval_noting_eq int_binop_def)
qed

theorem noted_operand_always_faults_witness:
  "\<exists>l r b. EBinary (sp_at 3) B_Shl l r \<in>
       subexprs (EBinary (sp_at 3) B_Shl (Other (sp_at 1)) (EInt (sp_at 6) 64)) \<and>
     fst (eval first_f64_ops l 0) = NotConst \<and> fst (eval first_f64_ops r 0) = FValue (CInt b) \<and>
     (\<forall>a. int_binop B_Shl a b = Some (Err (ShiftRange 64)))"
  by (rule noted_operand_always_faults [of _ _ _ _ _ 0]) (simp add: note_of_def)

end
