(* ===== verification/Bytecode.thy ===== *)
theory Bytecode
  imports Consteval
begin

text \<open>
  The instruction set of \<^verbatim>\<open>src/src/base/op.rs\<close> and the record types its instructions carry.
  Instructions that the peephole pass or the machine model of this development tells apart are
  constructors of \<open>op\<close>; the remaining ones, which both treat alike (they hold no jump target and
  no rule rewrites them), are the constructors of \<open>plain_op\<close>, embedded by \<open>Plain\<close>. An enum of
  another module (a builtin, a native static, a type descriptor, a format spec) is carried as a
  number: no definition looks inside it.
\<close>

datatype bin_kind =
  K_Add | K_Sub | K_Mul | K_Div | K_Mod | K_Lt | K_LtEq | K_Gt | K_GtEq

datatype assert_cmp = A_Lt | A_LtEq | A_Gt | A_GtEq | A_Eq | A_NotEq

datatype cap_src = CS_Slot nat | CS_Captured u32

record cap_entry =
  ce_name :: string
  ce_src :: cap_src

datatype hook =
    H_Iter | H_Next | H_Index | H_SetIndex | H_Slice | H_Str | H_Eq | H_Hash | H_Compare
  | H_Add | H_Sub | H_Mul | H_Div | H_Mod | H_Neg | H_Contains
  | H_BitAnd | H_BitOr | H_BitXor | H_Shl | H_Shr

record wait_meta =
  wm_n :: nat
  arm_targets :: "nat list"
  else_target :: "nat option"
  is_send :: "bool list"

type_synonym proto_id = nat
type_synonym builtin = nat
type_synonym native_static = nat
type_synonym type_descriptor = nat
type_synonym format_spec = nat

datatype (plugins only:) plain_op =
    ConstStr string
  | ConstBytes "u8 list"
  | Assert bool "assert_cmp option"
  | LoadBuiltin builtin
  | GetGlobalSlot u32
  | DefineGlobalSlot u32
  | SetGlobalSlot u32
  | GetCaptured u32
  | Eq
  | NotEq
  | BitAnd
  | BitOr
  | BitXor
  | Shl
  | Shr
  | Contains
  | AsBool
  | AsInt
  | Call nat
  | CallMethod string nat u32
  | CallHook hook string nat u32
  | CallStatic string string nat
  | CallStaticDyn string nat
  | CallBuiltin builtin nat
  | CallNativeStatic native_static nat
  | CallPrint nat
  | CallPrintSep nat
  | Return
  | Yield
  | DeferCall nat
  | DeferMethod string nat
  | EnterDeferScope
  | LeaveDeferScope
  | DrainHandlerDefers
  | Try
  | JsonDecode type_descriptor
  | JsonToValue
  | NewList nat
  | NewTuple nat
  | NewMap nat
  | NewSet nat
  | NewStruct string nat
  | NewCell
  | CellLoad
  | CellStore
  | NewEnum string u32 nat
  | MakeFunc proto_id
  | MakeFuncIn u32
  | MakeMethodFunc string string
  | MakeCffi u32
  | MakeClosure proto_id "cap_entry list"
  | GetField string u32
  | GetIndex
  | SliceRange
  | SetField string u32
  | SetIndex
  | Dup
  | Dup2
  | ToStr
  | ToStrFmt format_spec
  | BuildStr nat
  | ListClone
  | ArrLen
  | HasNextHook
  | IsGenerator
  | IsCursor
  | IterableToCursor
  | IsChannel
  | ChanRecvOrClosed
  | EnsureEnum nat
  | MatchNoArm nat
  | EnterNursery
  | JoinNursery
  | ReclaimNursery
  | SpawnCall nat "proto_id option"
  | SpawnRecv nat proto_id
  | SpawnBlock proto_id "cap_entry list"
  | NewChannel bool
  | NewShared
  | NewRwShared
  | NewAtomic
  | NewAtomicInt
  | NewExecutor
  | NewExecutorN

text \<open>\<^verbatim>\<open>MatchArm { scrut, variant, variant_id, enum_name, nbind, bind_start, next }\<close> without its target.\<close>

record arm_test =
  a_scrut :: nat
  a_variant :: string
  a_variant_id :: u32
  a_enum_name :: "string option"
  a_nbind :: nat
  a_bind_start :: nat

datatype op =
    ConstInt i64
  | ConstFloat f64
  | OpTrue
  | OpFalse
  | OpNil
  | Pop
  | GetLocal nat
  | SetLocal nat
  | Add | Sub | Mul | Div | Mod
  | Neg
  | OpNot
  | Lt | LtEq | Gt | GtEq
  | BinLocalLocal nat nat bin_kind
  | BinLocalConst nat i64 bin_kind
  | IncLocal nat i64
  | Jump nat
  | JumpIfFalse nat
  | JumpIfFalseKeep nat
  | JumpIfTrueKeep nat
  | PushHandler nat
  | PopHandler
  | JumpIfProvided u32 nat
  | MatchArm arm_test nat
  | WaitPoll wait_meta
  | Plain plain_op

end
