(* ===== verification/Peephole.thy ===== *)
theory Peephole
  imports Bytecode
begin

text \<open>
  The peephole optimizer, \<^verbatim>\<open>src/src/compiler/peephole.rs\<close>: constant folding, superinstruction
  fusion and jump relocation in one forward walk. \<^verbatim>\<open>code\<close>, \<^verbatim>\<open>lines\<close>, the output and the two
  index vectors are lists; the walk's four vectors are the record \<open>opt_state\<close>.
\<close>

fun bin_kind :: "op \<Rightarrow> bin_kind option" where
  "bin_kind Add = Some K_Add"
| "bin_kind Sub = Some K_Sub"
| "bin_kind Mul = Some K_Mul"
| "bin_kind Div = Some K_Div"
| "bin_kind Mod = Some K_Mod"
| "bin_kind Lt = Some K_Lt"
| "bin_kind LtEq = Some K_LtEq"
| "bin_kind Gt = Some K_Gt"
| "bin_kind GtEq = Some K_GtEq"
| "bin_kind _ = None"

fun jump_target :: "op \<Rightarrow> nat option" where
  "jump_target (Jump t) = Some t"
| "jump_target (JumpIfFalse t) = Some t"
| "jump_target (JumpIfFalseKeep t) = Some t"
| "jump_target (JumpIfTrueKeep t) = Some t"
| "jump_target (PushHandler t) = Some t"
| "jump_target (MatchArm a t) = Some t"
| "jump_target (JumpIfProvided slot t) = Some t"
| "jump_target _ = None"

text \<open>Writing through \<^verbatim>\<open>jump_target_mut\<close>: the target becomes \<open>f\<close> of it, nothing else changes.\<close>

fun map_jump_target :: "(nat \<Rightarrow> nat) \<Rightarrow> op \<Rightarrow> op" where
  "map_jump_target f (Jump t) = Jump (f t)"
| "map_jump_target f (JumpIfFalse t) = JumpIfFalse (f t)"
| "map_jump_target f (JumpIfFalseKeep t) = JumpIfFalseKeep (f t)"
| "map_jump_target f (JumpIfTrueKeep t) = JumpIfTrueKeep (f t)"
| "map_jump_target f (PushHandler t) = PushHandler (f t)"
| "map_jump_target f (MatchArm a t) = MatchArm a (f t)"
| "map_jump_target f (JumpIfProvided slot t) = JumpIfProvided slot (f t)"
| "map_jump_target f other = other"

fun fold_binop :: "op \<Rightarrow> binary_op option" where
  "fold_binop Add = Some B_Add"
| "fold_binop Sub = Some B_Sub"
| "fold_binop Mul = Some B_Mul"
| "fold_binop Div = Some B_Div"
| "fold_binop Mod = Some B_Mod"
| "fold_binop _ = None"

text \<open>A tail rewrite: the replacement and the number of operations it replaces.\<close>

type_synonym tail_fold = "op \<times> nat"

definition fold_binary :: "f64_ops \<Rightarrow> op \<Rightarrow> op \<Rightarrow> op \<Rightarrow> op option" where
  "fold_binary F x y last_op =
     (case fold_binop last_op of
        None \<Rightarrow> None
      | Some oper \<Rightarrow>
          (case x of
             ConstInt a \<Rightarrow>
               (case y of
                  ConstInt b \<Rightarrow>
                    (case int_binop oper a b of Some (Inr v) \<Rightarrow> Some (ConstInt v) | _ \<Rightarrow> None)
                | _ \<Rightarrow> None)
           | ConstFloat a \<Rightarrow>
               (case y of
                  ConstFloat b \<Rightarrow> map_option ConstFloat (float_binop F oper a b)
                | _ \<Rightarrow> None)
           | _ \<Rightarrow> None))"

definition fold_unary :: "op \<Rightarrow> op \<Rightarrow> op option" where
  "fold_unary x last_op =
     (case last_op of
        Neg \<Rightarrow>
          (case x of
             ConstInt n \<Rightarrow> (case int_neg n of Inr v \<Rightarrow> Some (ConstInt v) | Inl f \<Rightarrow> None)
           | ConstFloat a \<Rightarrow> Some (ConstFloat (f64_neg a))
           | _ \<Rightarrow> None)
      | OpNot \<Rightarrow>
          (case x of OpTrue \<Rightarrow> Some OpFalse | OpFalse \<Rightarrow> Some OpTrue | _ \<Rightarrow> None)
      | _ \<Rightarrow> None)"

definition try_fold_tail :: "f64_ops \<Rightarrow> op list \<Rightarrow> tail_fold option" where
  "try_fold_tail F out =
     (let m = length out;
          binary = (if m \<ge> 3 then fold_binary F (out ! (m - 3)) (out ! (m - 2)) (out ! (m - 1)) else None);
          unary = (if m \<ge> 2 then fold_unary (out ! (m - 2)) (out ! (m - 1)) else None)
      in case binary of
           Some v \<Rightarrow> Some (v, 3)
         | None \<Rightarrow> (case unary of Some v \<Rightarrow> Some (v, 2) | None \<Rightarrow> None))"

definition fuse_inc :: "op \<Rightarrow> op \<Rightarrow> op option" where
  "fuse_inc x last_op =
     (case last_op of
        SetLocal s2 \<Rightarrow>
          (case x of
             BinLocalConst slot val kind \<Rightarrow>
               if kind = K_Add \<and> slot = s2 then Some (IncLocal slot val) else None
           | _ \<Rightarrow> None)
      | _ \<Rightarrow> None)"

definition fuse_bin :: "op \<Rightarrow> op \<Rightarrow> op \<Rightarrow> op option" where
  "fuse_bin x y last_op =
     (case bin_kind last_op of
        None \<Rightarrow> None
      | Some kind \<Rightarrow>
          (case x of
             GetLocal a \<Rightarrow>
               (case y of
                  GetLocal b \<Rightarrow> Some (BinLocalLocal a b kind)
                | ConstInt val \<Rightarrow> Some (BinLocalConst a val kind)
                | _ \<Rightarrow> None)
           | _ \<Rightarrow> None))"

definition try_fuse_tail :: "op list \<Rightarrow> tail_fold option" where
  "try_fuse_tail out =
     (let m = length out;
          inc = (if m \<ge> 2 then fuse_inc (out ! (m - 2)) (out ! (m - 1)) else None);
          bin = (if m \<ge> 3 then fuse_bin (out ! (m - 3)) (out ! (m - 2)) (out ! (m - 1)) else None)
      in case inc of
           Some v \<Rightarrow> Some (v, 2)
         | None \<Rightarrow> (case bin of Some v \<Rightarrow> Some (v, 3) | None \<Rightarrow> None))"

definition try_tail :: "f64_ops \<Rightarrow> op list \<Rightarrow> tail_fold option" where
  "try_tail F out = (case try_fold_tail F out of Some f \<Rightarrow> Some f | None \<Rightarrow> try_fuse_tail out)"

subsection \<open>The pass\<close>

text \<open>All absolute targets of one instruction; \<^verbatim>\<open>WaitPoll\<close> carries one per arm and an optional else.\<close>

fun targets :: "op \<Rightarrow> nat list" where
  "targets (WaitPoll m) = arm_targets m @ (case else_target m of Some t \<Rightarrow> [t] | None \<Rightarrow> [])"
| "targets oper = (case jump_target oper of Some t \<Rightarrow> [t] | None \<Rightarrow> [])"

definition is_target :: "op list \<Rightarrow> nat \<Rightarrow> bool" where
  "is_target code t \<longleftrightarrow> t \<le> length code \<and> (\<exists>oper \<in> set code. t \<in> set (targets oper))"

record opt_state =
  o_out :: "op list"
  o_lines :: "span list"
  o_src :: "nat list"
  o_map :: "nat list"

text \<open>\<^verbatim>\<open>map[lo..=hi].fill(v)\<close>\<close>

definition fill :: "nat \<Rightarrow> nat \<Rightarrow> nat \<Rightarrow> nat list \<Rightarrow> nat list" where
  "fill lo hi v xs = map (\<lambda>j. if lo \<le> j \<and> j \<le> hi then v else xs ! j) [0..<length xs]"

definition collapse_step :: "nat \<Rightarrow> op \<Rightarrow> nat \<Rightarrow> opt_state \<Rightarrow> opt_state" where
  "collapse_step i new_op window st =
     (let m = length (o_out st);
          first = m - window;
          old_lo = o_src st ! first;
          sp = o_lines st ! (m - 1)
      in \<lparr>o_out = take first (o_out st) @ [new_op],
          o_lines = take first (o_lines st) @ [sp],
          o_src = take first (o_src st) @ [old_lo],
          o_map = fill old_lo i first (o_map st)\<rparr>)"

definition window_legal :: "(nat \<Rightarrow> bool) \<Rightarrow> nat \<Rightarrow> opt_state \<Rightarrow> bool" where
  "window_legal target window st \<longleftrightarrow>
     (let m = length (o_out st); first = m - window
      in \<forall>p \<in> set [first + 1..<m]. \<not> target (o_src st ! p))"

lemma try_tail_window: "try_tail F out = Some (v, w) \<Longrightarrow> 2 \<le> w \<and> w \<le> length out"
  by (auto simp: try_tail_def try_fold_tail_def try_fuse_tail_def Let_def
      split: option.splits if_splits)

function collapse :: "f64_ops \<Rightarrow> (nat \<Rightarrow> bool) \<Rightarrow> nat \<Rightarrow> opt_state \<Rightarrow> opt_state" where
  "collapse F target i st =
     (case try_tail F (o_out st) of
        None \<Rightarrow> st
      | Some (new_op, window) \<Rightarrow>
          if window_legal target window st
          then collapse F target i (collapse_step i new_op window st) else st)"
  by pat_completeness auto
termination
  by (relation "measure (\<lambda>(F, target, i, st). length (o_out st))")
     (auto simp: collapse_step_def Let_def dest!: try_tail_window)

declare collapse.simps [simp del]

definition push_op :: "nat \<Rightarrow> op \<Rightarrow> span \<Rightarrow> opt_state \<Rightarrow> opt_state" where
  "push_op i oper sp st =
     \<lparr>o_out = o_out st @ [oper],
      o_lines = o_lines st @ [sp],
      o_src = o_src st @ [i],
      o_map = (o_map st)[i := length (o_out st)]\<rparr>"

text \<open>The body of \<^verbatim>\<open>for i in 0..n\<close>, run for the first \<open>k\<close> indices.\<close>

fun walk :: "f64_ops \<Rightarrow> op list \<Rightarrow> span list \<Rightarrow> nat \<Rightarrow> opt_state" where
  "walk F code lines 0 =
     \<lparr>o_out = [], o_lines = [], o_src = [], o_map = replicate (length code + 1) 0\<rparr>"
| "walk F code lines (Suc i) =
     collapse F (is_target code) i (push_op i (code ! i) (lines ! i) (walk F code lines i))"

text \<open>Relocation through the finished map.\<close>

fun relocate :: "nat list \<Rightarrow> op \<Rightarrow> op" where
  "relocate mp (WaitPoll m) =
     WaitPoll (m\<lparr>arm_targets := map (\<lambda>t. mp ! t) (arm_targets m),
                 else_target := map_option (\<lambda>t. mp ! t) (else_target m)\<rparr>)"
| "relocate mp oper = map_jump_target (\<lambda>t. mp ! t) oper"

definition final_map :: "f64_ops \<Rightarrow> op list \<Rightarrow> span list \<Rightarrow> nat list" where
  "final_map F code lines =
     (let st = walk F code lines (length code) in (o_map st)[length code := length (o_out st)])"

definition optimize :: "f64_ops \<Rightarrow> op list \<Rightarrow> span list \<Rightarrow> op list \<times> span list" where
  "optimize F code lines =
     (if length code = 0 then (code, lines)
      else let st = walk F code lines (length code)
           in (map (relocate (final_map F code lines)) (o_out st), o_lines st))"

end
