(* ===== verification/Simulation.thy ===== *)
theory Simulation
  imports Prelude
begin

text \<open>
  Machines that run until they stop. A step gives the next state (\<open>Inl\<close>) or the final result
  (\<open>Inr\<close>). The locale relates a source machine to a target machine whose every step is matched by
  one or more steps of the source; the two then stop with the same results.
\<close>

fun iterate :: "('s \<Rightarrow> 's + 'r) \<Rightarrow> nat \<Rightarrow> 's \<Rightarrow> 's + 'r" where
  "iterate f 0 s = Inl s"
| "iterate f (Suc k) s = (case f s of Inl s' \<Rightarrow> iterate f k s' | Inr r \<Rightarrow> Inr r)"

definition stops_with :: "('s \<Rightarrow> 's + 'r) \<Rightarrow> 's \<Rightarrow> 'r \<Rightarrow> bool" where
  "stops_with f s r \<longleftrightarrow> (\<exists>k. iterate f k s = Inr r)"

lemma iterate_add:
  "iterate f (j + k) s = (case iterate f j s of Inl s' \<Rightarrow> iterate f k s' | Inr r \<Rightarrow> Inr r)"
  by (induction j arbitrary: s) (auto split: sum.splits)

lemma iterate_mono: "iterate f j s = Inr r \<Longrightarrow> iterate f (j + k) s = Inr r"
  by (simp add: iterate_add)

lemma stops_with_unique:
  assumes "stops_with f s r" "stops_with f s r'" shows "r = r'"
proof -
  obtain j k where "iterate f j s = Inr r" "iterate f k s = Inr r'"
    using assms by (auto simp: stops_with_def)
  hence "iterate f (j + k) s = Inr r" "iterate f (k + j) s = Inr r'"
    by (simp_all only: iterate_mono)
  thus ?thesis by (simp add: add.commute)
qed

lemma iterate_one: "iterate f (Suc 0) s = f s"
  by (simp split: sum.splits)

text \<open>\<open>k\<close> and one more steps of the source answer one step of the target.\<close>

locale simulation =
  fixes src :: "'s \<Rightarrow> 's + 'r" and tgt :: "'t \<Rightarrow> 't + 'r" and R :: "'s \<Rightarrow> 't \<Rightarrow> bool"
  assumes stop: "R s t \<Longrightarrow> tgt t = Inr r \<Longrightarrow> \<exists>k. iterate src (Suc k) s = Inr r"
    and go: "R s t \<Longrightarrow> tgt t = Inl t' \<Longrightarrow> \<exists>k s'. iterate src (Suc k) s = Inl s' \<and> R s' t'"
begin

lemma target_to_source: "R s t \<Longrightarrow> iterate tgt k t = Inr r \<Longrightarrow> stops_with src s r"
proof (induction k arbitrary: s t)
  case 0
  thus ?case by simp
next
  case (Suc k)
  show ?case
  proof (cases "tgt t")
    case (Inr r')
    hence "r' = r" using Suc.prems(2) by simp
    thus ?thesis using stop [OF Suc.prems(1) Inr] unfolding stops_with_def by blast
  next
    case (Inl t')
    then obtain j s' where j: "iterate src (Suc j) s = Inl s'" "R s' t'"
      using go [of s t t'] Suc.prems(1) by blast
    have "stops_with src s' r" using Suc.IH [OF j(2)] Suc.prems(2) Inl by simp
    then obtain k' where "iterate src k' s' = Inr r" by (auto simp: stops_with_def)
    hence "iterate src (Suc j + k') s = Inr r" using j(1) by (simp only: iterate_add) simp
    thus ?thesis unfolding stops_with_def by blast
  qed
qed

lemma source_to_target: "R s t \<Longrightarrow> iterate src k s = Inr r \<Longrightarrow> stops_with tgt t r"
proof (induction k arbitrary: s t rule: less_induct)
  case (less k)
  show ?case
  proof (cases "tgt t")
    case (Inr r')
    then obtain j where "iterate src (Suc j) s = Inr r'" using stop less.prems(1) by blast
    hence "r' = r" using less.prems(2) stops_with_unique unfolding stops_with_def by metis
    moreover have "iterate tgt (Suc 0) t = Inr r'" using Inr by simp
    ultimately show ?thesis unfolding stops_with_def by blast
  next
    case (Inl t')
    then obtain j s' where j: "iterate src (Suc j) s = Inl s'" "R s' t'"
      using go [of s t t'] less.prems(1) by blast
    have lt: "Suc j < k"
    proof (rule ccontr)
      assume "\<not> Suc j < k"
      then obtain d where "Suc j = k + d" using le_Suc_ex not_less by blast
      thus False using j(1) less.prems(2) by (simp only: iterate_mono) simp
    qed
    then obtain d where d: "k = Suc j + d" using le_Suc_ex less_imp_le_nat by blast
    hence "iterate src d s' = Inr r" using less.prems(2) j(1) by (simp only: iterate_add) simp
    hence "stops_with tgt t' r" using less.IH [of d s' t'] j(2) d by simp
    then obtain i where "iterate tgt i t' = Inr r" by (auto simp: stops_with_def)
    hence "iterate tgt (Suc i) t = Inr r" using Inl by simp
    thus ?thesis unfolding stops_with_def by blast
  qed
qed

lemma same_results: "R s t \<Longrightarrow> stops_with src s r \<longleftrightarrow> stops_with tgt t r"
  using target_to_source source_to_target unfolding stops_with_def by blast

end

end
