(* ===== verification/VmCore.thy ===== *)
theory VmCore
  imports Bytecode Simulation
begin

text \<open>
  One call frame of the virtual machine: the arms of \<^verbatim>\<open>Vm::step\<close> (\<^verbatim>\<open>src/src/vm/step.rs\<close>) and of the
  dispatch loop \<^verbatim>\<open>run_until\<close> (\<^verbatim>\<open>src/src/vm/frames.rs\<close>) for constants, locals, arithmetic,
  superinstructions, jumps and handlers, with the numeric paths of \<^verbatim>\<open>src/src/vm/arith.rs\<close> and
  \<^verbatim>\<open>src/src/vm/equality.rs\<close>.

  A frame's stack window \<^verbatim>\<open>stack[cur_base..]\<close> is split at \<^verbatim>\<open>n_slots\<close> into the local slots and the
  operands above them, top first. A heap-boxed int or float is the constructor that carries its
  contents. The operations that need the object heap, a callee or the scheduler are the fields of
  the record \<open>env\<close>: they read and write the frame and a component \<open>fr_rest\<close> for everything else.
  Source locations are of an arbitrary type, so that one model serves runs with spans and runs
  with the spans erased.
\<close>

datatype vm_value = VInt i64 | VBig i64 | VFloat f64 | VBool bool | VNil | VObj u32

record 'l runtime_error =
  e_message :: string
  e_span :: 'l
  e_is_assert :: bool
  e_is_over_memory :: bool
  e_is_timed_out :: bool
  e_is_deadlock :: bool
  e_is_panic :: bool

definition plain_err :: "string \<Rightarrow> 'l \<Rightarrow> 'l runtime_error" where
  "plain_err msg sp =
     \<lparr>e_message = msg, e_span = sp, e_is_assert = False, e_is_over_memory = False,
      e_is_timed_out = False, e_is_deadlock = False, e_is_panic = False\<rparr>"

record 'r vframe =
  fr_locals :: "vm_value list"
  fr_stack :: "vm_value list"
  fr_argc :: nat
  fr_rest :: 'r

text \<open>
  What one instruction does: go on, raise a fault, run again (a parked instruction is rewound),
  leave for the frame's own \<^verbatim>\<open>recover:\<close> with a value (the \<^verbatim>\<open>?\<close> operator), return, or panic in the
  implementation (an index out of range).
\<close>

datatype ('l, 'r) outcome =
    Next "'r vframe"
  | Fault "'l runtime_error" "'r vframe"
  | Again "'r vframe"
  | Escape vm_value "'r vframe"
  | Done vm_value "'r vframe"
  | Panic

datatype ordering = OLess | OEqual | OGreater

datatype 'r arm_result = ArmMatched "'r vframe" | ArmNext | ArmFault string

datatype ('l, 'r) wait_result =
    WaitArm nat "'r vframe"
  | WaitElse "'r vframe"
  | WaitFault "'l runtime_error" "'r vframe"
  | WaitPark "'r vframe"

record ('l, 'r) env =
  env_f64 :: f64_ops
  env_f64_of_int :: "i64 \<Rightarrow> f64"
  env_cmp_int_f64 :: "i64 \<Rightarrow> f64 \<Rightarrow> ordering option"
  env_cmp_f64 :: "f64 \<Rightarrow> f64 \<Rightarrow> ordering option"
  env_type_name :: "'r \<Rightarrow> vm_value \<Rightarrow> string"
  env_obj_arith :: "binary_op \<Rightarrow> vm_value \<Rightarrow> vm_value \<Rightarrow> 'l \<Rightarrow> 'r \<Rightarrow> (vm_value, 'l runtime_error) result \<times> 'r"
  env_obj_compare :: "binary_op \<Rightarrow> vm_value \<Rightarrow> vm_value \<Rightarrow> 'l \<Rightarrow> 'r \<Rightarrow> (vm_value, 'l runtime_error) result \<times> 'r"
  env_obj_neg :: "vm_value \<Rightarrow> 'l \<Rightarrow> 'r \<Rightarrow> (vm_value, 'l runtime_error) result \<times> 'r"
  env_plain :: "plain_op \<Rightarrow> 'l \<Rightarrow> 'r vframe \<Rightarrow> ('l, 'r) outcome"
  env_match_arm :: "arm_test \<Rightarrow> 'l \<Rightarrow> 'r vframe \<Rightarrow> 'r arm_result option"
  env_wait :: "nat \<Rightarrow> bool list \<Rightarrow> bool \<Rightarrow> 'l \<Rightarrow> 'r vframe \<Rightarrow> ('l, 'r) wait_result"
  env_checkpoint :: "'l \<Rightarrow> 'r \<Rightarrow> 'l runtime_error option \<times> 'r"
  env_halting :: "'r \<Rightarrow> bool"
  env_caught :: "'l runtime_error \<Rightarrow> 'r \<Rightarrow> vm_value \<times> 'r"

subsection \<open>Numbers\<close>

definition int_min_inline :: i64 where
  "int_min_inline = - push_bit 62 1"

definition int_max_inline :: i64 where
  "int_max_inline = push_bit 62 1 - 1"

definition make_int :: "i64 \<Rightarrow> vm_value" where
  "make_int n = (if int_min_inline \<le>s n \<and> n \<le>s int_max_inline then VInt n else VBig n)"

fun as_int_inline :: "vm_value \<Rightarrow> i64 option" where
  "as_int_inline (VInt n) = Some n"
| "as_int_inline _ = None"

fun int_val :: "vm_value \<Rightarrow> i64 option" where
  "int_val (VInt n) = Some n"
| "int_val (VBig n) = Some n"
| "int_val _ = None"

fun as_bool :: "vm_value \<Rightarrow> bool option" where
  "as_bool (VBool b) = Some b"
| "as_bool _ = None"

text \<open>\<^verbatim>\<open>as_f64\<close>; \<open>None\<close> exactly where \<^verbatim>\<open>is_numeric\<close> fails.\<close>

fun as_f64 :: "('l, 'r) env \<Rightarrow> vm_value \<Rightarrow> f64 option" where
  "as_f64 E (VFloat x) = Some x"
| "as_f64 E (VInt n) = Some (env_f64_of_int E n)"
| "as_f64 E (VBig n) = Some (env_f64_of_int E n)"
| "as_f64 E _ = None"

text \<open>
  \<^verbatim>\<open>int_op\<close>: the value, or the fault as a run-time error at the location; \<open>None\<close> is a panic
  (\<^verbatim>\<open>unreachable!\<close> for an operator that is not int arithmetic).
\<close>

definition int_op :: "binary_op \<Rightarrow> i64 \<Rightarrow> i64 \<Rightarrow> 'l \<Rightarrow> (i64, 'l runtime_error) result option" where
  "int_op oper a b sp =
     (case int_binop oper a b of
        Some (Inr n) \<Rightarrow> Some (Ok n)
      | Some (Inl f) \<Rightarrow> map_option (\<lambda>m. Err (plain_err m sp)) (int_fault_message f)
      | None \<Rightarrow> None)"

fun float_arith :: "f64_ops \<Rightarrow> binary_op \<Rightarrow> f64 \<Rightarrow> f64 \<Rightarrow> f64 option" where
  "float_arith F B_Add x y = Some (f64_add F x y)"
| "float_arith F B_Sub x y = Some (f64_sub F x y)"
| "float_arith F B_Mul x y = Some (f64_mul F x y)"
| "float_arith F B_Div x y = Some (f64_div F x y)"
| "float_arith F B_Mod x y = Some (f64_rem F x y)"
| "float_arith F _ x y = None"

definition push :: "vm_value \<Rightarrow> 'r vframe \<Rightarrow> 'r vframe" where
  "push v fr = fr\<lparr>fr_stack := v # fr_stack fr\<rparr>"

text \<open>A value or an error computed for the frame \<open>fr\<close>, whose operands are popped.\<close>

definition push_int :: "(i64, 'l runtime_error) result option \<Rightarrow> 'r vframe \<Rightarrow> ('l, 'r) outcome" where
  "push_int x fr =
     (case x of
        Some (Inr n) \<Rightarrow> Next (push (make_int n) fr)
      | Some (Inl e) \<Rightarrow> Fault e fr
      | None \<Rightarrow> Panic)"

definition push_result :: "(vm_value, 'l runtime_error) result \<times> 'r \<Rightarrow> 'r vframe \<Rightarrow> ('l, 'r) outcome" where
  "push_result x fr =
     (case x of
        (Inr v, r) \<Rightarrow> Next (push v (fr\<lparr>fr_rest := r\<rparr>))
      | (Inl e, r) \<Rightarrow> Fault e (fr\<lparr>fr_rest := r\<rparr>))"

definition arith :: "('l, 'r) env \<Rightarrow> binary_op \<Rightarrow> 'l \<Rightarrow> 'r vframe \<Rightarrow> ('l, 'r) outcome" where
  "arith E oper sp fr =
     (case fr_stack fr of
        r # l # s \<Rightarrow>
          (let fr' = fr\<lparr>fr_stack := s\<rparr> in
           case (int_val l, int_val r) of
             (Some a, Some b) \<Rightarrow> push_int (int_op oper a b sp) fr'
           | _ \<Rightarrow>
               (case (as_f64 E l, as_f64 E r) of
                  (Some x, Some y) \<Rightarrow>
                    (case float_arith (env_f64 E) oper x y of
                       Some f \<Rightarrow> Next (push (VFloat f) fr')
                     | None \<Rightarrow> Panic)
                | _ \<Rightarrow> push_result (env_obj_arith E oper l r sp (fr_rest fr)) fr'))
      | _ \<Rightarrow> Panic)"

definition cmp_i64 :: "i64 \<Rightarrow> i64 \<Rightarrow> ordering" where
  "cmp_i64 a b = (if a <s b then OLess else if a = b then OEqual else OGreater)"

fun reverse :: "ordering \<Rightarrow> ordering" where
  "reverse OLess = OGreater"
| "reverse OEqual = OEqual"
| "reverse OGreater = OLess"

definition cmp_bool :: "bool \<Rightarrow> bool \<Rightarrow> ordering" where
  "cmp_bool a b = (if a = b then OEqual else if b then OLess else OGreater)"

text \<open>
  The numeric and bool arms of \<^verbatim>\<open>compare\<close>: the outer option is \<open>None\<close> for operands the object arms
  answer, the inner one for an unordered pair (a NaN).
\<close>

definition compare :: "('l, 'r) env \<Rightarrow> vm_value \<Rightarrow> vm_value \<Rightarrow> ordering option option" where
  "compare E l r =
     (case (int_val l, int_val r) of
        (Some a, Some b) \<Rightarrow> Some (Some (cmp_i64 a b))
      | (Some a, None) \<Rightarrow>
          (case r of VFloat y \<Rightarrow> Some (env_cmp_int_f64 E a y) | _ \<Rightarrow> None)
      | (None, Some b) \<Rightarrow>
          (case l of VFloat x \<Rightarrow> Some (map_option reverse (env_cmp_int_f64 E b x)) | _ \<Rightarrow> None)
      | (None, None) \<Rightarrow>
          (case l of
             VFloat x \<Rightarrow> (case r of VFloat y \<Rightarrow> Some (env_cmp_f64 E x y) | _ \<Rightarrow> None)
           | VBool a \<Rightarrow> (case r of VBool b \<Rightarrow> Some (Some (cmp_bool a b)) | _ \<Rightarrow> None)
           | _ \<Rightarrow> None))"

fun ord_test :: "binary_op \<Rightarrow> ordering \<Rightarrow> bool" where
  "ord_test B_Lt x \<longleftrightarrow> x = OLess"
| "ord_test B_LtEq x \<longleftrightarrow> x \<noteq> OGreater"
| "ord_test B_Gt x \<longleftrightarrow> x = OGreater"
| "ord_test B_GtEq x \<longleftrightarrow> x \<noteq> OLess"
| "ord_test _ x \<longleftrightarrow> False"

definition compare_op :: "('l, 'r) env \<Rightarrow> binary_op \<Rightarrow> 'l \<Rightarrow> 'r vframe \<Rightarrow> ('l, 'r) outcome" where
  "compare_op E oper sp fr =
     (case fr_stack fr of
        r # l # s \<Rightarrow>
          (let fr' = fr\<lparr>fr_stack := s\<rparr> in
           case compare E l r of
             Some (Some ord) \<Rightarrow> Next (push (VBool (ord_test oper ord)) fr')
           | Some None \<Rightarrow> Next (push (VBool False) fr')
           | None \<Rightarrow> push_result (env_obj_compare E oper l r sp (fr_rest fr)) fr')
      | _ \<Rightarrow> Panic)"

definition neg_value :: "('l, 'r) env \<Rightarrow> vm_value \<Rightarrow> 'l \<Rightarrow> 'r \<Rightarrow> ((vm_value, 'l runtime_error) result \<times> 'r) option" where
  "neg_value E v sp r =
     (case int_val v of
        Some n \<Rightarrow>
          (case int_neg n of
             Inr m \<Rightarrow> Some (Ok (make_int m), r)
           | Inl f \<Rightarrow> map_option (\<lambda>m. (Err (plain_err m sp), r)) (int_fault_message f))
      | None \<Rightarrow>
          (case v of VFloat x \<Rightarrow> Some (Ok (VFloat (f64_neg x)), r) | _ \<Rightarrow> Some (env_obj_neg E v sp r)))"

subsection \<open>The fused instructions and the quickened ones\<close>

fun kind_op :: "bin_kind \<Rightarrow> binary_op" where
  "kind_op K_Add = B_Add"
| "kind_op K_Sub = B_Sub"
| "kind_op K_Mul = B_Mul"
| "kind_op K_Div = B_Div"
| "kind_op K_Mod = B_Mod"
| "kind_op K_Lt = B_Lt"
| "kind_op K_LtEq = B_LtEq"
| "kind_op K_Gt = B_Gt"
| "kind_op K_GtEq = B_GtEq"

fun is_compare :: "bin_kind \<Rightarrow> bool" where
  "is_compare K_Lt = True"
| "is_compare K_LtEq = True"
| "is_compare K_Gt = True"
| "is_compare K_GtEq = True"
| "is_compare _ = False"

definition run_bin_kind :: "('l, 'r) env \<Rightarrow> bin_kind \<Rightarrow> 'l \<Rightarrow> 'r vframe \<Rightarrow> ('l, 'r) outcome" where
  "run_bin_kind E kind sp fr =
     (if is_compare kind then compare_op E (kind_op kind) sp fr else arith E (kind_op kind) sp fr)"

fun int_compare :: "bin_kind \<Rightarrow> i64 \<Rightarrow> i64 \<Rightarrow> bool" where
  "int_compare K_Lt x y = (x <s y)"
| "int_compare K_LtEq x y = (x \<le>s y)"
| "int_compare K_Gt x y = (y <s x)"
| "int_compare K_GtEq x y = (y \<le>s x)"
| "int_compare _ x y = False"

text \<open>\<^verbatim>\<open>fast_int_bin\<close>, with its result pushed on the frame \<open>fr\<close>.\<close>

definition fast_int_bin :: "i64 \<Rightarrow> i64 \<Rightarrow> bin_kind \<Rightarrow> 'l \<Rightarrow> 'r vframe \<Rightarrow> ('l, 'r) outcome" where
  "fast_int_bin x y kind sp fr =
     (if is_compare kind then Next (push (VBool (int_compare kind x y)) fr)
      else push_int (int_op (kind_op kind) x y sp) fr)"

text \<open>A local slot; \<open>None\<close> is the index panic.\<close>

definition local :: "'r vframe \<Rightarrow> nat \<Rightarrow> vm_value option" where
  "local fr slot = (if slot < length (fr_locals fr) then Some (fr_locals fr ! slot) else None)"

definition set_local :: "nat \<Rightarrow> vm_value \<Rightarrow> 'r vframe \<Rightarrow> 'r vframe" where
  "set_local slot v fr = fr\<lparr>fr_locals := (fr_locals fr)[slot := v]\<rparr>"

definition op_bin_local_local :: "('l, 'r) env \<Rightarrow> nat \<Rightarrow> nat \<Rightarrow> bin_kind \<Rightarrow> 'l \<Rightarrow> 'r vframe \<Rightarrow> ('l, 'r) outcome" where
  "op_bin_local_local E a b kind sp fr =
     (case (local fr a, local fr b) of
        (Some l, Some r) \<Rightarrow>
          (case (as_int_inline l, as_int_inline r) of
             (Some x, Some y) \<Rightarrow> fast_int_bin x y kind sp fr
           | _ \<Rightarrow> run_bin_kind E kind sp (push r (push l fr)))
      | _ \<Rightarrow> Panic)"

definition op_bin_local_const :: "('l, 'r) env \<Rightarrow> nat \<Rightarrow> i64 \<Rightarrow> bin_kind \<Rightarrow> 'l \<Rightarrow> 'r vframe \<Rightarrow> ('l, 'r) outcome" where
  "op_bin_local_const E slot val kind sp fr =
     (case local fr slot of
        Some l \<Rightarrow>
          (case as_int_inline l of
             Some x \<Rightarrow> fast_int_bin x val kind sp fr
           | None \<Rightarrow> run_bin_kind E kind sp (push (make_int val) (push l fr)))
      | None \<Rightarrow> Panic)"

definition op_inc_local :: "('l, 'r) env \<Rightarrow> nat \<Rightarrow> i64 \<Rightarrow> 'l \<Rightarrow> 'r vframe \<Rightarrow> ('l, 'r) outcome" where
  "op_inc_local E slot delta sp fr =
     (case local fr slot of
        None \<Rightarrow> Panic
      | Some cur \<Rightarrow>
          (case as_int_inline cur of
             Some x \<Rightarrow>
               (case int_op B_Add x delta sp of
                  Some (Inr v) \<Rightarrow> Next (set_local slot (make_int v) fr)
                | Some (Inl e) \<Rightarrow> Fault e fr
                | None \<Rightarrow> Panic)
           | None \<Rightarrow>
               (case cur of
                  VFloat f \<Rightarrow>
                    Next (set_local slot (VFloat (f64_add (env_f64 E) f (env_f64_of_int E delta))) fr)
                | _ \<Rightarrow>
                    (case arith E B_Add sp (push (make_int delta) (push cur fr)) of
                       Next fr' \<Rightarrow>
                         (case fr_stack fr' of
                            v # s \<Rightarrow> Next (set_local slot v (fr'\<lparr>fr_stack := s\<rparr>))
                          | [] \<Rightarrow> Panic)
                     | other \<Rightarrow> other))))"

text \<open>The quickening cell of one site.\<close>

datatype q_cell = Q_COLD | Q_INT | Q_GENERIC

fun both_inline :: "vm_value list \<Rightarrow> (i64 \<times> i64) option" where
  "both_inline (VInt y # VInt x # s) = Some (x, y)"
| "both_inline _ = None"

definition q_arith :: "('l, 'r) env \<Rightarrow> q_cell \<Rightarrow> bin_kind \<Rightarrow> 'l \<Rightarrow> 'r vframe \<Rightarrow> q_cell \<times> ('l, 'r) outcome" where
  "q_arith E cell kind sp fr =
     (if length (fr_stack fr) < 2 then (cell, Panic)
      else case cell of
        Q_INT \<Rightarrow>
          (case both_inline (fr_stack fr) of
             Some (x, y) \<Rightarrow>
               (Q_INT,
                case fast_int_bin x y kind sp (fr\<lparr>fr_stack := drop 2 (fr_stack fr)\<rparr>) of
                  Fault e fr' \<Rightarrow> Fault e fr
                | other \<Rightarrow> other)
           | None \<Rightarrow> (Q_GENERIC, run_bin_kind E kind sp fr))
      | Q_GENERIC \<Rightarrow> (Q_GENERIC, run_bin_kind E kind sp fr)
      | Q_COLD \<Rightarrow>
          (if both_inline (fr_stack fr) \<noteq> None then Q_INT else Q_GENERIC, run_bin_kind E kind sp fr))"

subsection \<open>One instruction\<close>

text \<open>The arms of \<^verbatim>\<open>step\<close> that neither jump nor touch the handlers; \<open>None\<close> for those that do.\<close>

fun exec_op :: "('l, 'r) env \<Rightarrow> op \<Rightarrow> 'l \<Rightarrow> 'r vframe \<Rightarrow> ('l, 'r) outcome option" where
  "exec_op E (ConstInt n) sp fr = Some (Next (push (make_int n) fr))"
| "exec_op E (ConstFloat x) sp fr = Some (Next (push (VFloat x) fr))"
| "exec_op E OpTrue sp fr = Some (Next (push (VBool True) fr))"
| "exec_op E OpFalse sp fr = Some (Next (push (VBool False) fr))"
| "exec_op E OpNil sp fr = Some (Next (push VNil fr))"
| "exec_op E Pop sp fr =
     Some (case fr_stack fr of v # s \<Rightarrow> Next (fr\<lparr>fr_stack := s\<rparr>) | [] \<Rightarrow> Panic)"
| "exec_op E (GetLocal slot) sp fr =
     Some (case local fr slot of Some v \<Rightarrow> Next (push v fr) | None \<Rightarrow> Panic)"
| "exec_op E (SetLocal slot) sp fr =
     Some (case fr_stack fr of
             v # s \<Rightarrow>
               if slot < length (fr_locals fr) then Next (set_local slot v (fr\<lparr>fr_stack := s\<rparr>)) else Panic
           | [] \<Rightarrow> Panic)"
| "exec_op E Add sp fr = Some (run_bin_kind E K_Add sp fr)"
| "exec_op E Sub sp fr = Some (run_bin_kind E K_Sub sp fr)"
| "exec_op E Mul sp fr = Some (run_bin_kind E K_Mul sp fr)"
| "exec_op E Div sp fr = Some (run_bin_kind E K_Div sp fr)"
| "exec_op E Mod sp fr = Some (run_bin_kind E K_Mod sp fr)"
| "exec_op E Lt sp fr = Some (run_bin_kind E K_Lt sp fr)"
| "exec_op E LtEq sp fr = Some (run_bin_kind E K_LtEq sp fr)"
| "exec_op E Gt sp fr = Some (run_bin_kind E K_Gt sp fr)"
| "exec_op E GtEq sp fr = Some (run_bin_kind E K_GtEq sp fr)"
| "exec_op E Neg sp fr =
     Some (case fr_stack fr of
             v # s \<Rightarrow>
               (case neg_value E v sp (fr_rest fr) of
                  Some x \<Rightarrow> push_result x (fr\<lparr>fr_stack := s\<rparr>)
                | None \<Rightarrow> Panic)
           | [] \<Rightarrow> Panic)"
| "exec_op E OpNot sp fr =
     Some (case fr_stack fr of
             v # s \<Rightarrow>
               (case as_bool v of
                  Some b \<Rightarrow> Next (push (VBool (\<not> b)) (fr\<lparr>fr_stack := s\<rparr>))
                | None \<Rightarrow>
                    Fault (plain_err (''cannot apply Not to '' @ env_type_name E (fr_rest fr) v) sp)
                          (fr\<lparr>fr_stack := s\<rparr>))
           | [] \<Rightarrow> Panic)"
| "exec_op E (BinLocalLocal a b kind) sp fr = Some (op_bin_local_local E a b kind sp fr)"
| "exec_op E (BinLocalConst slot val kind) sp fr = Some (op_bin_local_const E slot val kind sp fr)"
| "exec_op E (IncLocal slot delta) sp fr = Some (op_inc_local E slot delta sp fr)"
| "exec_op E (Plain p) sp fr = Some (env_plain E p sp fr)"
| "exec_op E _ sp fr = None"

subsection \<open>The dispatch loop\<close>

record 'r config =
  c_ip :: nat
  c_handlers :: "(nat \<times> nat) list"
  c_frame :: "'r vframe"

datatype ('l, 'r) stop =
    Returned vm_value 'r
  | Raised "'l runtime_error" 'r
  | Panicked

type_synonym ('l, 'r) vm_next = "'r config + ('l, 'r) stop"

abbreviation (input) Go :: "nat \<Rightarrow> (nat \<times> nat) list \<Rightarrow> 'r vframe \<Rightarrow> ('l, 'r) vm_next" where
  "Go ip hs fr \<equiv> Inl \<lparr>c_ip = ip, c_handlers = hs, c_frame = fr\<rparr>"

text \<open>\<^verbatim>\<open>stack.truncate(len)\<close> of a stack whose top is first.\<close>

definition truncate_to :: "nat \<Rightarrow> vm_value list \<Rightarrow> vm_value list" where
  "truncate_to n s = drop (length s - n) s"

definition enter_handler :: "vm_value \<Rightarrow> nat \<times> nat \<Rightarrow> (nat \<times> nat) list \<Rightarrow> 'r vframe \<Rightarrow> ('l, 'r) vm_next" where
  "enter_handler v h hs fr =
     Go (snd h) hs (fr\<lparr>fr_stack := v # truncate_to (fst h) (fr_stack fr)\<rparr>)"

text \<open>
  \<^verbatim>\<open>on_step_fault\<close> and \<^verbatim>\<open>finish_fault\<close>: a deadlock verdict, an over-memory or timed-out fault and a
  cut in flight pass every \<^verbatim>\<open>recover:\<close>; anything else is caught by the frame's innermost one.
\<close>

definition catchable :: "('l, 'r) env \<Rightarrow> 'l runtime_error \<Rightarrow> 'r \<Rightarrow> bool" where
  "catchable E e r \<longleftrightarrow>
     \<not> e_is_deadlock e \<and> \<not> e_is_over_memory e \<and> \<not> e_is_timed_out e \<and> \<not> env_halting E r"

definition on_step_fault :: "('l, 'r) env \<Rightarrow> 'l runtime_error \<Rightarrow> (nat \<times> nat) list \<Rightarrow> 'r vframe \<Rightarrow> ('l, 'r) vm_next" where
  "on_step_fault E e hs fr =
     (case hs of
        h # hs' \<Rightarrow>
          if catchable E e (fr_rest fr)
          then case env_caught E e (fr_rest fr) of (v, r) \<Rightarrow> enter_handler v h hs' (fr\<lparr>fr_rest := r\<rparr>)
          else Inr (Raised e (fr_rest fr))
      | [] \<Rightarrow> Inr (Raised e (fr_rest fr)))"

definition escape :: "vm_value \<Rightarrow> (nat \<times> nat) list \<Rightarrow> 'r vframe \<Rightarrow> ('l, 'r) vm_next" where
  "escape v hs fr =
     (case hs of h # hs' \<Rightarrow> enter_handler v h hs' fr | [] \<Rightarrow> Inr (Returned v (fr_rest fr)))"

text \<open>What the loop does with the outcome of the instruction at \<open>ip\<close>.\<close>

definition settle :: "('l, 'r) env \<Rightarrow> nat \<Rightarrow> (nat \<times> nat) list \<Rightarrow> ('l, 'r) outcome \<Rightarrow> ('l, 'r) vm_next" where
  "settle E ip hs x =
     (case x of
        Next fr \<Rightarrow> Go (ip + 1) hs fr
      | Fault e fr \<Rightarrow> on_step_fault E e hs fr
      | Again fr \<Rightarrow> Go ip hs fr
      | Escape v fr \<Rightarrow> escape v hs fr
      | Done v fr \<Rightarrow> Inr (Returned v (fr_rest fr))
      | Panic \<Rightarrow> Inr Panicked)"

definition jump_checked :: "('l, 'r) env \<Rightarrow> nat \<Rightarrow> nat \<Rightarrow> 'l \<Rightarrow> (nat \<times> nat) list \<Rightarrow> 'r vframe \<Rightarrow> ('l, 'r) vm_next" where
  "jump_checked E target ip sp hs fr =
     (if target < ip + 1
      then case env_checkpoint E sp (fr_rest fr) of
             (Some e, r) \<Rightarrow> on_step_fault E e hs (fr\<lparr>fr_rest := r\<rparr>)
           | (None, r) \<Rightarrow> Go target hs (fr\<lparr>fr_rest := r\<rparr>)
      else Go target hs fr)"

definition jump_if :: "bool \<Rightarrow> nat \<Rightarrow> nat \<Rightarrow> (nat \<times> nat) list \<Rightarrow> 'r vframe \<Rightarrow> ('l, 'r) vm_next" where
  "jump_if b target ip hs fr = Go (if b then target else ip + 1) hs fr"

definition op_match_arm :: "('l, 'r) env \<Rightarrow> arm_test \<Rightarrow> nat \<Rightarrow> nat \<Rightarrow> 'l \<Rightarrow> (nat \<times> nat) list \<Rightarrow> 'r vframe \<Rightarrow> ('l, 'r) vm_next" where
  "op_match_arm E a target ip sp hs fr =
     (case env_match_arm E a sp fr of
        None \<Rightarrow> Inr Panicked
      | Some (ArmMatched fr') \<Rightarrow> Go (ip + 1) hs fr'
      | Some ArmNext \<Rightarrow> Go target hs fr
      | Some (ArmFault m) \<Rightarrow> on_step_fault E (plain_err m sp) hs fr)"

definition op_wait_poll :: "('l, 'r) env \<Rightarrow> wait_meta \<Rightarrow> nat \<Rightarrow> 'l \<Rightarrow> (nat \<times> nat) list \<Rightarrow> 'r vframe \<Rightarrow> ('l, 'r) vm_next" where
  "op_wait_poll E m ip sp hs fr =
     (case env_wait E (wm_n m) (is_send m) (else_target m \<noteq> None) sp fr of
        WaitArm i fr' \<Rightarrow>
          if i < length (arm_targets m) then Go (arm_targets m ! i) hs fr' else Inr Panicked
      | WaitElse fr' \<Rightarrow>
          (case else_target m of Some t \<Rightarrow> Go t hs fr' | None \<Rightarrow> Inr Panicked)
      | WaitFault e fr' \<Rightarrow> on_step_fault E e hs fr'
      | WaitPark fr' \<Rightarrow> Go ip hs fr')"

fun exec_control :: "('l, 'r) env \<Rightarrow> op \<Rightarrow> nat \<Rightarrow> 'l \<Rightarrow> (nat \<times> nat) list \<Rightarrow> 'r vframe \<Rightarrow> ('l, 'r) vm_next" where
  "exec_control E (Jump t) ip sp hs fr = jump_checked E t ip sp hs fr"
| "exec_control E (JumpIfFalse t) ip sp hs fr =
     (case fr_stack fr of
        v # s \<Rightarrow> jump_if (as_bool v = Some False) t ip hs (fr\<lparr>fr_stack := s\<rparr>)
      | [] \<Rightarrow> Inr Panicked)"
| "exec_control E (JumpIfFalseKeep t) ip sp hs fr =
     (case fr_stack fr of
        v # s \<Rightarrow> jump_if (as_bool v = Some False) t ip hs fr | [] \<Rightarrow> Inr Panicked)"
| "exec_control E (JumpIfTrueKeep t) ip sp hs fr =
     (case fr_stack fr of
        v # s \<Rightarrow> jump_if (as_bool v = Some True) t ip hs fr | [] \<Rightarrow> Inr Panicked)"
| "exec_control E (PushHandler t) ip sp hs fr = Go (ip + 1) ((length (fr_stack fr), t) # hs) fr"
| "exec_control E PopHandler ip sp hs fr = Go (ip + 1) (drop 1 hs) fr"
| "exec_control E (JumpIfProvided slot t) ip sp hs fr = jump_if (unat slot < fr_argc fr) t ip hs fr"
| "exec_control E (MatchArm a t) ip sp hs fr = op_match_arm E a t ip sp hs fr"
| "exec_control E (WaitPoll m) ip sp hs fr = op_wait_poll E m ip sp hs fr"
| "exec_control E _ ip sp hs fr = Inr Panicked"

definition step :: "('l, 'r) env \<Rightarrow> op \<Rightarrow> nat \<Rightarrow> 'l \<Rightarrow> (nat \<times> nat) list \<Rightarrow> 'r vframe \<Rightarrow> ('l, 'r) vm_next" where
  "step E oper ip sp hs fr =
     (case exec_op E oper sp fr of
        Some x \<Rightarrow> settle E ip hs x
      | None \<Rightarrow> exec_control E oper ip sp hs fr)"

text \<open>One iteration of \<^verbatim>\<open>run_until\<close>; an \<^verbatim>\<open>ip\<close> past the code is the index panic.\<close>

definition dispatch :: "('l, 'r) env \<Rightarrow> op list \<Rightarrow> 'l list \<Rightarrow> 'r config \<Rightarrow> ('l, 'r) vm_next" where
  "dispatch E code lines c =
     (if c_ip c < length code \<and> c_ip c < length lines
      then step E (code ! c_ip c) (c_ip c) (lines ! c_ip c) (c_handlers c) (c_frame c)
      else Inr Panicked)"

text \<open>\<^verbatim>\<open>run_until\<close> for at most \<open>k\<close> instructions: still running, or how the frame stopped.\<close>

fun run_until :: "('l, 'r) env \<Rightarrow> op list \<Rightarrow> 'l list \<Rightarrow> nat \<Rightarrow> 'r config \<Rightarrow> ('l, 'r) vm_next" where
  "run_until E code lines 0 c = Inl c"
| "run_until E code lines (Suc k) c =
     (case dispatch E code lines c of
        Inl c' \<Rightarrow> run_until E code lines k c'
      | Inr r \<Rightarrow> Inr r)"

definition runs_to :: "('l, 'r) env \<Rightarrow> op list \<Rightarrow> 'l list \<Rightarrow> 'r config \<Rightarrow> ('l, 'r) stop \<Rightarrow> bool" where
  "runs_to E code lines c r \<longleftrightarrow> (\<exists>k. run_until E code lines k c = Inr r)"

text \<open>An environment without objects: \<^verbatim>\<open>Return\<close> pops the result, nothing else runs.\<close>

definition demo_env :: "('l, unit) env" where
  "demo_env = \<lparr>env_f64 = first_f64_ops, env_f64_of_int = id, env_cmp_int_f64 = (\<lambda>_ _. None),
     env_cmp_f64 = (\<lambda>_ _. None), env_type_name = (\<lambda>_ _. ''object''),
     env_obj_arith = (\<lambda>oper l r sp st. (Err (plain_err ''object'' sp), st)),
     env_obj_compare = (\<lambda>oper l r sp st. (Err (plain_err ''object'' sp), st)),
     env_obj_neg = (\<lambda>v sp st. (Err (plain_err ''object'' sp), st)),
     env_plain = (\<lambda>p sp fr. case fr_stack fr of v # s \<Rightarrow> Done v (fr\<lparr>fr_stack := s\<rparr>) | [] \<Rightarrow> Panic),
     env_match_arm = (\<lambda>a sp fr. Some ArmNext), env_wait = (\<lambda>n s b sp fr. WaitPark fr),
     env_checkpoint = (\<lambda>sp r. (None, r)), env_halting = (\<lambda>r. False),
     env_caught = (\<lambda>e r. (VNil, r))\<rparr>"

subsection \<open>Lemmas\<close>

named_theorems vm_simps

lemma run_until_iterate: "run_until E code lines k c = iterate (dispatch E code lines) k c"
  by (induction k arbitrary: c) (auto split: sum.splits)

lemma runs_to_stops: "runs_to E code lines c r \<longleftrightarrow> stops_with (dispatch E code lines) c r"
  by (simp add: runs_to_def stops_with_def run_until_iterate)

lemma int_val_make_int [simp]: "int_val (make_int n) = Some n"
  by (simp add: make_int_def)

lemma make_int_inline [simp]: "as_int_inline (make_int n) = Some n \<or> as_int_inline (make_int n) = None"
  by (simp add: make_int_def)

lemma as_int_inline_iff: "as_int_inline v = Some x \<longleftrightarrow> v = VInt x"
  by (cases v) auto

lemma push_simps [simp]:
  "fr_stack (push v fr) = v # fr_stack fr"
  "fr_locals (push v fr) = fr_locals fr"
  "fr_argc (push v fr) = fr_argc fr"
  "fr_rest (push v fr) = fr_rest fr"
  "(push v fr)\<lparr>fr_stack := s\<rparr> = fr\<lparr>fr_stack := s\<rparr>"
  by (simp_all add: push_def)

lemma restack [simp]: "fr\<lparr>fr_stack := fr_stack fr\<rparr> = fr"
  by simp

lemma local_push [simp]: "local (push v fr) slot = local fr slot"
  by (simp add: local_def)

lemma local_restack [simp]: "local (fr\<lparr>fr_stack := s\<rparr>) slot = local fr slot"
  by (simp add: local_def)

lemma cmp_i64_tests:
  "cmp_i64 a b = OLess \<longleftrightarrow> a <s b"
  "cmp_i64 a b = OGreater \<longleftrightarrow> b <s a"
  "\<not> b <s a \<longleftrightarrow> a \<le>s b"
  by (auto simp: cmp_i64_def word_sless_alt word_sle_eq i64_eq_iff)

text \<open>Two ints, inline or boxed: the generic path is the fast one.\<close>

lemma run_bin_kind_ints:
  assumes "fr_stack fr = r # l # s" "int_val l = Some x" "int_val r = Some y"
  shows "run_bin_kind E kind sp fr = fast_int_bin x y kind sp (fr\<lparr>fr_stack := s\<rparr>)"
proof (cases "is_compare kind")
  case False
  thus ?thesis using assms by (simp add: run_bin_kind_def fast_int_bin_def arith_def)
next
  case True
  thus ?thesis using assms
    by (cases kind) (simp_all add: run_bin_kind_def fast_int_bin_def compare_op_def compare_def cmp_i64_tests)
qed

lemma run_bin_kind_outcome:
  obtains fr' where "run_bin_kind E kind sp fr = Next fr'"
  | e fr' where "run_bin_kind E kind sp fr = Fault e fr'"
  | "run_bin_kind E kind sp fr = Panic"
  by (cases "run_bin_kind E kind sp fr")
     (auto simp: run_bin_kind_def arith_def compare_op_def push_int_def push_result_def Let_def
       split: if_splits option.splits list.splits sum.splits prod.splits)

end
