(* ===== verification/PeepholeCorrect.thy ===== *)
theory PeepholeCorrect
  imports Peephole VmCore
begin

text \<open>
  The peephole pass preserves the behaviour of the machine of \<open>VmCore\<close>. Each rewrite window is
  shown equivalent to its replacement, the walk is shown to partition the source into blocks that
  are each equivalent to one output instruction, and the relocated program then simulates the
  source one output instruction for one block.
\<close>

subsection \<open>The rewrite rules\<close>

inductive window :: "f64_ops \<Rightarrow> op list \<Rightarrow> op \<Rightarrow> bool" for F where
  fold_int: "fold_binop oper = Some b \<Longrightarrow> int_binop b x y = Some (Inr v)
    \<Longrightarrow> window F [ConstInt x, ConstInt y, oper] (ConstInt v)"
| fold_float: "fold_binop oper = Some b \<Longrightarrow> float_binop F b x y = Some v
    \<Longrightarrow> window F [ConstFloat x, ConstFloat y, oper] (ConstFloat v)"
| neg_int: "int_neg n = Inr v \<Longrightarrow> window F [ConstInt n, Neg] (ConstInt v)"
| neg_float: "window F [ConstFloat x, Neg] (ConstFloat (f64_neg x))"
| not_true: "window F [OpTrue, OpNot] OpFalse"
| not_false: "window F [OpFalse, OpNot] OpTrue"
| inc: "window F [BinLocalConst slot val K_Add, SetLocal slot] (IncLocal slot val)"
| fuse_local: "bin_kind oper = Some kind
    \<Longrightarrow> window F [GetLocal a, GetLocal b, oper] (BinLocalLocal a b kind)"
| fuse_const: "bin_kind oper = Some kind
    \<Longrightarrow> window F [GetLocal a, ConstInt val, oper] (BinLocalConst a val kind)"

lemma fold_binary_window: "fold_binary F x y z = Some v \<Longrightarrow> window F [x, y, z] v"
  by (auto simp: fold_binary_def split: option.splits op.splits sum.splits intro: window.intros)

lemma fold_unary_window: "fold_unary x z = Some v \<Longrightarrow> window F [x, z] v"
  by (auto simp: fold_unary_def split: op.splits sum.splits intro: window.intros)

lemma fuse_inc_window: "fuse_inc x z = Some v \<Longrightarrow> window F [x, z] v"
  by (auto simp: fuse_inc_def split: op.splits if_splits intro: window.intros)

lemma fuse_bin_window: "fuse_bin x y z = Some v \<Longrightarrow> window F [x, y, z] v"
  by (auto simp: fuse_bin_def split: option.splits op.splits intro: window.intros)

lemma tail2: "2 \<le> length xs \<Longrightarrow> drop (length xs - 2) xs = [xs ! (length xs - 2), xs ! (length xs - 1)]"
  by (subst Cons_nth_drop_Suc [symmetric], simp, subst Cons_nth_drop_Suc [symmetric])
     (auto simp: numeral_2_eq_2 Suc_diff_Suc)

lemma tail3:
  "3 \<le> length xs \<Longrightarrow>
   drop (length xs - 3) xs = [xs ! (length xs - 3), xs ! (length xs - 2), xs ! (length xs - 1)]"
  using tail2 [of xs]
  by (subst Cons_nth_drop_Suc [symmetric]) (auto simp: numeral_3_eq_3 numeral_2_eq_2 Suc_diff_Suc)

lemma try_tail_cases:
  assumes "try_tail F out = Some (v, w)"
  obtains "w = 2" "2 \<le> length out" "window F [out ! (length out - 2), out ! (length out - 1)] v"
  | "w = 3" "3 \<le> length out"
    "window F [out ! (length out - 3), out ! (length out - 2), out ! (length out - 1)] v"
  using assms
  by (auto simp: try_tail_def try_fold_tail_def try_fuse_tail_def Let_def
      split: option.splits if_splits
      dest: fold_binary_window fold_unary_window fuse_inc_window fuse_bin_window)

lemma try_tail_is_window:
  assumes "try_tail F out = Some (v, w)"
  shows "window F (drop (length out - w) out) v"
  using assms by (cases rule: try_tail_cases) (simp_all only: tail2 tail3)

subsection \<open>Straight-line blocks\<close>

fun straight :: "op \<Rightarrow> bool" where
  "straight (Jump t) = False"
| "straight (JumpIfFalse t) = False"
| "straight (JumpIfFalseKeep t) = False"
| "straight (JumpIfTrueKeep t) = False"
| "straight (PushHandler t) = False"
| "straight PopHandler = False"
| "straight (JumpIfProvided slot t) = False"
| "straight (MatchArm a t) = False"
| "straight (WaitPoll m) = False"
| "straight (Plain p) = False"
| "straight _ = True"

primrec exec_seq :: "('l, 'r) env \<Rightarrow> (op \<times> 'l) list \<Rightarrow> 'r vframe \<Rightarrow> ('l, 'r) outcome" where
  "exec_seq E [] fr = Next fr"
| "exec_seq E (x # xs) fr =
     (case exec_op E (fst x) (snd x) fr of
        Some (Next fr') \<Rightarrow> exec_seq E xs fr'
      | Some y \<Rightarrow> y
      | None \<Rightarrow> Panic)"

lemma exec_seq_append:
  "exec_seq E (xs @ ys) fr =
     (case exec_seq E xs fr of Next fr' \<Rightarrow> exec_seq E ys fr' | other \<Rightarrow> other)"
  by (induction xs arbitrary: fr) (auto split: option.splits outcome.splits)

lemma straight_outcome:
  assumes "straight oper"
  obtains fr' where "exec_op E oper sp fr = Some (Next fr')"
  | e fr' where "exec_op E oper sp fr = Some (Fault e fr')"
  | "exec_op E oper sp fr = Some Panic"
proof -
  obtain x where x: "exec_op E oper sp fr = Some x"
    using assms by (cases oper) auto
  have "x \<noteq> Again fr'" "x \<noteq> Escape v fr'" "x \<noteq> Done v fr'" for v fr'
    using assms x
    by (cases oper; auto simp: op_bin_local_local_def op_bin_local_const_def op_inc_local_def
        run_bin_kind_def arith_def compare_op_def push_int_def push_result_def fast_int_bin_def Let_def
        split: if_splits option.splits list.splits sum.splits prod.splits vm_value.splits outcome.splits)+
  thus ?thesis using that x by (cases x) auto
qed

subsection \<open>Each window is equivalent to its replacement\<close>

lemma fold_binop_exec:
  "fold_binop oper = Some b \<Longrightarrow> exec_op E oper sp fr = Some (arith E b sp fr)"
  by (cases oper) (auto simp: run_bin_kind_def)

lemma bin_kind_exec:
  "Peephole.bin_kind oper = Some k \<Longrightarrow> exec_op E oper sp fr = Some (run_bin_kind E k sp fr)"
  by (cases oper) auto

lemma float_binop_arith: "float_binop F b x y = Some v \<Longrightarrow> float_arith F b x y = Some v"
  by (cases b) (auto split: if_splits)

lemma seq_single: "straight oper \<Longrightarrow> exec_seq E [(oper, sp)] fr = the (exec_op E oper sp fr)"
  by (rule straight_outcome [of oper E sp fr]) auto

text \<open>The three instructions of a fused binary operation.\<close>

lemma fuse_local_sound:
  assumes "Peephole.bin_kind oper = Some k"
  shows "exec_seq E [(GetLocal a, l1), (GetLocal b, l2), (oper, sp)] fr = op_bin_local_local E a b k sp fr"
  using assms
  by (auto simp: bin_kind_exec op_bin_local_local_def as_int_inline_iff run_bin_kind_ints
      split: option.splits outcome.splits)

lemma fuse_const_sound:
  assumes "Peephole.bin_kind oper = Some k"
  shows "exec_seq E [(GetLocal a, l1), (ConstInt n, l2), (oper, sp)] fr = op_bin_local_const E a n k sp fr"
  using assms
  by (auto simp: bin_kind_exec op_bin_local_const_def as_int_inline_iff run_bin_kind_ints
      split: option.splits outcome.splits)

lemma set_local_restack: "set_local slot v fr\<lparr>fr_stack := s\<rparr> = (set_local slot v fr)\<lparr>fr_stack := s\<rparr>"
  by (simp add: set_local_def)

lemma restack_rest [simp]: "fr\<lparr>fr_rest := r, fr_stack := fr_stack fr\<rparr> = fr\<lparr>fr_rest := r\<rparr>"
  by simp

lemma inc_sound:
  "exec_seq E [(BinLocalConst slot n K_Add, sp), (SetLocal slot, sp)] fr = op_inc_local E slot n sp fr"
proof (cases "local fr slot")
  case None
  thus ?thesis by (simp add: op_bin_local_const_def op_inc_local_def)
next
  case (Some cur)
  hence slot: "slot < length (fr_locals fr)" by (simp add: local_def split: if_splits)
  show ?thesis
  proof (cases cur)
    case (VInt x)
    thus ?thesis using Some slot
      by (auto simp: op_bin_local_const_def op_inc_local_def fast_int_bin_def push_int_def
          split: option.splits sum.splits)
  next
    case (VFloat x)
    moreover have "int_val (make_int n) = Some n" "as_f64 E (make_int n) = Some (env_f64_of_int E n)"
      by (simp_all add: make_int_def)
    ultimately show ?thesis using Some slot
      by (simp add: op_bin_local_const_def op_inc_local_def run_bin_kind_def arith_def)
  qed (use Some slot in \<open>auto simp: op_bin_local_const_def op_inc_local_def run_bin_kind_def
         arith_def push_int_def push_result_def Let_def local_def
         split: option.splits sum.splits prod.splits outcome.splits list.splits\<close>)
qed

definition plus_op :: "op \<Rightarrow> bool" where
  "plus_op oper \<longleftrightarrow> oper = Add \<or> (\<exists>slot val. oper = BinLocalConst slot val K_Add)"

lemma window_sound:
  assumes "window (env_f64 E) win v" "length ls = length win"
    and "\<And>slot val. win = [BinLocalConst slot val K_Add, SetLocal slot] \<Longrightarrow> ls ! 0 = ls ! 1"
  shows "exec_seq E (zip win ls) fr = the (exec_op E v (last ls) fr)"
  using assms
proof (induction rule: window.induct)
  case (fold_int oper b x y v)
  then obtain l1 l2 l3 where "ls = [l1, l2, l3]" by (auto simp: length_Suc_conv)
  thus ?case using fold_int
    by (simp add: fold_binop_exec arith_def int_op_def push_int_def)
next
  case (fold_float oper b x y v)
  then obtain l1 l2 l3 where "ls = [l1, l2, l3]" by (auto simp: length_Suc_conv)
  thus ?case using fold_float
    by (simp add: fold_binop_exec arith_def float_binop_arith)
next
  case (inc slot val)
  then obtain l1 l2 where ls: "ls = [l1, l2]" by (auto simp: length_Suc_conv)
  hence "l1 = l2" using inc by simp
  thus ?case using ls inc_sound [of E slot val l2 fr] by simp
next
  case (fuse_local oper kind a b)
  then obtain l1 l2 l3 where "ls = [l1, l2, l3]" by (auto simp: length_Suc_conv)
  thus ?case using fuse_local_sound [OF fuse_local(1), of E a l1 b l2 l3 fr] by simp
next
  case (fuse_const oper kind a val)
  then obtain l1 l2 l3 where "ls = [l1, l2, l3]" by (auto simp: length_Suc_conv)
  thus ?case using fuse_const_sound [OF fuse_const(1), of E a l1 val l2 l3 fr] by simp
qed (auto simp: length_Suc_conv push_result_def neg_value_def push_def)

lemma window_straight:
  assumes "window F win v"
  shows "straight v" "\<And>oper. oper \<in> set win \<Longrightarrow> straight oper" "v \<noteq> Add" "\<And>slot. v \<noteq> SetLocal slot"
  using assms
  by (induction rule: window.induct) (auto elim: fold_binop.elims bin_kind.elims)

subsection \<open>The walk partitions the source into blocks\<close>

definition src_ops :: "(span \<Rightarrow> 'l) \<Rightarrow> op list \<Rightarrow> span list \<Rightarrow> nat \<Rightarrow> nat \<Rightarrow> (op \<times> 'l) list" where
  "src_ops f code lines lo hi = map (\<lambda>j. (code ! j, f (lines ! j))) [lo..<hi]"

text \<open>The source range \<open>lo..<hi\<close> is one instruction copied, or a straight range equivalent to one.\<close>

definition block :: "('l, 'r) env \<Rightarrow> (span \<Rightarrow> 'l) \<Rightarrow> op list \<Rightarrow> span list \<Rightarrow> nat \<Rightarrow> nat \<Rightarrow> op \<Rightarrow> span \<Rightarrow> bool" where
  "block E f code lines lo hi oper sp \<longleftrightarrow>
     lo < hi \<and> sp = lines ! (hi - 1) \<and>
     ((\<exists>slot val. oper = BinLocalConst slot val K_Add) \<longrightarrow> plus_op (code ! (hi - 1))) \<and>
     (hi = Suc lo \<and> oper = code ! lo \<or>
      straight oper \<and> oper \<noteq> Add \<and> (\<forall>slot. oper \<noteq> SetLocal slot) \<and>
      (\<forall>j. lo \<le> j \<and> j < hi \<longrightarrow> straight (code ! j)) \<and>
      (\<forall>fr. exec_seq E (src_ops f code lines lo hi) fr = the (exec_op E oper (f sp) fr)))"

definition ends :: "nat \<Rightarrow> opt_state \<Rightarrow> nat list" where
  "ends i st = o_src st @ [i]"

definition walk_inv :: "('l, 'r) env \<Rightarrow> (span \<Rightarrow> 'l) \<Rightarrow> op list \<Rightarrow> span list \<Rightarrow> nat \<Rightarrow> opt_state \<Rightarrow> bool" where
  "walk_inv E f code lines i st \<longleftrightarrow>
     length (o_lines st) = length (o_out st) \<and> length (o_src st) = length (o_out st) \<and>
     length (o_map st) = Suc (length code) \<and>
     sorted_wrt (<) (ends i st) \<and> ends i st ! 0 = 0 \<and>
     (\<forall>p < length (o_out st).
        block E f code lines (ends i st ! p) (ends i st ! Suc p) (o_out st ! p) (o_lines st ! p)) \<and>
     (\<forall>p < length (o_out st). o_map st ! (o_src st ! p) = p) \<and>
     (\<forall>t < i. is_target code t \<longrightarrow> t \<in> set (o_src st))"

definition locs_agree :: "(span \<Rightarrow> 'l) \<Rightarrow> op list \<Rightarrow> span list \<Rightarrow> bool" where
  "locs_agree f code lines \<longleftrightarrow>
     (\<forall>i. Suc i < length code \<and> plus_op (code ! i) \<and> (\<exists>slot. code ! Suc i = SetLocal slot)
          \<longrightarrow> f (lines ! i) = f (lines ! Suc i))"

lemma block_straight:
  assumes "block E f code lines lo hi oper sp" "straight oper"
  shows "exec_seq E (src_ops f code lines lo hi) fr = the (exec_op E oper (f sp) fr)"
    and "\<And>j. lo \<le> j \<Longrightarrow> j < hi \<Longrightarrow> straight (code ! j)"
proof -
  show "exec_seq E (src_ops f code lines lo hi) fr = the (exec_op E oper (f sp) fr)"
    using assms seq_single [OF assms(2), of E "f sp" fr]
    by (auto simp: block_def src_ops_def)
  show "\<And>j. lo \<le> j \<Longrightarrow> j < hi \<Longrightarrow> straight (code ! j)"
    using assms by (auto simp: block_def le_less_Suc_eq)
qed

lemma src_ops_append: "lo \<le> mid \<Longrightarrow> mid \<le> hi
    \<Longrightarrow> src_ops f code lines lo hi = src_ops f code lines lo mid @ src_ops f code lines mid hi"
  using upt_add_eq_append [of lo mid "hi - mid"] by (simp add: src_ops_def flip: map_append)

lemma sorted_ends:
  assumes "sorted_wrt (<) (e :: nat list)" "p < q" "q < length e"
  shows "e ! p < e ! q"
  using assms by (rule sorted_wrt_nth_less)

text \<open>A run of straight output entries is equivalent to the source range it covers.\<close>

lemma blocks_seq:
  assumes "sorted_wrt (<) e" "b < length e" "a \<le> b"
    and "\<And>p. a \<le> p \<Longrightarrow> p < b \<Longrightarrow> block E f code lines (e ! p) (e ! Suc p) (out ! p) (ol ! p)"
    and "\<And>p. a \<le> p \<Longrightarrow> p < b \<Longrightarrow> straight (out ! p)"
  shows "exec_seq E (src_ops f code lines (e ! a) (e ! b)) fr
         = exec_seq E (map (\<lambda>p. (out ! p, f (ol ! p))) [a..<b]) fr
       \<and> (\<forall>j. e ! a \<le> j \<and> j < e ! b \<longrightarrow> straight (code ! j))"
  using \<open>a \<le> b\<close> assms(2,4,5)
proof (induction b arbitrary: fr rule: dec_induct)
  case base
  thus ?case by (auto simp: src_ops_def)
next
  case (step b)
  have le: "e ! a \<le> e ! b"
    using sorted_ends [OF assms(1), of a b] step by (cases "a = b") (auto simp: less_imp_le)
  have lt: "e ! b < e ! Suc b" using sorted_ends [OF assms(1), of b "Suc b"] step by simp
  have blk: "block E f code lines (e ! b) (e ! Suc b) (out ! b) (ol ! b)" "straight (out ! b)"
    using step by simp_all
  have split: "src_ops f code lines (e ! a) (e ! Suc b)
               = src_ops f code lines (e ! a) (e ! b) @ src_ops f code lines (e ! b) (e ! Suc b)"
    using le lt by (intro src_ops_append) simp_all
  have single: "exec_seq E (src_ops f code lines (e ! b) (e ! Suc b)) x
                = exec_seq E [(out ! b, f (ol ! b))] x" for x
    by (simp only: block_straight(1) [OF blk] seq_single [OF blk(2)])
  have IH: "exec_seq E (src_ops f code lines (e ! a) (e ! b)) fr
            = exec_seq E (map (\<lambda>p. (out ! p, f (ol ! p))) [a..<b]) fr"
    "\<forall>j. e ! a \<le> j \<and> j < e ! b \<longrightarrow> straight (code ! j)" for fr
    using step by simp_all
  have "exec_seq E (src_ops f code lines (e ! a) (e ! Suc b)) fr
        = exec_seq E (map (\<lambda>p. (out ! p, f (ol ! p))) [a..<Suc b]) fr"
    using step.hyps by (simp add: split exec_seq_append single IH(1) del: exec_seq.simps cong: outcome.case_cong)
  moreover have "straight (code ! j)" if "e ! a \<le> j" "j < e ! Suc b" for j
    using that IH(2) block_straight(2) [OF blk, of j] by (cases "j < e ! b") auto
  ultimately show ?case by blast
qed

lemma walk_inv_push:
  assumes inv: "walk_inv E f code lines i st" and i: "i < length code"
  shows "walk_inv E f code lines (Suc i) (push_op i (code ! i) (lines ! i) st)"
proof -
  let ?st = "push_op i (code ! i) (lines ! i) st"
  let ?m = "length (o_out st)"
  have len: "length (o_lines st) = ?m" "length (o_src st) = ?m" "length (o_map st) = Suc (length code)"
    and sorted: "sorted_wrt (<) (ends i st)" and zero: "ends i st ! 0 = 0"
    and blk: "\<And>p. p < ?m \<Longrightarrow> block E f code lines (ends i st ! p) (ends i st ! Suc p) (o_out st ! p) (o_lines st ! p)"
    and mp: "\<And>p. p < ?m \<Longrightarrow> o_map st ! (o_src st ! p) = p"
    and tg: "\<And>t. t < i \<Longrightarrow> is_target code t \<Longrightarrow> t \<in> set (o_src st)"
    using inv by (auto simp: walk_inv_def)
  have ends: "ends (Suc i) ?st = ends i st @ [Suc i]" by (simp add: ends_def push_op_def)
  have below: "x < i" if "x \<in> set (o_src st)" for x
    using sorted that by (simp add: ends_def sorted_wrt_append)
  have "sorted_wrt (<) (ends (Suc i) ?st)"
    using sorted below unfolding ends by (auto simp: ends_def sorted_wrt_append less_Suc_eq)
  moreover have "block E f code lines (ends (Suc i) ?st ! p) (ends (Suc i) ?st ! Suc p) (o_out ?st ! p) (o_lines ?st ! p)"
    if p: "p < length (o_out ?st)" for p
  proof (cases "p < ?m")
    case True
    have "ends (Suc i) ?st ! q = ends i st ! q" if "q \<le> ?m" for q
      using that len unfolding ends by (simp add: nth_append ends_def)
    thus ?thesis using blk [OF True] True len by (simp add: push_op_def nth_append)
  next
    case False
    hence "p = ?m" using p by (simp add: push_op_def)
    thus ?thesis using len by (auto simp: ends nth_append push_op_def ends_def block_def plus_op_def)
  qed
  moreover have "o_map ?st ! (o_src ?st ! p) = p" if p: "p < length (o_out ?st)" for p
  proof (cases "p < ?m")
    case True
    hence "o_src st ! p < i" using below len by simp
    thus ?thesis using mp [OF True] True len by (simp add: push_op_def nth_append)
  next
    case False
    hence "p = ?m" using p by (simp add: push_op_def)
    thus ?thesis using len i by (simp add: push_op_def nth_append)
  qed
  moreover have "ends (Suc i) ?st ! 0 = 0"
    using zero unfolding ends by (auto simp: nth_append ends_def split: if_splits)
  ultimately show ?thesis using len tg by (simp add: walk_inv_def push_op_def less_Suc_eq)
qed

lemma fill_nth: "j < length xs \<Longrightarrow> fill lo hi v xs ! j = (if lo \<le> j \<and> j \<le> hi then v else xs ! j)"
  by (simp add: fill_def)

lemma length_fill [simp]: "length (fill lo hi v xs) = length xs"
  by (simp add: fill_def)

text \<open>The block that a legal rewrite creates.\<close>

lemma collapse_block:
  assumes inv: "walk_inv E f code lines (Suc i) st" and i: "i < length code"
    and agree: "locs_agree f code lines"
    and tail: "try_tail (env_f64 E) (o_out st) = Some (v, w)"
  shows "block E f code lines (o_src st ! (length (o_out st) - w)) (Suc i) v (o_lines st ! (length (o_out st) - 1))"
proof -
  let ?m = "length (o_out st)" and ?e = "ends (Suc i) st"
  let ?first = "?m - w"
  have w: "2 \<le> w" "w \<le> ?m" using try_tail_window [OF tail] by auto
  hence first: "?first < ?m" by simp
  have len: "length (o_lines st) = ?m" "length (o_src st) = ?m"
    and sorted: "sorted_wrt (<) ?e"
    and blk: "\<And>p. p < ?m \<Longrightarrow> block E f code lines (?e ! p) (?e ! Suc p) (o_out st ! p) (o_lines st ! p)"
    using inv by (auto simp: walk_inv_def)
  have e_last: "?e ! ?m = Suc i" "length ?e = Suc ?m" using len by (simp_all add: ends_def nth_append)
  have e_first: "?e ! ?first = o_src st ! ?first" using len first by (simp add: ends_def nth_append)
  define win where "win = drop ?first (o_out st)"
  define ls where "ls = map f (drop ?first (o_lines st))"
  have win: "window (env_f64 E) win v" using try_tail_is_window [OF tail] by (simp add: win_def)
  have lens: "length win = w" "length ls = w" using w len by (simp_all add: win_def ls_def)
  have zip: "map (\<lambda>p. (o_out st ! p, f (o_lines st ! p))) [?first..<?m] = zip win ls"
    by (rule nth_equalityI) (use len w in \<open>auto simp: win_def ls_def\<close>)
  have straight: "straight (o_out st ! p)" if "?first \<le> p" "p < ?m" for p
  proof -
    have "win ! (p - ?first) = o_out st ! p" using that by (simp add: win_def)
    moreover have "p - ?first < length win" using that by (simp add: win_def)
    ultimately show ?thesis using window_straight(2) [OF win] nth_mem by metis
  qed
  have last: "last ls = f (o_lines st ! (?m - 1))"
    using w len by (simp add: ls_def last_conv_nth)
  have agree_inc: "ls ! 0 = ls ! 1" if "win = [BinLocalConst slot val K_Add, SetLocal slot]" for slot val
  proof -
    have m: "w = 2" "?first = ?m - 2" using lens that by simp_all
    have entry: "o_out st ! (?m - 2) = BinLocalConst slot val K_Add" "o_out st ! (?m - 1) = SetLocal slot"
      using that m w tail2 [of "o_out st"] by (simp_all add: win_def)
    have mid: "Suc (?m - 2) = ?m - 1" "Suc (?m - 1) = ?m" using m w by simp_all
    have "plus_op (code ! (?e ! (?m - 1) - 1))" "o_lines st ! (?m - 2) = lines ! (?e ! (?m - 1) - 1)"
      "?e ! (?m - 2) < ?e ! (?m - 1)"
      using blk [of "?m - 2"] entry(1) mid m w by (auto simp: block_def)
    moreover have "code ! (?e ! (?m - 1)) = SetLocal slot" "o_lines st ! (?m - 1) = lines ! (?e ! (?m - 1))"
      "?e ! (?m - 1) = i"
      using blk [of "?m - 1"] entry(2) mid m w e_last(1) by (auto simp: block_def)
    ultimately have "f (o_lines st ! (?m - 2)) = f (o_lines st ! (?m - 1))"
      using agree i unfolding locs_agree_def by (metis Suc_pred' gr_implies_not0 neq0_conv One_nat_def)
    thus ?thesis using m w len mid by (simp add: ls_def)
  qed
  have seq: "exec_seq E (src_ops f code lines (?e ! ?first) (?e ! ?m)) fr = the (exec_op E v (f (o_lines st ! (?m - 1))) fr)
             \<and> (\<forall>j. ?e ! ?first \<le> j \<and> j < ?e ! ?m \<longrightarrow> straight (code ! j))" for fr
    using blocks_seq [OF sorted, of ?m ?first E f code lines "o_out st" "o_lines st" fr] blk straight e_last
      window_sound [OF win, where ls = ls and fr = fr] agree_inc lens
    by (simp add: zip last)
  have lo: "o_src st ! ?first < Suc i"
    using sorted_ends [OF sorted, of ?first ?m] first e_last e_first by simp
  have "Suc (?m - 1) = ?m" using first by simp
  hence lastb: "block E f code lines (?e ! (?m - 1)) (Suc i) (o_out st ! (?m - 1)) (o_lines st ! (?m - 1))"
    using blk [of "?m - 1"] first e_last(1) by simp
  have sp: "o_lines st ! (?m - 1) = lines ! i" using lastb by (simp add: block_def)
  have plus: "plus_op (code ! i)" if v: "v = BinLocalConst slot val K_Add" for slot val
  proof -
    have "last win = Add" using win v by (auto elim!: window.cases bin_kind.elims)
    hence "o_out st ! (?m - 1) = Add" using first w by (simp add: win_def last_conv_nth)
    hence "code ! i = Add" using lastb by (auto simp: block_def)
    thus ?thesis by (simp add: plus_op_def)
  qed
  show ?thesis
    unfolding block_def using lo sp plus window_straight(1,3,4) [OF win] seq e_first e_last by auto
qed

lemma walk_inv_collapse_step:
  assumes inv: "walk_inv E f code lines (Suc i) st" and i: "i < length code"
    and agree: "locs_agree f code lines"
    and tail: "try_tail (env_f64 E) (o_out st) = Some (v, w)"
    and legal: "window_legal (is_target code) w st"
  shows "walk_inv E f code lines (Suc i) (collapse_step i v w st)"
proof -
  let ?m = "length (o_out st)" and ?st = "collapse_step i v w st"
  let ?first = "?m - w"
  have w: "2 \<le> w" "w \<le> ?m" using try_tail_window [OF tail] by auto
  hence first: "?first < ?m" by simp
  have len: "length (o_lines st) = ?m" "length (o_src st) = ?m" "length (o_map st) = Suc (length code)"
    and sorted: "sorted_wrt (<) (ends (Suc i) st)" and zero: "ends (Suc i) st ! 0 = 0"
    and blk: "\<And>p. p < ?m \<Longrightarrow>
      block E f code lines (ends (Suc i) st ! p) (ends (Suc i) st ! Suc p) (o_out st ! p) (o_lines st ! p)"
    and mp: "\<And>p. p < ?m \<Longrightarrow> o_map st ! (o_src st ! p) = p"
    and tg: "\<And>t. t < Suc i \<Longrightarrow> is_target code t \<Longrightarrow> t \<in> set (o_src st)"
    using inv by (auto simp: walk_inv_def)
  have src: "o_src ?st = take (Suc ?first) (o_src st)"
    using first len by (simp add: collapse_step_def Let_def take_Suc_conv_app_nth)
  have out: "o_out ?st = take ?first (o_out st) @ [v]" "length (o_out ?st) = Suc ?first"
    using first by (simp_all add: collapse_step_def Let_def)
  have ol: "o_lines ?st = take ?first (o_lines st) @ [o_lines st ! (?m - 1)]"
    by (simp add: collapse_step_def Let_def)
  have om: "o_map ?st = fill (o_src st ! ?first) i ?first (o_map st)"
    by (simp add: collapse_step_def Let_def)
  have srcs: "sorted_wrt (<) (o_src st)" "\<And>x. x \<in> set (o_src st) \<Longrightarrow> x < Suc i"
    using sorted by (simp_all add: ends_def sorted_wrt_append)
  have "sorted_wrt (<) (ends (Suc i) ?st)"
    using srcs by (auto simp: ends_def src sorted_wrt_append sorted_wrt_take dest: in_set_takeD)
  moreover have "o_src st ! 0 = 0" using zero first len by (auto simp: ends_def nth_append split: if_splits)
  hence "ends (Suc i) ?st ! 0 = 0" using first len by (simp add: ends_def src nth_append)
  moreover have "block E f code lines (ends (Suc i) ?st ! p) (ends (Suc i) ?st ! Suc p) (o_out ?st ! p) (o_lines ?st ! p)"
    if p: "p < length (o_out ?st)" for p
  proof (cases "p < ?first")
    case True
    thus ?thesis using blk [of p] first len
      by (simp add: ends_def src nth_append out ol)
  next
    case False
    hence "p = ?first" using p out by simp
    thus ?thesis using collapse_block [OF inv i agree tail] first len
      by (simp add: ends_def src nth_append out ol)
  qed
  moreover have "o_map ?st ! (o_src ?st ! p) = p" if p: "p < length (o_out ?st)" for p
  proof -
    have pm: "p < ?m" "p \<le> ?first" using p out first by simp_all
    have "o_src st ! p < Suc i" using srcs(2) pm len by simp
    moreover have "p < ?first \<Longrightarrow> o_src st ! p < o_src st ! ?first"
      using sorted_wrt_nth_less [OF srcs(1)] first len by simp
    ultimately show ?thesis using mp [OF pm(1)] pm i len
      by (cases "p = ?first") (auto simp: src om fill_nth)
  qed
  moreover have "t \<in> set (o_src ?st)" if t: "t < Suc i" "is_target code t" for t
  proof -
    obtain q where q: "q < ?m" "o_src st ! q = t" using tg [OF t] len by (auto simp: in_set_conv_nth)
    have "\<not> ?first < q"
      using legal t(2) q by (auto simp: window_legal_def Let_def)
    hence "q < length (o_src ?st)" "o_src ?st ! q = t" using q first len by (simp_all add: src)
    thus ?thesis by (metis nth_mem)
  qed
  ultimately show ?thesis using len first
    by (simp add: walk_inv_def) (simp add: collapse_step_def Let_def)
qed

lemma walk_inv_collapse:
  assumes "walk_inv E f code lines (Suc i) st" "i < length code" "locs_agree f code lines"
  shows "walk_inv E f code lines (Suc i) (collapse (env_f64 E) (is_target code) i st)"
  using assms
proof (induction "env_f64 E" "is_target code" i st rule: collapse.induct)
  case (1 i st)
  show ?case
  proof (cases "try_tail (env_f64 E) (o_out st)")
    case None
    thus ?thesis using 1 by (simp add: collapse.simps)
  next
    case (Some vw)
    obtain v w where vw: "vw = (v, w)" by (cases vw)
    show ?thesis
    proof (cases "window_legal (is_target code) w st")
      case True
      have "walk_inv E f code lines (Suc i) (collapse_step i v w st)"
        using walk_inv_collapse_step [OF 1(2,3,4)] Some vw True by simp
      thus ?thesis using 1(1) [OF _ refl] Some vw True 1(3,4) by (subst collapse.simps) simp
    next
      case False
      thus ?thesis using 1 Some vw by (simp add: collapse.simps)
    qed
  qed
qed

lemma walk_inv_walk:
  assumes "locs_agree f code lines" "i \<le> length code"
  shows "walk_inv E f code lines i (walk (env_f64 E) code lines i)"
  using assms(2)
proof (induction i)
  case 0
  show ?case by (simp add: walk_inv_def ends_def)
next
  case (Suc i)
  thus ?case using assms(1) by (simp add: walk_inv_collapse walk_inv_push)
qed

subsection \<open>The relocated program simulates the source\<close>

definition map_handlers :: "nat list \<Rightarrow> (nat \<times> nat) list \<Rightarrow> (nat \<times> nat) list" where
  "map_handlers mp hs = map (\<lambda>(n, t). (n, mp ! t)) hs"

definition legal_input :: "(span \<Rightarrow> 'l) \<Rightarrow> op list \<Rightarrow> span list \<Rightarrow> bool" where
  "legal_input f code lines \<longleftrightarrow>
     length lines = length code \<and> locs_agree f code lines \<and>
     (\<forall>oper \<in> set code. \<forall>t \<in> set (targets oper). t \<le> length code)"

definition related :: "('l, 'r) env \<Rightarrow> (span \<Rightarrow> 'l) \<Rightarrow> op list \<Rightarrow> span list \<Rightarrow> 'r config \<Rightarrow> 'r config \<Rightarrow> bool" where
  "related E f code lines c c' \<longleftrightarrow>
     (let mp = final_map (env_f64 E) code lines;
          e = ends (length code) (walk (env_f64 E) code lines (length code))
      in legal_input f code lines \<and> c_ip c \<in> set e \<and> c_ip c' = mp ! c_ip c \<and>
         c_frame c' = c_frame c \<and> c_handlers c' = map_handlers mp (c_handlers c) \<and>
         (\<forall>h \<in> set (c_handlers c). is_target code (snd h)))"

text \<open>Two results agree: the same stop, or related configurations.\<close>

definition related_next :: "('l, 'r) env \<Rightarrow> (span \<Rightarrow> 'l) \<Rightarrow> op list \<Rightarrow> span list
    \<Rightarrow> ('l, 'r) vm_next \<Rightarrow> ('l, 'r) vm_next \<Rightarrow> bool" where
  "related_next E f code lines x y \<longleftrightarrow>
     (case x of
        Inl c \<Rightarrow> (case y of Inl c' \<Rightarrow> related E f code lines c c' | Inr r \<Rightarrow> False)
      | Inr r \<Rightarrow> y = Inr r)"

lemma final_walk:
  fixes E :: "('l, 'r) env" and f :: "span \<Rightarrow> 'l"
  assumes "legal_input f code lines"
  defines "st \<equiv> walk (env_f64 E) code lines (length code)"
  defines "e \<equiv> ends (length code) st"
  shows "sorted_wrt (<) e" "e ! 0 = 0" "length e = Suc (length (o_out st))" "e ! length (o_out st) = length code"
    and "length (o_lines st) = length (o_out st)"
    and "\<And>p. p < length (o_out st) \<Longrightarrow>
      block E f code lines (e ! p) (e ! Suc p) (o_out st ! p) (o_lines st ! p)"
    and "\<And>p. p < length e \<Longrightarrow> final_map (env_f64 E) code lines ! (e ! p) = p"
    and "\<And>t. is_target code t \<Longrightarrow> t \<in> set e"
proof -
  have inv: "walk_inv E f code lines (length code) st"
    using walk_inv_walk [of f code lines "length code" E] assms by (simp add: legal_input_def)
  have len: "length (o_src st) = length (o_out st)" "length (o_map st) = Suc (length code)"
    using inv by (simp_all add: walk_inv_def)
  have fm: "final_map (env_f64 E) code lines = (o_map st)[length code := length (o_out st)]"
    by (simp add: final_map_def st_def Let_def)
  show "sorted_wrt (<) e" "e ! 0 = 0" "length (o_lines st) = length (o_out st)"
    using inv by (simp_all add: walk_inv_def e_def)
  show elen: "length e = Suc (length (o_out st))" "e ! length (o_out st) = length code"
    using len by (simp_all add: e_def ends_def nth_append)
  show "\<And>p. p < length (o_out st) \<Longrightarrow>
      block E f code lines (e ! p) (e ! Suc p) (o_out st ! p) (o_lines st ! p)"
    using inv by (simp add: walk_inv_def e_def)
  show "final_map (env_f64 E) code lines ! (e ! p) = p" if p: "p < length e" for p
  proof (cases "p < length (o_out st)")
    case True
    have "e ! p < length code"
      using sorted_ends [OF \<open>sorted_wrt (<) e\<close>, of p "length (o_out st)"] True elen by simp
    thus ?thesis using inv True len
      by (simp add: fm walk_inv_def e_def ends_def nth_append)
  next
    case False
    hence "p = length (o_out st)" using p elen by simp
    thus ?thesis using elen(2) len by (simp add: fm)
  qed
  show "t \<in> set e" if "is_target code t" for t
    using that inv by (cases "t = length code") (auto simp: walk_inv_def e_def ends_def is_target_def)
qed

text \<open>Jumps, falls, faults and escapes keep the relation.\<close>

lemma related_Go:
  assumes "legal_input f code lines" "\<forall>h \<in> set hs. is_target code (snd h)"
    and "t \<in> set (ends (length code) (walk (env_f64 E) code lines (length code)))"
    and "t' = final_map (env_f64 E) code lines ! t"
    and "hs' = map_handlers (final_map (env_f64 E) code lines) hs"
  shows "related_next E f code lines (Go t hs fr) (Go t' hs' fr)"
  using assms by (simp add: related_next_def related_def Let_def)

lemma related_target:
  assumes "legal_input f code lines" "\<forall>h \<in> set hs. is_target code (snd h)" "is_target code t"
  shows "related_next E f code lines (Go t hs fr)
           (Go (final_map (env_f64 E) code lines ! t) (map_handlers (final_map (env_f64 E) code lines) hs) fr)"
  using assms final_walk(8) [OF assms(1)] by (intro related_Go) auto

lemma related_Inr [simp]: "related_next E f code lines (Inr r) (Inr r)"
  by (simp add: related_next_def)

lemma map_handlers_simps [simp]:
  "map_handlers mp [] = []"
  "map_handlers mp (h # hs) = (fst h, mp ! snd h) # map_handlers mp hs"
  "map_handlers mp (drop n hs) = drop n (map_handlers mp hs)"
  by (simp_all add: map_handlers_def split_beta drop_map)

lemma related_enter_handler:
  assumes "legal_input f code lines" "\<forall>h \<in> set (h # hs). is_target code (snd h)"
    and "mp = final_map (env_f64 E) code lines"
  shows "related_next E f code lines (enter_handler v h hs fr)
           (enter_handler v (fst h, mp ! snd h) (map_handlers mp hs) fr)"
  using assms by (simp add: enter_handler_def related_target)

lemma related_fault:
  assumes "legal_input f code lines" "\<forall>h \<in> set hs. is_target code (snd h)"
    and "mp = final_map (env_f64 E) code lines"
  shows "related_next E f code lines (on_step_fault E e hs fr) (on_step_fault E e (map_handlers mp hs) fr)"
  using assms
  by (cases hs) (auto simp: on_step_fault_def intro!: related_enter_handler split: prod.splits)

lemma related_escape:
  assumes "legal_input f code lines" "\<forall>h \<in> set hs. is_target code (snd h)"
    and "mp = final_map (env_f64 E) code lines"
  shows "related_next E f code lines (escape v hs fr) (escape v (map_handlers mp hs) fr)"
  using assms by (cases hs) (auto simp: escape_def intro!: related_enter_handler)

text \<open>The settled outcome of an entry: \<open>ip\<close> is the last source position of the entry \<open>p\<close>.\<close>

lemma related_settle:
  assumes legal: "legal_input f code lines" "\<forall>h \<in> set hs. is_target code (snd h)"
    and mp: "mp = final_map (env_f64 E) code lines"
    and e: "e = ends (length code) (walk (env_f64 E) code lines (length code))"
    and p: "Suc p < length e" "e ! Suc p = Suc ip" "\<And>fr. x = Again fr \<Longrightarrow> e ! p = ip"
  shows "related_next E f code lines (settle E ip hs x) (settle E p (map_handlers mp hs) x)"
proof -
  have idx: "mp ! (e ! q) = q" if "q < length e" for q
    using final_walk(7) [OF legal(1), of q E] that mp e by simp
  have *: "related_next E f code lines (Go (e ! q) hs fr) (Go q (map_handlers mp hs) fr)"
    if "q < length e" for q fr
    using legal that idx [OF that] mp e by (intro related_Go) auto
  show ?thesis
    using * [of "Suc p"] * [of p] p related_fault [OF legal mp] related_escape [OF legal mp]
    by (auto simp: settle_def split: outcome.splits)
qed

lemma relocate_exec [simp]: "exec_op E (relocate mp oper) sp fr = exec_op E oper sp fr"
  by (cases oper) simp_all

lemma related_control:
  assumes legal: "legal_input f code lines" "\<forall>h \<in> set hs. is_target code (snd h)"
    and mp: "mp = final_map (env_f64 E) code lines"
    and e: "e = ends (length code) (walk (env_f64 E) code lines (length code))"
    and p: "Suc p < length e" "e ! Suc p = Suc (e ! p)"
    and oper: "oper \<in> set code"
  shows "related_next E f code lines (exec_control E oper (e ! p) sp hs fr)
           (exec_control E (relocate mp oper) p sp (map_handlers mp hs) fr)"
proof -
  note walk = final_walk [OF legal(1), where E = E, folded e]
  have tg: "is_target code t" if "t \<in> set (targets oper)" for t
    using legal(1) oper that by (auto simp: legal_input_def is_target_def)
  have idx: "mp ! (e ! q) = q" if "q < length e" for q using walk(7) that mp e by simp
  have go: "related_next E f code lines (Go t hs fr) (Go (mp ! t) (map_handlers mp hs) fr)"
    if "t \<in> set (targets oper)" for t fr
    using related_target [OF legal tg [OF that]] mp by simp
  have fall: "related_next E f code lines (Go (Suc (e ! p)) hs' fr) (Go (Suc p) (map_handlers mp hs') fr)"
    if "\<forall>h \<in> set hs'. is_target code (snd h)" for fr hs'
    using that legal idx [OF p(1)] p(2) mp e nth_mem [OF p(1)] by (intro related_Go) simp_all
  have backward: "mp ! t < Suc p \<longleftrightarrow> t < Suc (e ! p)" if t: "t \<in> set (targets oper)" for t
  proof -
    obtain q where q: "q < length e" "t = e ! q" using walk(8) [OF tg [OF t]] e by (auto simp: in_set_conv_nth)
    have "e ! q < Suc (e ! p) \<longleftrightarrow> q < Suc p"
      using sorted_ends [OF walk(1), of p q] sorted_ends [OF walk(1), of q p] p q
      by (cases q p rule: linorder_cases) auto
    thus ?thesis using q idx [OF q(1)] by simp
  qed
  note fault = related_fault [OF legal mp]
  show ?thesis
  proof (cases oper)
    case (Jump t)
    thus ?thesis using go [of t] backward [of t] fault
      by (auto simp: jump_checked_def split: prod.splits option.splits)
  next
    case (MatchArm a t)
    thus ?thesis using go [of t] fall [OF legal(2)] fault
      by (auto simp: op_match_arm_def split: option.splits arm_result.splits)
  next
    case (WaitPoll m)
    have park: "related_next E f code lines (Go (e ! p) hs fr) (Go p (map_handlers mp hs) fr)" for fr
      using legal idx [of p] p mp e by (intro related_Go) auto
    show ?thesis using WaitPoll go fault park
      by (auto simp: op_wait_poll_def split: wait_result.splits option.splits)
  next
    case (PushHandler t)
    thus ?thesis using fall [of "(length (fr_stack fr), t) # hs" fr] legal(2) tg [of t] by simp
  next
    case PopHandler
    thus ?thesis using fall [of "drop 1 hs" fr] legal(2) by (auto dest: in_set_dropD)
  qed (use go fall [OF legal(2)] in \<open>auto simp: jump_if_def split: list.splits\<close>)
qed

lemma run_straight:
  assumes "lo < hi" "hi \<le> length code" "length lines = length code"
    and "\<And>j. lo \<le> j \<Longrightarrow> j < hi \<Longrightarrow> straight (code ! j)"
  shows "\<exists>k. iterate (dispatch E code (map f lines)) (Suc k) \<lparr>c_ip = lo, c_handlers = hs, c_frame = fr\<rparr>
             = settle E (hi - 1) hs (exec_seq E (src_ops f code lines lo hi) fr)"
  using assms
proof (induction "hi - lo" arbitrary: lo fr)
  case 0
  thus ?case by simp
next
  case (Suc d)
  let ?D = "dispatch E code (map f lines)" and ?c = "\<lparr>c_ip = lo, c_handlers = hs, c_frame = fr\<rparr>"
  have ops: "src_ops f code lines lo hi = (code ! lo, f (lines ! lo)) # src_ops f code lines (Suc lo) hi"
    using Suc.prems by (simp add: src_ops_def upt_conv_Cons)
  have st: "straight (code ! lo)" using Suc.prems by simp
  have disp: "?D ?c = (case exec_op E (code ! lo) (f (lines ! lo)) fr of Some x \<Rightarrow> settle E lo hs x
      | None \<Rightarrow> exec_control E (code ! lo) lo (f (lines ! lo)) hs fr)"
    using Suc.prems by (simp add: dispatch_def step_def)
  show ?case
  proof (rule straight_outcome [OF st, of E "f (lines ! lo)" fr])
    fix fr' assume x: "exec_op E (code ! lo) (f (lines ! lo)) fr = Some (Next fr')"
    hence d: "?D ?c = Inl \<lparr>c_ip = Suc lo, c_handlers = hs, c_frame = fr'\<rparr>"
      using disp by (simp add: settle_def)
    show ?thesis
    proof (cases "Suc lo < hi")
      case True
      obtain k where "iterate ?D (Suc k) \<lparr>c_ip = Suc lo, c_handlers = hs, c_frame = fr'\<rparr>
          = settle E (hi - 1) hs (exec_seq E (src_ops f code lines (Suc lo) hi) fr')"
        using Suc.hyps(1) [of "Suc lo" fr', OF _ True Suc.prems(2,3)] Suc.hyps(2) Suc.prems(4) by fastforce
      hence "iterate ?D (Suc (Suc k)) ?c = settle E (hi - 1) hs (exec_seq E (src_ops f code lines lo hi) fr)"
        using d x by (simp add: ops)
      thus ?thesis by blast
    next
      case False
      hence "hi = Suc lo" using Suc.prems by simp
      hence "iterate ?D (Suc 0) ?c = settle E (hi - 1) hs (exec_seq E (src_ops f code lines lo hi) fr)"
        using d x by (simp add: ops src_ops_def settle_def)
      thus ?thesis by blast
    qed
  next
    fix e fr' assume x: "exec_op E (code ! lo) (f (lines ! lo)) fr = Some (Fault e fr')"
    hence "iterate ?D (Suc 0) ?c = settle E (hi - 1) hs (exec_seq E (src_ops f code lines lo hi) fr)"
      using disp by (simp add: ops settle_def split: sum.splits)
    thus ?thesis by blast
  next
    assume x: "exec_op E (code ! lo) (f (lines ! lo)) fr = Some Panic"
    hence "iterate ?D (Suc 0) ?c = settle E (hi - 1) hs (exec_seq E (src_ops f code lines lo hi) fr)"
      using disp by (simp add: ops settle_def)
    thus ?thesis by blast
  qed
qed

lemma dispatch_related:
  assumes rel: "related E f code lines c c'"
    and opt: "optimize (env_f64 E) code lines = (code', lines')"
  shows "\<exists>k. related_next E f code lines (iterate (dispatch E code (map f lines)) (Suc k) c)
               (dispatch E code' (map f lines') c')"
proof -
  define st where "st = walk (env_f64 E) code lines (length code)"
  define e where "e = ends (length code) st"
  define mp where "mp = final_map (env_f64 E) code lines"
  have legal: "legal_input f code lines" "\<forall>h \<in> set (c_handlers c). is_target code (snd h)"
    and c': "c_ip c' = mp ! c_ip c" "c_frame c' = c_frame c" "c_handlers c' = map_handlers mp (c_handlers c)"
    and ip: "c_ip c \<in> set e"
    using rel by (simp_all add: related_def Let_def mp_def e_def st_def)
  note walk = final_walk [OF legal(1), where E = E, folded st_def, folded e_def]
  have lens: "length lines = length code" using legal(1) by (simp add: legal_input_def)
  have code': "code' = map (relocate mp) (o_out st)" "lines' = o_lines st"
    using opt lens by (auto simp: optimize_def Let_def st_def mp_def final_map_def split: if_splits)
  obtain p where p: "p < length e" "c_ip c = e ! p" using ip by (auto simp: in_set_conv_nth)
  hence p': "c_ip c' = p" using c'(1) walk(7) by (simp add: mp_def)
  show ?thesis
  proof (cases "p < length (o_out st)")
    case False
    hence "c_ip c = length code" using p walk(3,4) by (metis less_SucE)
    hence "iterate (dispatch E code (map f lines)) (Suc 0) c = Inr Panicked"
      by (simp add: dispatch_def)
    moreover have "dispatch E code' (map f lines') c' = Inr Panicked"
      using False p' by (simp add: dispatch_def code')
    ultimately show ?thesis using related_Inr by metis
  next
    case True
    let ?o = "o_out st ! p" and ?sp = "f (o_lines st ! p)"
    let ?hs = "c_handlers c" and ?fr = "c_frame c"
    have blk: "block E f code lines (e ! p) (e ! Suc p) ?o (o_lines st ! p)" by (rule walk(6) [OF True])
    have sucp: "Suc p < length e" using True walk(3) by simp
    have hi: "e ! Suc p \<le> length code"
    proof (cases "Suc p = length (o_out st)")
      case False
      thus ?thesis using sorted_ends [OF walk(1), of "Suc p" "length (o_out st)"] True walk(3,4) by simp
    qed (simp add: walk(4))
    have lo: "e ! p < e ! Suc p" using blk by (simp add: block_def)
    have tgt: "dispatch E code' (map f lines') c' = step E (relocate mp ?o) p ?sp (map_handlers mp ?hs) ?fr"
      using True p' c' walk(5) by (simp add: dispatch_def code')
    show ?thesis
    proof (cases "straight ?o")
      case str: True
      obtain x where x: "exec_op E ?o ?sp ?fr = Some x" "\<And>fr. x \<noteq> Again fr"
        by (rule straight_outcome [OF str, of E ?sp ?fr]) auto
      have seq: "exec_seq E (src_ops f code lines (e ! p) (e ! Suc p)) ?fr = x"
        using block_straight(1) [OF blk str, of ?fr] x(1) by simp
      have c: "c = \<lparr>c_ip = e ! p, c_handlers = ?hs, c_frame = ?fr\<rparr>" using p(2) by (cases c) simp
      obtain k where "iterate (dispatch E code (map f lines)) (Suc k) c = settle E (e ! Suc p - 1) ?hs x"
        using run_straight [OF lo hi lens block_straight(2) [OF blk str], of E f ?hs ?fr]
        unfolding seq c [symmetric] by blast
      moreover have "related_next E f code lines (settle E (e ! Suc p - 1) ?hs x) (settle E p (map_handlers mp ?hs) x)"
        using lo x(2) by (intro related_settle [OF legal mp_def e_def [unfolded st_def] sucp]) auto
      moreover have "dispatch E code' (map f lines') c' = settle E p (map_handlers mp ?hs) x"
        using tgt x(1) by (simp add: step_def)
      ultimately show ?thesis by metis
    next
      case False
      hence single: "e ! Suc p = Suc (e ! p)" "?o = code ! (e ! p)" "o_lines st ! p = lines ! (e ! p)"
        using blk by (auto simp: block_def)
      have "dispatch E code (map f lines) c = step E ?o (e ! p) ?sp ?hs ?fr"
        using p(2) hi single lens by (simp add: dispatch_def)
      moreover have "related_next E f code lines (step E ?o (e ! p) ?sp ?hs ?fr)
          (step E (relocate mp ?o) p ?sp (map_handlers mp ?hs) ?fr)"
        unfolding step_def
        using related_settle [OF legal mp_def e_def [unfolded st_def] sucp, of "e ! p"] single
          related_control [OF legal mp_def e_def [unfolded st_def] sucp single(1), of ?o] hi
        by (auto split: option.splits)
      ultimately show ?thesis using tgt iterate_one by metis
    qed
  qed
qed

lemma related_next_iff:
  "related_next E f code lines x (Inr r) \<longleftrightarrow> x = Inr r"
  "related_next E f code lines x (Inl c') \<longleftrightarrow> (\<exists>c. x = Inl c \<and> related E f code lines c c')"
  by (cases x; auto simp: related_next_def)+

interpretation peephole: simulation "dispatch E code (map f lines)"
    "dispatch E (fst (optimize (env_f64 E) code lines)) (map f (snd (optimize (env_f64 E) code lines)))"
    "related E f code lines" for E :: "('l, 'r) env" and f code lines
proof
  fix c c' r
  assume "related E f code lines c c'"
    and "dispatch E (fst (optimize (env_f64 E) code lines)) (map f (snd (optimize (env_f64 E) code lines))) c' = Inr r"
  thus "\<exists>k. iterate (dispatch E code (map f lines)) (Suc k) c = Inr r"
    using dispatch_related [of E f code lines c c' "fst (optimize (env_f64 E) code lines)" "snd (optimize (env_f64 E) code lines)"]
    by (simp add: related_next_iff del: iterate.simps)
next
  fix c c' c2
  assume "related E f code lines c c'"
    and "dispatch E (fst (optimize (env_f64 E) code lines)) (map f (snd (optimize (env_f64 E) code lines))) c' = Inl c2"
  thus "\<exists>k s'. iterate (dispatch E code (map f lines)) (Suc k) c = Inl s' \<and> related E f code lines s' c2"
    using dispatch_related [of E f code lines c c' "fst (optimize (env_f64 E) code lines)" "snd (optimize (env_f64 E) code lines)"]
    by (simp add: related_next_iff del: iterate.simps)
qed

definition entry_config :: "'r vframe \<Rightarrow> 'r config" where
  "entry_config fr = \<lparr>c_ip = 0, c_handlers = [], c_frame = fr\<rparr>"

lemma related_entry:
  "legal_input f code lines \<Longrightarrow> related E f code lines (entry_config fr) (entry_config fr)"
proof -
  assume legal: "legal_input f code lines"
  note walk = final_walk [OF legal, where E = E]
  have "0 \<in> set (ends (length code) (walk (env_f64 E) code lines (length code)))"
    using walk(2,3) nth_mem [of 0 "ends (length code) (walk (env_f64 E) code lines (length code))"] by simp
  moreover have "final_map (env_f64 E) code lines ! 0 = 0" using walk(2) walk(7) [of 0] walk(3) by simp
  ultimately show ?thesis using legal by (simp add: related_def entry_config_def map_handlers_def)
qed

lemma optimize_runs:
  assumes "legal_input f code lines" "optimize (env_f64 E) code lines = (code', lines')"
  shows "runs_to E code (map f lines) (entry_config fr) r \<longleftrightarrow> runs_to E code' (map f lines') (entry_config fr) r"
  using peephole.same_results [OF related_entry [OF assms(1), of E fr], of r] assms(2)
  by (simp add: runs_to_stops)

lemma relocate_targets:
  "targets (relocate mp oper) = map (\<lambda>t. mp ! t) (targets oper)"
  by (cases oper) (auto split: option.splits)

lemma window_targets:
  assumes "window F win v"
  shows "targets v = []" using assms by (cases rule: window.cases) simp_all

text \<open>Every output entry that carries targets is a copied source instruction.\<close>

lemma output_targets:
  fixes E :: "('l, 'r) env" and f :: "span \<Rightarrow> 'l"
  assumes legal: "legal_input f code lines"
    and v: "v \<in> set (o_out (walk (env_f64 E) code lines (length code)))" and t: "t \<in> set (targets v)"
  shows "is_target code t"
proof -
  let ?st = "walk (env_f64 E) code lines (length code)"
  let ?e = "ends (length code) ?st"
  note walk = final_walk [OF legal, where E = E]
  obtain p where p: "p < length (o_out ?st)" "v = o_out ?st ! p" using v by (auto simp: in_set_conv_nth)
  have "\<not> straight v" using t by (cases v) auto
  hence "v = code ! (?e ! p)" "?e ! Suc p = Suc (?e ! p)" using walk(6) [OF p(1)] p(2) by (auto simp: block_def)
  moreover have "?e ! p < length code"
    using sorted_ends [OF walk(1), of p "length (o_out ?st)"] p(1) walk(3,4) by simp
  ultimately have "v \<in> set code" by simp
  thus ?thesis using t legal by (auto simp: legal_input_def is_target_def)
qed

lemma optimize_wf:
  fixes f :: "span \<Rightarrow> 'l"
  assumes legal: "legal_input f code lines" and opt: "optimize F code lines = (code', lines')"
  shows "length lines' = length code'" "length code' \<le> length code"
    and "\<forall>oper \<in> set code'. \<forall>t \<in> set (targets oper). t \<le> length code'"
proof -
  define E :: "('l, unit) env" where "E = \<lparr>env_f64 = F, env_f64_of_int = undefined, env_cmp_int_f64 = undefined,
    env_cmp_f64 = undefined, env_type_name = undefined, env_obj_arith = undefined, env_obj_compare = undefined,
    env_obj_neg = undefined, env_plain = undefined, env_match_arm = undefined, env_wait = undefined,
    env_checkpoint = undefined, env_halting = undefined, env_caught = undefined\<rparr>"
  have F: "env_f64 E = F" by (simp add: E_def)
  define st where "st = walk F code lines (length code)"
  define e where "e = ends (length code) st"
  note walk = final_walk [OF legal, where E = E, unfolded F, folded st_def, folded e_def]
  have code': "code' = map (relocate (final_map F code lines)) (o_out st)" "lines' = o_lines st"
    using opt legal by (auto simp: optimize_def Let_def st_def final_map_def legal_input_def split: if_splits)
  show "length lines' = length code'" using walk(5) by (simp add: code')
  have "p \<le> e ! p" if "p < length e" for p
    using that
  proof (induction p)
    case (Suc p)
    thus ?case using sorted_ends [OF walk(1), of p "Suc p"] by simp
  qed simp
  from this [of "length (o_out st)"] show "length code' \<le> length code" using walk(3,4) by (simp add: code')
  show "\<forall>oper \<in> set code'. \<forall>t \<in> set (targets oper). t \<le> length code'"
  proof (intro ballI)
    fix oper t assume "oper \<in> set code'" "t \<in> set (targets oper)"
    then obtain v s where v: "v \<in> set (o_out st)" "s \<in> set (targets v)" "t = final_map F code lines ! s"
      by (auto simp: code' relocate_targets)
    hence "s \<in> set e" using output_targets [OF legal, of v E s] walk(8) by (simp add: F st_def)
    then obtain q where "q < length e" "s = e ! q" by (auto simp: in_set_conv_nth)
    thus "t \<le> length code'" using walk(3) walk(7) [of q] v(3) by (simp add: code' less_Suc_eq_le)
  qed
qed

subsection \<open>Properties\<close>

lemma legal_unlocated:
  "length lines = length code \<Longrightarrow> \<forall>oper \<in> set code. \<forall>t \<in> set (targets oper). t \<le> length code
   \<Longrightarrow> legal_input (\<lambda>_. ()) code lines"
  by (simp add: legal_input_def locs_agree_def)

lemma map_unit: "map (\<lambda>_. ()) xs = replicate (length xs) ()"
  by (induction xs) auto

text \<open>C1. The peephole pass preserves behaviour: with source locations left out, a frame that runs the
  optimized code stops with a result exactly when the same frame running the original code stops with
  that result (a returned value, a raised error or a panic), for every environment; in particular one
  terminates if and only if the other does.\<close>

theorem optimize_preserves_behaviour:
  fixes E :: "(unit, 'r) env"
  assumes "length lines = length code"
    and "\<forall>oper \<in> set code. \<forall>t \<in> set (targets oper). t \<le> length code"
    and "optimize (env_f64 E) code lines = (code', lines')"
  shows "runs_to E code (replicate (length code) ()) (entry_config fr) r \<longleftrightarrow>
         runs_to E code' (replicate (length code') ()) (entry_config fr) r"
proof -
  have legal: "legal_input (\<lambda>_. ()) code lines" using assms by (intro legal_unlocated)
  show ?thesis
    using optimize_runs [OF legal assms(3), of fr r] optimize_wf(1) [OF legal assms(3)] assms(1)
    by (simp add: map_unit)
qed

text \<open>With source locations kept, the pass preserves behaviour, the spans of raised errors included,
  whenever each addition that is stored back at once has the span of its store.\<close>

theorem optimize_preserves_spans:
  fixes E :: "(span, 'r) env"
  assumes "length lines = length code"
    and "\<forall>oper \<in> set code. \<forall>t \<in> set (targets oper). t \<le> length code"
    and "\<forall>i slot. Suc i < length code \<longrightarrow> plus_op (code ! i) \<longrightarrow> code ! Suc i = SetLocal slot
           \<longrightarrow> lines ! i = lines ! Suc i"
    and "optimize (env_f64 E) code lines = (code', lines')"
  shows "runs_to E code lines (entry_config fr) r \<longleftrightarrow> runs_to E code' lines' (entry_config fr) r"
proof -
  have "legal_input id code lines" using assms by (auto simp: legal_input_def locs_agree_def)
  thus ?thesis using optimize_runs [of id code lines E code' lines' fr r] assms(4) by simp
qed

text \<open>C38. The output is well formed: the span table stays parallel to the code, the code does not grow,
  and every relocated target is a position of the output or its end.\<close>

theorem optimize_wellformed:
  assumes "length lines = length code"
    and "\<forall>oper \<in> set code. \<forall>t \<in> set (targets oper). t \<le> length code"
    and "optimize F code lines = (code', lines')"
  shows "length lines' = length code' \<and> length code' \<le> length code \<and>
         (\<forall>oper \<in> set code'. \<forall>t \<in> set (targets oper). t \<le> length code')"
  using optimize_wf [OF legal_unlocated [OF assms(1,2)] assms(3)] by blast

subsection \<open>Concrete runs\<close>

definition demo_code :: "op list" where
  "demo_code = [ConstInt 2, ConstInt 3, Add, Jump 5, Pop, SetLocal 0, GetLocal 0, ConstInt 1, Add,
                SetLocal 0, GetLocal 0, Plain Return]"

definition demo_span :: "nat \<Rightarrow> span" where
  "demo_span n = \<lparr>sp_line = of_nat n, sp_col = 1, sp_file = 0\<rparr>"

definition demo_lines :: "span list" where
  "demo_lines = map demo_span [1, 1, 1, 2, 3, 4, 5, 5, 5, 5, 6, 6]"

definition demo_frame :: "unit vframe" where
  "demo_frame = \<lparr>fr_locals = [VNil], fr_stack = [], fr_argc = 0, fr_rest = ()\<rparr>"

abbreviation (input) demo_opt :: "op list \<times> span list" where
  "demo_opt \<equiv> optimize first_f64_ops demo_code demo_lines"

lemma demo_length: "length (fst demo_opt) = 7"
  by code_simp

lemma demo_legal: "length demo_lines = length demo_code"
  "\<forall>oper \<in> set demo_code. \<forall>t \<in> set (targets oper). t \<le> length demo_code"
  by (simp_all add: demo_lines_def demo_code_def)

lemma demo_env_f64: "env_f64 demo_env = first_f64_ops"
  by (simp add: demo_env_def)

lemma demo_run: "run_until (demo_env :: (unit, unit) env) (fst demo_opt) (replicate 7 ()) 6 (entry_config demo_frame)
   = Inr (Returned (VInt 6) ())"
  by code_simp

lemma demo_run_spans: "run_until (demo_env :: (span, unit) env) (fst demo_opt) (snd demo_opt) 6 (entry_config demo_frame)
   = Inr (Returned (VInt 6) ())"
  by code_simp

theorem optimize_preserves_behaviour_witness:
  "runs_to (demo_env :: (unit, unit) env) demo_code (replicate (length demo_code) ()) (entry_config demo_frame)
     (Returned (VInt 6) ())"
proof -
  have "runs_to (demo_env :: (unit, unit) env) (fst demo_opt) (replicate (length (fst demo_opt)) ())
      (entry_config demo_frame) (Returned (VInt 6) ())"
    unfolding runs_to_def demo_length using demo_run by blast
  thus ?thesis
    using optimize_preserves_behaviour [OF demo_legal, of demo_env "fst demo_opt" "snd demo_opt"]
    by (simp add: demo_env_f64)
qed

theorem optimize_preserves_spans_witness:
  "runs_to (demo_env :: (span, unit) env) demo_code demo_lines (entry_config demo_frame) (Returned (VInt 6) ())"
proof -
  have "runs_to (demo_env :: (span, unit) env) (fst demo_opt) (snd demo_opt)
      (entry_config demo_frame) (Returned (VInt 6) ())"
    unfolding runs_to_def using demo_run_spans by blast
  moreover have "\<forall>i slot. Suc i < length demo_code \<longrightarrow> plus_op (demo_code ! i) \<longrightarrow> demo_code ! Suc i = SetLocal slot
       \<longrightarrow> demo_lines ! i = demo_lines ! Suc i"
    by (auto simp: demo_code_def demo_lines_def plus_op_def less_Suc_eq)
  ultimately show ?thesis
    using optimize_preserves_spans [OF demo_legal, of demo_env "fst demo_opt" "snd demo_opt"]
    by (simp add: demo_env_f64)
qed

theorem optimize_wellformed_witness:
  "length (snd demo_opt) = 7 \<and> list_all (\<lambda>oper. list_all (\<lambda>t. t \<le> 7) (targets oper)) (fst demo_opt)"
  using optimize_wellformed [OF demo_legal, of first_f64_ops "fst demo_opt" "snd demo_opt"]
  by (simp add: demo_length list_all_iff)


end
