(* ===== verification/VmInvariants.thy ===== *)
theory VmInvariants
  imports VmCore
begin

text \<open>
  What the machine of \<open>VmCore\<close> keeps and promises: one representation per integer (inline within
  62 bits, boxed outside), exact integer arithmetic with faults on overflow, and quickened
  instructions that do what the generic ones do.
\<close>

subsection \<open>One representation per integer\<close>

definition inline :: "i64 \<Rightarrow> bool" where
  "inline n \<longleftrightarrow> int_min_inline \<le>s n \<and> n \<le>s int_max_inline"

fun canonical :: "vm_value \<Rightarrow> bool" where
  "canonical (VInt n) = inline n"
| "canonical (VBig n) = (\<not> inline n)"
| "canonical _ = True"

definition canonical_frame :: "'r vframe \<Rightarrow> bool" where
  "canonical_frame fr \<longleftrightarrow> list_all canonical (fr_locals fr) \<and> list_all canonical (fr_stack fr)"

fun canonical_outcome :: "('l, 'r) outcome \<Rightarrow> bool" where
  "canonical_outcome (Next fr) = canonical_frame fr"
| "canonical_outcome (Fault e fr) = canonical_frame fr"
| "canonical_outcome (Again fr) = canonical_frame fr"
| "canonical_outcome (Escape v fr) = (canonical v \<and> canonical_frame fr)"
| "canonical_outcome (Done v fr) = canonical v"
| "canonical_outcome Panic = True"

fun canonical_result :: "(vm_value, 'l runtime_error) result \<times> 'r \<Rightarrow> bool" where
  "canonical_result (Inr v, r) = canonical v"
| "canonical_result (Inl e, r) = True"

fun canonical_wait :: "('l, 'r) wait_result \<Rightarrow> bool" where
  "canonical_wait (WaitArm i fr) = canonical_frame fr"
| "canonical_wait (WaitElse fr) = canonical_frame fr"
| "canonical_wait (WaitFault e fr) = canonical_frame fr"
| "canonical_wait (WaitPark fr) = canonical_frame fr"

fun canonical_arm :: "'r arm_result option \<Rightarrow> bool" where
  "canonical_arm (Some (ArmMatched fr)) = canonical_frame fr"
| "canonical_arm _ = True"

fun canonical_next :: "('l, 'r) vm_next \<Rightarrow> bool" where
  "canonical_next (Inl c) = canonical_frame (c_frame c)"
| "canonical_next (Inr (Returned v r)) = canonical v"
| "canonical_next (Inr _) = True"

text \<open>Everything the environment computes from canonical values is canonical.\<close>

definition canonical_env :: "('l, 'r) env \<Rightarrow> bool" where
  "canonical_env E \<longleftrightarrow>
     (\<forall>oper l r sp st. canonical l \<longrightarrow> canonical r \<longrightarrow>
        canonical_result (env_obj_arith E oper l r sp st) \<and> canonical_result (env_obj_compare E oper l r sp st)) \<and>
     (\<forall>v sp st. canonical v \<longrightarrow> canonical_result (env_obj_neg E v sp st)) \<and>
     (\<forall>p sp fr. canonical_frame fr \<longrightarrow> canonical_outcome (env_plain E p sp fr)) \<and>
     (\<forall>a sp fr. canonical_frame fr \<longrightarrow> canonical_arm (env_match_arm E a sp fr)) \<and>
     (\<forall>n s b sp fr. canonical_frame fr \<longrightarrow> canonical_wait (env_wait E n s b sp fr)) \<and>
     (\<forall>e r. canonical (fst (env_caught E e r)))"

lemma canonical_make_int [simp]: "canonical (make_int n)"
  by (simp add: make_int_def inline_def)

lemma canonical_push [simp]: "canonical_frame (push v fr) \<longleftrightarrow> canonical v \<and> canonical_frame fr"
  by (auto simp: canonical_frame_def push_def)

lemma canonical_pop: "canonical_frame fr \<Longrightarrow> fr_stack fr = v # s
    \<Longrightarrow> canonical v \<and> canonical_frame (fr\<lparr>fr_stack := s\<rparr>)"
  by (simp add: canonical_frame_def)

lemma canonical_rest [simp]: "canonical_frame (fr\<lparr>fr_rest := r\<rparr>) = canonical_frame fr"
  by (simp add: canonical_frame_def)

lemma canonical_local: "canonical_frame fr \<Longrightarrow> local fr slot = Some v \<Longrightarrow> canonical v"
  by (auto simp: canonical_frame_def local_def list_all_length split: if_splits)

lemma canonical_set_local: "canonical_frame fr \<Longrightarrow> canonical v \<Longrightarrow> canonical_frame (set_local slot v fr)"
  by (auto simp: canonical_frame_def set_local_def list_all_iff dest!: set_update_subset_insert [THEN subsetD])

lemma canonical_push_int [simp]: "canonical_frame fr \<Longrightarrow> canonical_outcome (push_int x fr)"
  by (auto simp: push_int_def split: option.splits sum.splits)

lemma canonical_push_result: "canonical_frame fr \<Longrightarrow> canonical_result x \<Longrightarrow> canonical_outcome (push_result x fr)"
  by (auto simp: push_result_def split: prod.splits sum.splits)

lemma canonical_bin_kind:
  assumes "canonical_env E" "canonical_frame fr"
  shows "canonical_outcome (run_bin_kind E kind sp fr)"
proof -
  have "canonical_outcome (arith E oper sp fr)" "canonical_outcome (compare_op E oper sp fr)" for oper
    using assms
    by (auto simp: arith_def compare_op_def Let_def canonical_env_def canonical_frame_def
        intro!: canonical_push_result canonical_push_int split: list.splits option.splits prod.splits)
  thus ?thesis by (simp add: run_bin_kind_def)
qed

lemma canonical_fast: "canonical_frame fr \<Longrightarrow> canonical_outcome (fast_int_bin x y kind sp fr)"
  by (simp add: fast_int_bin_def)

lemma canonical_inc:
  assumes E: "canonical_env E" and fr: "canonical_frame fr"
  shows "canonical_outcome (op_inc_local E slot delta sp fr)"
proof (cases "local fr slot")
  case (Some cur)
  have "canonical cur" using canonical_local [OF fr Some] .
  hence "canonical_outcome (arith E B_Add sp (push (make_int delta) (push cur fr)))"
    using canonical_bin_kind [OF E, of "push (make_int delta) (push cur fr)" K_Add sp] fr
    by (simp add: run_bin_kind_def)
  thus ?thesis using Some fr
    by (auto simp: op_inc_local_def canonical_set_local split: option.splits sum.splits vm_value.splits outcome.splits list.splits
        dest: canonical_pop intro!: canonical_set_local)
qed (simp add: op_inc_local_def)

lemma canonical_exec_op:
  assumes E: "canonical_env E" and fr: "canonical_frame fr" and x: "exec_op E oper sp fr = Some x"
  shows "canonical_outcome x"
proof -
  note bin = canonical_bin_kind [OF E]
  have neg: "canonical_result y" if "neg_value E v sp r = Some y" "canonical v" for v r y
    using that E by (auto simp: neg_value_def canonical_env_def split: option.splits sum.splits vm_value.splits)
  show ?thesis
  proof (cases oper)
    case (BinLocalLocal a b k)
    thus ?thesis using x fr
      by (auto simp: op_bin_local_local_def canonical_fast canonical_local bin split: option.splits)
  next
    case (BinLocalConst a v k)
    thus ?thesis using x fr
      by (auto simp: op_bin_local_const_def canonical_fast canonical_local bin split: option.splits)
  next
    case (IncLocal slot d)
    thus ?thesis using x canonical_inc [OF E fr] by auto
  next
    case (Plain p)
    thus ?thesis using x fr E by (auto simp: canonical_env_def)
  next
    case Neg
    thus ?thesis using x fr neg
      by (auto split: list.splits option.splits dest: canonical_pop intro!: canonical_push_result)
  next
    case OpNot
    thus ?thesis using x fr by (auto split: list.splits option.splits dest: canonical_pop)
  next
    case (SetLocal slot)
    thus ?thesis using x fr by (auto split: list.splits if_splits dest: canonical_pop intro!: canonical_set_local)
  next
    case Pop
    thus ?thesis using x fr by (auto split: list.splits dest: canonical_pop)
  next
    case (GetLocal slot)
    thus ?thesis using x fr by (auto simp: canonical_local split: option.splits)
  qed (use x fr bin in auto)
qed

lemma canonical_handler: "canonical v \<Longrightarrow> canonical_frame fr \<Longrightarrow> canonical_next (enter_handler v h hs fr)"
  by (auto simp: enter_handler_def canonical_frame_def truncate_to_def list_all_iff dest: in_set_dropD)

lemma canonical_fault: "canonical_env E \<Longrightarrow> canonical_frame fr \<Longrightarrow> canonical_next (on_step_fault E e hs fr)"
  by (auto simp: on_step_fault_def canonical_env_def intro!: canonical_handler split: list.splits prod.splits)
     (metis fst_conv)

lemma canonical_settle:
  assumes "canonical_env E" "canonical_outcome x" shows "canonical_next (settle E ip hs x)"
  using assms
  by (cases x) (auto simp: settle_def escape_def canonical_fault intro!: canonical_handler split: list.splits)

lemma canonical_control:
  assumes E: "canonical_env E" and fr: "canonical_frame fr"
  shows "canonical_next (exec_control E oper ip sp hs fr)"
proof -
  note fault = canonical_fault [OF E]
  show ?thesis
  proof (cases oper)
    case (Jump t)
    thus ?thesis using fr fault by (auto simp: jump_checked_def split: prod.splits option.splits)
  next
    case (MatchArm a t)
    have "canonical_arm (env_match_arm E a sp fr)" using E fr by (simp add: canonical_env_def)
    thus ?thesis using MatchArm fr fault
      by (auto simp: op_match_arm_def split: option.splits arm_result.splits)
  next
    case (WaitPoll m)
    have "canonical_wait (env_wait E (wm_n m) (is_send m) (else_target m \<noteq> None) sp fr)"
      using E fr by (simp add: canonical_env_def)
    thus ?thesis using WaitPoll fault
      by (auto simp: op_wait_poll_def split: wait_result.splits option.splits)
  qed (use fr in \<open>auto simp: jump_if_def dest: canonical_pop split: list.splits\<close>)
qed

lemma canonical_dispatch:
  assumes "canonical_env E" "canonical_frame (c_frame c)"
  shows "canonical_next (dispatch E code lines c)"
  using assms
  by (auto simp: dispatch_def step_def canonical_control split: option.splits
      intro!: canonical_settle canonical_exec_op)

lemma truncate_leftover:
  assumes "n + 2 \<le> length s"
  shows "truncate_to n s = truncate_to n (drop 2 s)"
proof -
  have "length s - n = length s - 2 - n + 2" using assms by simp
  thus ?thesis unfolding truncate_to_def by (simp only: drop_drop length_drop)
qed

lemma both_inline_iff: "both_inline s = Some (x, y) \<longleftrightarrow> (\<exists>s'. s = VInt y # VInt x # s')"
  by (cases s rule: both_inline.cases) auto

lemma fault_leftover:
  assumes "hs \<noteq> [] \<Longrightarrow> fst (hd hs) + 2 \<le> length (fr_stack fr)"
  shows "on_step_fault E e hs fr = on_step_fault E e hs (fr\<lparr>fr_stack := drop 2 (fr_stack fr)\<rparr>)"
  using assms
  by (cases hs) (auto simp: on_step_fault_def enter_handler_def truncate_leftover [of _ "fr_stack fr"] split: prod.splits)

lemma run_bin_kind_short: "length (fr_stack fr) < 2 \<Longrightarrow> run_bin_kind E kind sp fr = Panic"
  by (auto simp: run_bin_kind_def arith_def compare_op_def split: list.splits)

subsection \<open>Properties\<close>

text \<open>C22. An integer has one representation for the whole run: if the entry frame is canonical (every
  inline int within 62 bits, every boxed one outside) and the environment returns canonical values, then
  so is every frame the machine reaches and every value it returns.\<close>

theorem run_until_canonical:
  assumes "canonical_env E" "canonical_frame (c_frame c)"
  shows "canonical_next (run_until E code lines k c)"
  using assms(2)
proof (induction k arbitrary: c)
  case (Suc k)
  show ?case
  proof (cases "dispatch E code lines c")
    case (Inl c')
    thus ?thesis using canonical_dispatch [OF assms(1) Suc.prems, of code lines] Suc.IH by simp
  next
    case (Inr r)
    thus ?thesis using canonical_dispatch [OF assms(1) Suc.prems, of code lines] by simp
  qed
qed simp

theorem run_until_canonical_witness:
  "canonical_next (run_until (demo_env :: (unit, unit) env)
     [ConstInt (push_bit 62 1 - 1), ConstInt 1, Add] (replicate 3 ()) 3
     \<lparr>c_ip = 0, c_handlers = [], c_frame = \<lparr>fr_locals = [], fr_stack = [], fr_argc = 0, fr_rest = ()\<rparr>\<rparr>)"
proof -
  have "canonical_env (demo_env :: (unit, unit) env)"
    by (auto simp: canonical_env_def demo_env_def canonical_frame_def split: list.splits)
  thus ?thesis by (rule run_until_canonical) (simp add: canonical_frame_def)
qed

text \<open>C27. Quickening is invisible: whatever its site's cell holds, the quickened instruction leaves the
  machine where the generic one does (the same next configuration, or the same stop), provided the
  innermost handler was installed below the two operands.\<close>

theorem q_arith_transparent:
  assumes "hs \<noteq> [] \<Longrightarrow> fst (hd hs) + 2 \<le> length (fr_stack fr)"
  shows "settle E ip hs (snd (q_arith E cell kind sp fr)) = settle E ip hs (run_bin_kind E kind sp fr)"
proof (cases "cell = Q_INT \<and> both_inline (fr_stack fr) \<noteq> None \<and> 2 \<le> length (fr_stack fr)")
  case False
  thus ?thesis by (cases cell) (auto simp: q_arith_def run_bin_kind_short split: option.splits)
next
  case True
  then obtain x y where xy: "both_inline (fr_stack fr) = Some (x, y)" by auto
  then obtain s where s: "fr_stack fr = VInt y # VInt x # s" by (auto simp: both_inline_iff)
  let ?fr = "fr\<lparr>fr_stack := drop 2 (fr_stack fr)\<rparr>"
  have gen: "run_bin_kind E kind sp fr = fast_int_bin x y kind sp ?fr"
    using run_bin_kind_ints [OF s, of x y] s by simp
  have same: "fr' = ?fr" if "fast_int_bin x y kind sp ?fr = Fault e fr'" for e fr'
    using that by (auto simp: fast_int_bin_def push_int_def split: if_splits option.splits sum.splits)
  show ?thesis
    using True xy same fault_leftover [OF assms]
    by (auto simp: gen q_arith_def settle_def split: outcome.splits)
qed

theorem q_arith_transparent_witness:
  "settle demo_env 4 [(0, 9)] (snd (q_arith (demo_env :: (unit, unit) env) Q_INT K_Div ()
      \<lparr>fr_locals = [], fr_stack = [VInt 0, VInt 7], fr_argc = 0, fr_rest = ()\<rparr>))
   = settle demo_env 4 [(0, 9)] (run_bin_kind demo_env K_Div ()
      \<lparr>fr_locals = [], fr_stack = [VInt 0, VInt 7], fr_argc = 0, fr_rest = ()\<rparr>)"
  by (rule q_arith_transparent) simp

text \<open>Arithmetic on two ints, inline or boxed, is exact: the pushed value is the mathematical result
  when it fits 64 bits; otherwise the instruction raises the overflow error at its own location and
  never wraps.\<close>

theorem int_arith_exact:
  assumes "fr_stack fr = r # l # s" "int_val l = Some a" "int_val r = Some b"
    and "kind \<in> {K_Add, K_Sub, K_Mul}"
  shows "\<exists>n. math_binop (kind_op kind) (sint a) (sint b) = Some n \<and>
     run_bin_kind E kind sp fr =
       (if in_i64 n then Next (push (make_int (word_of_int n)) (fr\<lparr>fr_stack := s\<rparr>))
        else Fault (plain_err (''integer overflow in '' @ the (binary_protocol (kind_op kind))) sp)
                   (fr\<lparr>fr_stack := s\<rparr>))"
  using assms(4) run_bin_kind_ints [OF assms(1-3), of E kind sp]
  by (auto simp: fast_int_bin_def int_op_def int_binop_def ok_or_overflow_def push_int_def checked_def)

theorem int_arith_exact_witness:
  "run_bin_kind (demo_env :: (unit, unit) env) K_Add ()
     \<lparr>fr_locals = [], fr_stack = [VInt 1, VBig (push_bit 63 1 - 1)], fr_argc = 0, fr_rest = ()\<rparr>
   = Fault (plain_err ''integer overflow in Add'' ())
       \<lparr>fr_locals = [], fr_stack = [], fr_argc = 0, fr_rest = ()\<rparr>"
  using int_arith_exact [of "\<lparr>fr_locals = [], fr_stack = [VInt 1, VBig (push_bit 63 1 - 1)], fr_argc = 0, fr_rest = ()\<rparr>"
      "VInt 1" "VBig (push_bit 63 1 - 1)" "[]" "push_bit 63 1 - 1" 1 K_Add demo_env "()"]
  by (auto simp: in_i64_def i64_max_def split: if_splits)

end
