(* ===== verification/ValueTag.thy ===== *)
theory ValueTag
  imports VmCore
begin

text \<open>
  The tagged 8-byte word behind a value, \<^verbatim>\<open>src/src/vm/value.rs\<close>: an odd word is an inline int, the low
  three bits of an even one tell heap object, boxed float and immediate apart.
\<close>

type_synonym value_word = u64

datatype value_view = View_Int i64 | View_Bool bool | View_Nil | View_Obj u32

definition TAG_INT_BIT :: u64 where "TAG_INT_BIT = 1"
definition TAG_MASK :: u64 where "TAG_MASK = 0b111"
definition TAG_OBJ :: u64 where "TAG_OBJ = 0b000"
definition TAG_FLOAT :: u64 where "TAG_FLOAT = 0b010"
definition NIL :: u64 where "NIL = 0b00100"
definition FALSE :: u64 where "FALSE = 0b01100"
definition TRUE :: u64 where "TRUE = 0b10100"
definition UNINIT :: u64 where "UNINIT = 0b11100"

lemmas tag_defs = TAG_INT_BIT_def TAG_MASK_def TAG_OBJ_def TAG_FLOAT_def
  NIL_def FALSE_def TRUE_def UNINIT_def

definition v_int :: "i64 \<Rightarrow> value_word" where
  "v_int n = push_bit 1 n OR TAG_INT_BIT"

definition v_bool :: "bool \<Rightarrow> value_word" where
  "v_bool b = (if b then TRUE else FALSE)"

definition v_nil :: value_word where
  "v_nil = NIL"

definition v_uninit :: "u32 \<Rightarrow> value_word" where
  "v_uninit line = push_bit 5 (ucast line) OR UNINIT"

definition is_uninit :: "value_word \<Rightarrow> bool" where
  "is_uninit v \<longleftrightarrow> v AND 0b11111 = UNINIT"

definition uninit_line :: "value_word \<Rightarrow> u32" where
  "uninit_line v = ucast (drop_bit 5 v)"

definition v_obj :: "u32 \<Rightarrow> value_word" where
  "v_obj r = push_bit 3 (ucast r) OR TAG_OBJ"

definition v_float_ref :: "u32 \<Rightarrow> value_word" where
  "v_float_ref r = push_bit 3 (ucast r) OR TAG_FLOAT"

definition v_is_int :: "value_word \<Rightarrow> bool" where
  "v_is_int v \<longleftrightarrow> v AND TAG_INT_BIT = TAG_INT_BIT"

definition v_as_int_inline :: "value_word \<Rightarrow> i64 option" where
  "v_as_int_inline v = (if v_is_int v then Some (signed_drop_bit 1 v) else None)"

definition v_is_obj :: "value_word \<Rightarrow> bool" where
  "v_is_obj v \<longleftrightarrow> v AND TAG_MASK = TAG_OBJ"

definition v_is_float :: "value_word \<Rightarrow> bool" where
  "v_is_float v \<longleftrightarrow> v AND TAG_MASK = TAG_FLOAT"

definition v_as_gcref :: "value_word \<Rightarrow> u32" where
  "v_as_gcref v = ucast (drop_bit 3 v)"

definition v_as_obj :: "value_word \<Rightarrow> u32 option" where
  "v_as_obj v = (if v_is_obj v then Some (v_as_gcref v) else None)"

definition v_is_nil :: "value_word \<Rightarrow> bool" where
  "v_is_nil v \<longleftrightarrow> v = NIL"

definition v_as_bool :: "value_word \<Rightarrow> bool option" where
  "v_as_bool v = (if v = TRUE then Some True else if v = FALSE then Some False else None)"

definition v_child_gcref :: "value_word \<Rightarrow> u32 option" where
  "v_child_gcref v =
     (if v AND TAG_MASK = TAG_OBJ \<or> v AND TAG_MASK = TAG_FLOAT then Some (v_as_gcref v) else None)"

definition v_view :: "value_word \<Rightarrow> value_view" where
  "v_view v =
     (if v AND TAG_INT_BIT = TAG_INT_BIT then View_Int (signed_drop_bit 1 v)
      else if v = NIL then View_Nil
      else if v = TRUE then View_Bool True
      else if v = FALSE then View_Bool False
      else View_Obj (v_as_gcref v))"

subsection \<open>Bits\<close>

lemma shifted_bits:
  fixes r :: u32
  assumes "take_bit k x = x"
  shows "(push_bit k (ucast r :: u64) OR x) AND mask k = x"
    and "k + 32 \<le> 64 \<Longrightarrow> (ucast (drop_bit k (push_bit k (ucast r :: u64) OR x)) :: u32) = r"
proof -
  have x: "n < k" if "bit x n" for n
    using assms that by (metis bit_take_bit_iff)
  show "(push_bit k (ucast r :: u64) OR x) AND mask k = x"
    by (rule bit_word_eqI) (use x in \<open>auto simp: bit_simps\<close>)
  show "(ucast (drop_bit k (push_bit k (ucast r :: u64) OR x)) :: u32) = r" if "k + 32 \<le> 64"
    by (rule bit_word_eqI) (use x that in \<open>auto simp: bit_simps\<close>)
qed

lemma masks: "(1 :: u64) = mask 1" "(7 :: u64) = mask 3" "(31 :: u64) = mask 5"
  by (simp_all add: mask_eq_exp_minus_1)

lemma tag_of_ref:
  assumes "take_bit 3 t = t"
  shows "(push_bit 3 (ucast (r :: u32) :: u64) OR t) AND TAG_MASK = t"
    and "v_as_gcref (push_bit 3 (ucast r) OR t) = r"
  using shifted_bits [OF assms, of r] by (simp_all add: TAG_MASK_def masks v_as_gcref_def)

lemma low_bit_of_mask: "w AND 1 = (w AND 7) AND (1 :: u64)"
  by (simp add: and.assoc)

lemma v_int_alt: "v_int n = 2 * n + 1"
proof -
  have "push_bit 1 n + 1 = push_bit 1 n OR (1 :: i64)"
    by (rule disjunctive_add) (simp only: bit_push_bit_iff bit_1_iff, simp)
  thus ?thesis by (simp add: v_int_def TAG_INT_BIT_def mult.commute)
qed

lemma v_int_odd: "v_int n AND 1 = 1"
  by (rule bit_word_eqI) (auto simp: v_int_def TAG_INT_BIT_def bit_simps)

lemma inline_bounds:
  assumes "int_min_inline \<le>s n" "n \<le>s int_max_inline"
  shows "- (2 ^ 62) \<le> sint n \<and> sint n < 2 ^ 62"
proof -
  have "sint int_min_inline = - (2 ^ 62)" "sint int_max_inline = 2 ^ 62 - 1"
    by (simp_all add: int_min_inline_def int_max_inline_def)
  thus ?thesis using assms by (simp add: word_sle_eq)
qed

lemma v_int_shift:
  assumes "int_min_inline \<le>s n" "n \<le>s int_max_inline"
  shows "signed_drop_bit 1 (v_int n) = n"
proof -
  have b: "- (2 ^ 62) \<le> sint n" "sint n < 2 ^ 62" using inline_bounds [OF assms] by auto
  have "v_int n = word_of_int (2 * sint n + 1)" by (simp add: v_int_alt)
  moreover have "in_i64 (2 * sint n + 1)" using b by (simp add: in_i64_def i64_bounds)
  ultimately have "sint (v_int n) = 2 * sint n + 1" by (simp only: sint_word_of_int)
  hence "sint (signed_drop_bit 1 (v_int n)) = sint n"
    by (simp add: shr_sint)
  thus ?thesis by (simp add: i64_eq_iff)
qed

subsection \<open>Properties\<close>

text \<open>Inline ints round-trip: every integer of the 62-bit inline range is read back from its word,
  sign included, by the accessor and by the classification.\<close>

theorem value_int_roundtrip:
  assumes "int_min_inline \<le>s n" "n \<le>s int_max_inline"
  shows "v_as_int_inline (v_int n) = Some n \<and> v_view (v_int n) = View_Int n \<and> v_child_gcref (v_int n) = None"
proof -
  have "v_int n AND TAG_MASK \<noteq> TAG_OBJ" "v_int n AND TAG_MASK \<noteq> TAG_FLOAT"
    using v_int_odd [of n] low_bit_of_mask [of "v_int n"] by (auto simp: tag_defs)
  thus ?thesis using v_int_shift [OF assms] v_int_odd [of n]
    by (simp add: v_as_int_inline_def v_is_int_def v_view_def v_child_gcref_def TAG_INT_BIT_def)
qed

theorem value_int_roundtrip_witness: "v_as_int_inline (v_int (- 5)) = Some (- 5)"
  using value_int_roundtrip [of "- 5"] by (simp add: int_min_inline_def int_max_inline_def word_sle_eq)

text \<open>The tags do not overlap: a heap handle, a boxed-float handle, a bool, nil and the uninitialized
  marker are each recognised as themselves and as nothing else, and hand their payload back; only the two
  handle kinds are traced by the collector.\<close>

theorem value_tags_disjoint:
  "v_as_obj (v_obj r) = Some r \<and> v_view (v_obj r) = View_Obj r \<and> v_child_gcref (v_obj r) = Some r \<and>
   \<not> v_is_float (v_obj r) \<and>
   v_is_float (v_float_ref r) \<and> v_as_obj (v_float_ref r) = None \<and> v_view (v_float_ref r) = View_Obj r \<and>
   v_child_gcref (v_float_ref r) = Some r \<and>
   v_as_bool (v_bool b) = Some b \<and> v_view (v_bool b) = View_Bool b \<and> v_child_gcref (v_bool b) = None \<and>
   v_view v_nil = View_Nil \<and> v_is_nil v_nil \<and> v_child_gcref v_nil = None \<and>
   is_uninit (v_uninit line) \<and> uninit_line (v_uninit line) = line \<and> v_child_gcref (v_uninit line) = None \<and>
   \<not> is_uninit (v_obj r) \<and> \<not> is_uninit v_nil \<and> \<not> is_uninit (v_bool b)"
proof -
  have obj: "v_obj r AND TAG_MASK = TAG_OBJ" "v_as_gcref (v_obj r) = r"
    using tag_of_ref [of TAG_OBJ r] by (simp_all add: v_obj_def TAG_OBJ_def)
  have flt: "v_float_ref r AND TAG_MASK = TAG_FLOAT" "v_as_gcref (v_float_ref r) = r"
    using tag_of_ref [of TAG_FLOAT r] by (simp_all add: v_float_ref_def TAG_FLOAT_def)
  have un: "v_uninit line AND 31 = UNINIT" "uninit_line (v_uninit line) = line"
    using shifted_bits [of 5 UNINIT line] by (simp_all add: v_uninit_def UNINIT_def uninit_line_def masks)
  have un3: "v_uninit line AND TAG_MASK = 4"
    using arg_cong [OF un(1), of "\<lambda>w. w AND 7"] by (simp add: TAG_MASK_def UNINIT_def and.assoc)
  have low: "v_obj r AND 1 = 0" "v_float_ref r AND 1 = 0"
    using obj(1) flt(1) low_bit_of_mask [of "v_obj r"] low_bit_of_mask [of "v_float_ref r"]
    by (simp_all add: TAG_MASK_def TAG_OBJ_def TAG_FLOAT_def)
  have ne: "v_obj r \<noteq> NIL" "v_obj r \<noteq> TRUE" "v_obj r \<noteq> FALSE"
    "v_float_ref r \<noteq> NIL" "v_float_ref r \<noteq> TRUE" "v_float_ref r \<noteq> FALSE"
    using obj(1) flt(1) by (auto simp: tag_defs)
  have nun: "v_obj r AND 31 \<noteq> UNINIT"
  proof
    assume "v_obj r AND 31 = UNINIT"
    from arg_cong [OF this, of "\<lambda>w. w AND 7"] show False
      using obj(1) by (simp add: TAG_MASK_def TAG_OBJ_def UNINIT_def and.assoc)
  qed
  show ?thesis
    using obj flt un un3 low ne nun
    by (simp add: v_as_obj_def v_is_obj_def v_view_def v_child_gcref_def v_is_float_def v_as_bool_def
        v_bool_def v_is_nil_def v_nil_def is_uninit_def tag_defs)
qed

end
