(* ===== verification/WidthGate.thy ===== *)
theory WidthGate
  imports Prelude
begin

text \<open>
  The runner gate of \<^verbatim>\<open>src/src/vm/width.rs\<close>: at most \<open>cap\<close> threads hold a permit; the others queue
  for one in ticket order and sleep on one condition variable. The shared cells (\<^verbatim>\<open>held\<close>, \<^verbatim>\<open>waiting\<close>, the
  queue behind the lock, each thread's reserved ticket) and each thread's position inside a gate
  operation form the state. A step is one atomic access: a load, a compare-exchange, a
  lock-protected region without a wait in it, a sleep, a wake. Threads interleave at every step, a
  sleeper may wake without cause, and a waker may queue any thread at any time. Tickets are
  unbounded; the capacity is constant.
\<close>

text \<open>
  Where a thread is: outside the gate without and with a permit, after the load of \<^verbatim>\<open>waiting\<close> in the
  lock-free path of \<^verbatim>\<open>acquire_slot\<close> (\<open>Fast\<close>) and \<^verbatim>\<open>try_acquire\<close> (\<open>TryFast\<close>), before the lock, at the
  loop's check, between a failed check and the sleep, asleep, granted but still queued, about to
  notify, and the three points of \<^verbatim>\<open>release\<close> after the decrement.
\<close>

datatype pc =
    Idle | Fast nat | TryFast nat | WantLock | Check | SleepPre | Asleep | Granted nat | GrantNotify
  | Holding | Rel1 | Rel2 | Rel3 | CancelNotify bool

record gate =
  held :: nat
  waiting :: nat
  queue :: "nat list"
  next_ticket :: nat
  lock :: "nat option"
  ticket :: "nat \<Rightarrow> nat"
  pc_of :: "nat \<Rightarrow> pc"

subsection \<open>The operations\<close>

definition new_gate :: gate where
  "new_gate = \<lparr>held = 0, waiting = 0, queue = [], next_ticket = 0, lock = None,
     ticket = (\<lambda>_. 0), pc_of = (\<lambda>_. Idle)\<rparr>"

definition goto :: "nat \<Rightarrow> pc \<Rightarrow> gate \<Rightarrow> gate" where
  "goto t p g = g\<lparr>pc_of := (pc_of g)(t := p)\<rparr>"

text \<open>\<^verbatim>\<open>try_take(ahead)\<close>: the successful exchange; \<open>None\<close> is \<^verbatim>\<open>false\<close>.\<close>

definition try_take :: "nat \<Rightarrow> nat \<Rightarrow> gate \<Rightarrow> gate option" where
  "try_take cap ahead g = (if held g + ahead < cap then Some (g\<lparr>held := held g + 1\<rparr>) else None)"

definition enqueue :: "nat \<Rightarrow> gate \<Rightarrow> gate" where
  "enqueue t g =
     g\<lparr>queue := queue g @ [next_ticket g], next_ticket := next_ticket g + 1,
       ticket := (ticket g)(t := next_ticket g + 1), waiting := waiting g + 1\<rparr>"

definition reserve :: "nat \<Rightarrow> nat \<Rightarrow> gate \<Rightarrow> gate" where
  "reserve cap t g =
     (if held g + waiting g < cap then g
      else if ticket g t = 0 \<and> held g + length (queue g) \<ge> cap then enqueue t g else g)"

definition cancel :: "nat \<Rightarrow> gate \<Rightarrow> gate" where
  "cancel t g =
     (if ticket g t = 0 then g
      else g\<lparr>queue := filter (\<lambda>q. q \<noteq> ticket g t - 1) (queue g), ticket := (ticket g)(t := 0),
             waiting := waiting g - 1\<rparr>)"

fun position :: "nat \<Rightarrow> nat list \<Rightarrow> nat option" where
  "position x [] = None"
| "position x (y # ys) = (if x = y then Some 0 else map_option Suc (position x ys))"

text \<open>The queue position of the ticket that thread \<open>t\<close> waits with; \<open>None\<close> is the panic.\<close>

definition my_pos :: "gate \<Rightarrow> nat \<Rightarrow> nat option" where
  "my_pos g t = position (ticket g t - 1) (queue g)"

definition remove_nth :: "nat \<Rightarrow> 'a list \<Rightarrow> 'a list" where
  "remove_nth i xs = take i xs @ drop (Suc i) xs"

text \<open>The end of \<^verbatim>\<open>acquire_slot\<close>, under the lock; its result is whether to notify.\<close>

definition leave_queue :: "nat \<Rightarrow> nat \<Rightarrow> nat \<Rightarrow> gate \<Rightarrow> gate \<times> bool" where
  "leave_queue cap t pos g =
     (let g' = g\<lparr>queue := remove_nth pos (queue g), ticket := (ticket g)(t := 0),
                 waiting := waiting g - 1, lock := None\<rparr>
      in (g', queue g' \<noteq> [] \<and> held g' < cap))"

definition notify_all :: "gate \<Rightarrow> gate" where
  "notify_all g = g\<lparr>pc_of := (\<lambda>u. if pc_of g u = Asleep then WantLock else pc_of g u)\<rparr>"

text \<open>Hints for the scheduler.\<close>

definition tight :: "nat \<Rightarrow> nat \<Rightarrow> gate \<Rightarrow> bool" where
  "tight cap own g \<longleftrightarrow> held g - own + waiting g + 2 > cap"

definition full :: "nat \<Rightarrow> gate \<Rightarrow> bool" where
  "full cap g \<longleftrightarrow> held g + waiting g \<ge> cap"

text \<open>\<^verbatim>\<open>due\<close>: \<open>seen\<close> is the time a waiter was first seen, \<open>now\<close> the clock.\<close>

definition due :: "bool \<Rightarrow> nat \<Rightarrow> nat \<Rightarrow> nat option \<Rightarrow> gate \<Rightarrow> bool \<times> nat option" where
  "due timed now quantum seen g =
     (if waiting g = 0 then (False, seen)
      else if \<not> timed then (True, seen)
      else case seen of None \<Rightarrow> (False, Some now) | Some t \<Rightarrow> (now - t \<ge> quantum, seen))"

subsection \<open>The steps\<close>

inductive gate_step :: "nat \<Rightarrow> gate \<Rightarrow> gate \<Rightarrow> bool" for cap where
  acquire_start:
    "pc_of g t = Idle \<Longrightarrow> gate_step cap g (goto t (if ticket g t = 0 then Fast (waiting g) else WantLock) g)"
| fast_take: "pc_of g t = Fast a \<Longrightarrow> try_take cap a g = Some g' \<Longrightarrow> gate_step cap g (goto t Holding g')"
| fast_fail: "pc_of g t = Fast a \<Longrightarrow> try_take cap a g = None \<Longrightarrow> gate_step cap g (goto t WantLock g)"
| try_start: "pc_of g t = Idle \<Longrightarrow> ticket g t = 0 \<Longrightarrow> gate_step cap g (goto t (TryFast (waiting g)) g)"
| try_ok: "pc_of g t = TryFast a \<Longrightarrow> try_take cap a g = Some g' \<Longrightarrow> gate_step cap g (goto t Holding g')"
| try_fail: "pc_of g t = TryFast a \<Longrightarrow> try_take cap a g = None \<Longrightarrow> gate_step cap g (goto t Idle g)"
| take_lock:
    "pc_of g t = WantLock \<Longrightarrow> lock g = None \<Longrightarrow>
     gate_step cap g (goto t Check ((if ticket g t = 0 then enqueue t g else g)\<lparr>lock := Some t\<rparr>))"
| check_ok:
    "pc_of g t = Check \<Longrightarrow> my_pos g t = Some i \<Longrightarrow> try_take cap i g = Some g' \<Longrightarrow>
     gate_step cap g (goto t (Granted i) g')"
| check_wait:
    "pc_of g t = Check \<Longrightarrow> my_pos g t = Some i \<Longrightarrow> try_take cap i g = None \<Longrightarrow>
     gate_step cap g (goto t SleepPre g)"
| sleep: "pc_of g t = SleepPre \<Longrightarrow> gate_step cap g (goto t Asleep (g\<lparr>lock := None\<rparr>))"
| wake: "pc_of g t = Asleep \<Longrightarrow> gate_step cap g (goto t WantLock g)"
| grant:
    "pc_of g t = Granted i \<Longrightarrow> leave_queue cap t i g = (g', again) \<Longrightarrow>
     gate_step cap g (goto t (if again then GrantNotify else Holding) g')"
| grant_notify: "pc_of g t = GrantNotify \<Longrightarrow> gate_step cap g (goto t Holding (notify_all g))"
| release: "pc_of g t = Holding \<Longrightarrow> gate_step cap g (goto t Rel1 (g\<lparr>held := held g - 1\<rparr>))"
| release_load:
    "pc_of g t = Rel1 \<Longrightarrow> gate_step cap g (goto t (if waiting g > 0 then Rel2 else Idle) g)"
| release_lock: "pc_of g t = Rel2 \<Longrightarrow> lock g = None \<Longrightarrow> gate_step cap g (goto t Rel3 g)"
| release_notify: "pc_of g t = Rel3 \<Longrightarrow> gate_step cap g (goto t Idle (notify_all g))"
| reserve_slot: "lock g = None \<Longrightarrow> gate_step cap g (reserve cap t g)"
| cancel_slot:
    "pc_of g t \<in> {Idle, Holding} \<Longrightarrow> lock g = None \<Longrightarrow> ticket g t \<noteq> 0 \<Longrightarrow>
     gate_step cap g (goto t (CancelNotify (pc_of g t = Holding)) (cancel t g))"
| cancel_notify:
    "pc_of g t = CancelNotify h \<Longrightarrow>
     gate_step cap g (goto t (if h then Holding else Idle) (notify_all g))"

subsection \<open>The invariant\<close>

fun holds :: "pc \<Rightarrow> bool" where
  "holds (Granted i) = True"
| "holds GrantNotify = True"
| "holds Holding = True"
| "holds (CancelNotify h) = h"
| "holds _ = False"

definition counts :: "nat \<Rightarrow> gate \<Rightarrow> bool" where
  "counts cap g \<longleftrightarrow> finite {t. holds (pc_of g t)} \<and> held g = card {t. holds (pc_of g t)} \<and> held g \<le> cap"

definition queue_ok :: "gate \<Rightarrow> bool" where
  "queue_ok g \<longleftrightarrow> waiting g = length (queue g) \<and> sorted_wrt (<) (queue g) \<and> (\<forall>q \<in> set (queue g). q < next_ticket g)"

definition tickets_ok :: "gate \<Rightarrow> bool" where
  "tickets_ok g \<longleftrightarrow>
     (\<forall>t. ticket g t \<noteq> 0 \<longrightarrow> ticket g t - 1 \<in> set (queue g)) \<and>
     (\<forall>q \<in> set (queue g). \<exists>t. ticket g t = q + 1) \<and>
     (\<forall>t u. ticket g t \<noteq> 0 \<longrightarrow> ticket g t = ticket g u \<longrightarrow> t = u)"

definition owns_lock :: "pc \<Rightarrow> bool" where
  "owns_lock p \<longleftrightarrow> p = Check \<or> p = SleepPre \<or> (\<exists>i. p = Granted i)"

definition pcs_ok :: "gate \<Rightarrow> bool" where
  "pcs_ok g \<longleftrightarrow>
     (\<forall>t. owns_lock (pc_of g t) \<longleftrightarrow> lock g = Some t) \<and>
     (\<forall>t. pc_of g t \<in> {Check, SleepPre, Asleep} \<longrightarrow> ticket g t \<noteq> 0) \<and>
     (\<forall>t i. pc_of g t = Granted i \<longrightarrow> ticket g t \<noteq> 0 \<and> my_pos g t = Some i)"

text \<open>A sleeper whose grant condition holds has a wake on the way.\<close>

definition grantable :: "nat \<Rightarrow> gate \<Rightarrow> nat \<Rightarrow> bool" where
  "grantable cap g t \<longleftrightarrow> (\<exists>i. my_pos g t = Some i \<and> held g + i < cap)"

definition notifying :: "pc \<Rightarrow> bool" where
  "notifying p \<longleftrightarrow> p \<in> {Rel1, Rel2, Rel3, GrantNotify} \<or> (\<exists>h. p = CancelNotify h)"

definition wakes_ok :: "nat \<Rightarrow> gate \<Rightarrow> bool" where
  "wakes_ok cap g \<longleftrightarrow>
     (\<forall>t. pc_of g t = Asleep \<and> grantable cap g t \<longrightarrow> (\<exists>u. notifying (pc_of g u))) \<and>
     (\<forall>t. pc_of g t = SleepPre \<and> grantable cap g t \<longrightarrow> (\<exists>u. pc_of g u \<in> {Rel1, Rel2}))"

definition gate_inv :: "nat \<Rightarrow> gate \<Rightarrow> bool" where
  "gate_inv cap g \<longleftrightarrow> counts cap g \<and> queue_ok g \<and> tickets_ok g \<and> pcs_ok g \<and> wakes_ok cap g"

subsection \<open>Lemmas\<close>

lemma position_Some: "position x xs = Some i \<Longrightarrow> i < length xs \<and> xs ! i = x"
  by (induction xs arbitrary: i) (auto split: if_splits)

lemma position_None: "position x xs = None \<longleftrightarrow> x \<notin> set xs"
  by (induction xs) auto

lemma position_append: "x \<in> set xs \<Longrightarrow> position x (xs @ ys) = position x xs"
  by (induction xs) auto

lemma position_of_nth: "distinct xs \<Longrightarrow> i < length xs \<Longrightarrow> position (xs ! i) xs = Some i"
  by (induction xs arbitrary: i) (auto simp: nth_Cons split: nat.splits)

lemma my_pos_in_queue: "tickets_ok g \<Longrightarrow> ticket g t \<noteq> 0 \<Longrightarrow> \<exists>i. my_pos g t = Some i"
  by (auto simp: tickets_ok_def my_pos_def position_None simp flip: not_None_eq)

lemma goto_simps [simp]:
  "held (goto t p g) = held g" "waiting (goto t p g) = waiting g" "queue (goto t p g) = queue g"
  "next_ticket (goto t p g) = next_ticket g" "lock (goto t p g) = lock g" "ticket (goto t p g) = ticket g"
  "pc_of (goto t p g) = (pc_of g)(t := p)" "my_pos (goto t p g) = my_pos g"
  by (simp_all add: goto_def my_pos_def fun_eq_iff)

lemma try_take_eq: "try_take cap a g = Some g' \<longleftrightarrow> held g + a < cap \<and> g' = g\<lparr>held := held g + 1\<rparr>"
  by (auto simp: try_take_def)

lemma try_take_None: "try_take cap a g = None \<longleftrightarrow> \<not> held g + a < cap"
  by (simp add: try_take_def)

lemma enqueue_simps [simp]:
  "held (enqueue t g) = held g" "lock (enqueue t g) = lock g" "pc_of (enqueue t g) = pc_of g"
  by (simp_all add: enqueue_def)

lemma notify_simps [simp]:
  "held (notify_all g) = held g" "waiting (notify_all g) = waiting g" "queue (notify_all g) = queue g"
  "next_ticket (notify_all g) = next_ticket g" "lock (notify_all g) = lock g" "ticket (notify_all g) = ticket g"
  "my_pos (notify_all g) = my_pos g"
  by (simp_all add: notify_all_def my_pos_def fun_eq_iff)

lemma holds_notify: "holds (pc_of (notify_all g) u) = holds (pc_of g u)"
  by (simp add: notify_all_def)

subsubsection \<open>Permits\<close>

lemma counts_goto:
  assumes "counts cap g" "holds p = holds (pc_of g t)"
  shows "counts cap (goto t p g)"
proof -
  have "{u. holds (((pc_of g)(t := p)) u)} = {u. holds (pc_of g u)}" using assms(2) by auto
  thus ?thesis using assms(1) by (simp add: counts_def)
qed

lemma counts_take:
  assumes "counts cap g" "held g < cap" "\<not> holds (pc_of g t)" "holds p"
  shows "counts cap (goto t p (g\<lparr>held := Suc (held g)\<rparr>))"
proof -
  have "{u. holds (((pc_of g)(t := p)) u)} = insert t {u. holds (pc_of g u)}" using assms by auto
  thus ?thesis using assms by (simp add: counts_def)
qed

lemma counts_drop:
  assumes "counts cap g" "holds (pc_of g t)" "\<not> holds p"
  shows "counts cap (goto t p (g\<lparr>held := held g - Suc 0\<rparr>))"
proof -
  have "{u. holds (((pc_of g)(t := p)) u)} = {u. holds (pc_of g u)} - {t}" using assms by auto
  moreover have "t \<in> {u. holds (pc_of g u)}" using assms by simp
  ultimately show ?thesis using assms by (simp add: counts_def) linarith
qed

lemma counts_cong:
  "counts cap g \<Longrightarrow> held g' = held g \<Longrightarrow> (\<And>u. holds (pc_of g' u) = holds (pc_of g u)) \<Longrightarrow> counts cap g'"
  by (simp add: counts_def)

lemma counts_notify: "counts cap g \<Longrightarrow> counts cap (notify_all g)"
  by (erule counts_cong) (simp_all add: holds_notify)

lemma counts_step: "gate_step cap g g' \<Longrightarrow> counts cap g \<Longrightarrow> counts cap g'"
proof (induction rule: gate_step.induct)
  case (release g t)
  thus ?case using counts_drop [of cap g t Rel1] by simp
next
  case (reserve_slot g t)
  thus ?case by (auto simp: reserve_def elim: counts_cong)
next
  case (take_lock g t)
  have "counts cap ((if ticket g t = 0 then enqueue t g else g)\<lparr>lock := Some t\<rparr>)"
    using take_lock(3) by (rule counts_cong) auto
  thus ?case using take_lock by (intro counts_goto) simp_all
next
  case (grant g t i g' again)
  have g': "g' = g\<lparr>queue := remove_nth i (queue g), ticket := (ticket g)(t := 0), waiting := waiting g - 1, lock := None\<rparr>"
    using grant(2) by (simp add: leave_queue_def Let_def)
  have "counts cap g'" using grant(3) by (rule counts_cong) (simp_all add: g')
  thus ?case using grant(1) by (intro counts_goto) (simp_all add: g')
next
  case (cancel_slot g t)
  have "counts cap (cancel t g)" using cancel_slot(4) by (rule counts_cong) (simp_all add: cancel_def)
  moreover have "pc_of (cancel t g) = pc_of g" by (simp add: cancel_def)
  ultimately show ?case using cancel_slot by (intro counts_goto) auto
next
  case (grant_notify g t)
  thus ?case by (intro counts_goto counts_notify) (simp_all add: holds_notify)
next
  case (release_notify g t)
  thus ?case by (intro counts_goto counts_notify) (simp_all add: holds_notify)
next
  case (cancel_notify g t h)
  thus ?case by (intro counts_goto counts_notify) (simp_all add: holds_notify)
next
  case (sleep g t)
  have "counts cap (g\<lparr>lock := None\<rparr>)" using sleep(2) by (rule counts_cong) simp_all
  thus ?case using sleep by (intro counts_goto) simp_all
qed (auto simp: try_take_eq intro: counts_take counts_goto)

subsubsection \<open>The queue and the tickets\<close>

lemma queue_enqueue: "queue_ok g \<Longrightarrow> queue_ok (enqueue t g)"
  by (auto simp: queue_ok_def enqueue_def sorted_wrt_append less_Suc_eq)

lemma set_remove_nth:
  assumes "distinct xs" "i < length xs"
  shows "set (remove_nth i xs) = set xs - {xs ! i}"
proof -
  have xs: "xs = take i xs @ xs ! i # drop (Suc i) xs" using assms by (simp add: id_take_nth_drop)
  hence "xs ! i \<notin> set (take i xs) \<union> set (drop (Suc i) xs)"
    using assms(1) by (metis Un_iff distinct.simps(2) distinct_append disjoint_iff list.set_intros(1))
  moreover have "set xs = insert (xs ! i) (set (take i xs) \<union> set (drop (Suc i) xs))"
    by (subst xs) (simp add: Un_commute)
  ultimately show ?thesis by (simp add: remove_nth_def)
qed

lemma queue_distinct: "queue_ok g \<Longrightarrow> distinct (queue g)"
  by (simp add: queue_ok_def strict_sorted_iff)

lemma filter_is_remove_nth:
  assumes "distinct xs" "position x xs = Some i"
  shows "filter (\<lambda>q. q \<noteq> x) xs = remove_nth i xs"
  using assms
proof (induction xs arbitrary: i)
  case (Cons a xs)
  show ?case
  proof (cases "x = a")
    case True
    hence "filter (\<lambda>q. q \<noteq> x) xs = xs" using Cons.prems(1) by (intro filter_True) auto
    thus ?thesis using True Cons.prems(2) by (simp add: remove_nth_def)
  next
    case False
    thus ?thesis using Cons by (auto simp: remove_nth_def)
  qed
qed simp

text \<open>\<^verbatim>\<open>cancel\<close> and the end of \<^verbatim>\<open>acquire_slot\<close> both take the thread's ticket out of the queue.\<close>

definition drop_ticket :: "nat \<Rightarrow> nat \<Rightarrow> gate \<Rightarrow> gate" where
  "drop_ticket t i g = g\<lparr>queue := remove_nth i (queue g), ticket := (ticket g)(t := 0), waiting := waiting g - 1\<rparr>"

lemma queue_drop:
  assumes "queue_ok g" "my_pos g t = Some i"
  shows "queue_ok (drop_ticket t i g)"
proof -
  have i: "i < length (queue g)" using assms(2) position_Some by (auto simp: my_pos_def)
  have "sorted_wrt (<) (remove_nth i (queue g))"
    using assms(1) unfolding queue_ok_def remove_nth_def
    by (metis Cons_nth_drop_Suc append_take_drop_id i list.set_intros(2) sorted_wrt.simps(2) sorted_wrt_append)
  moreover have "set (remove_nth i (queue g)) \<subseteq> set (queue g)"
    by (auto simp: remove_nth_def dest: in_set_takeD in_set_dropD)
  moreover have "length (remove_nth i (queue g)) = length (queue g) - 1"
    using i by (simp add: remove_nth_def)
  ultimately show ?thesis using assms(1) by (auto simp: queue_ok_def drop_ticket_def)
qed

lemma tickets_enqueue:
  assumes q: "queue_ok g" and tk: "tickets_ok g" and t: "ticket g t = 0"
  shows "tickets_ok (enqueue t g)"
proof -
  have old: "ticket g u - 1 < next_ticket g" if "ticket g u \<noteq> 0" for u
    using that q tk by (auto simp: queue_ok_def tickets_ok_def)
  have ex: "\<exists>u. u \<noteq> t \<and> ticket g u = Suc x" if "x \<in> set (queue g)" for x
  proof -
    obtain u where "ticket g u = Suc x" using tk \<open>x \<in> set (queue g)\<close> by (auto simp: tickets_ok_def)
    thus ?thesis using t by (intro exI [of _ u]) auto
  qed
  show ?thesis
    unfolding tickets_ok_def
  proof (intro conjI allI impI ballI)
    fix u assume "ticket (enqueue t g) u \<noteq> 0"
    thus "ticket (enqueue t g) u - 1 \<in> set (queue (enqueue t g))"
      using tk by (auto simp: enqueue_def tickets_ok_def)
  next
    fix x assume "x \<in> set (queue (enqueue t g))"
    thus "\<exists>u. ticket (enqueue t g) u = x + 1" using ex by (auto simp: enqueue_def)
  next
    fix u v assume "ticket (enqueue t g) u \<noteq> 0" "ticket (enqueue t g) u = ticket (enqueue t g) v"
    thus "u = v"
      using tk old [of u] old [of v] by (auto simp: enqueue_def tickets_ok_def split: if_splits)
  qed
qed

lemma tickets_drop:
  assumes q: "queue_ok g" and tk: "tickets_ok g" and t: "ticket g t \<noteq> 0" "my_pos g t = Some i"
  shows "tickets_ok (drop_ticket t i g)"
proof -
  have i: "i < length (queue g)" "queue g ! i = ticket g t - 1"
    using t(2) position_Some by (auto simp: my_pos_def)
  have set: "set (remove_nth i (queue g)) = set (queue g) - {ticket g t - 1}"
    using set_remove_nth [OF queue_distinct [OF q] i(1)] i(2) by simp
  have own: "ticket g u - 1 \<noteq> ticket g t - 1" if "u \<noteq> t" "ticket g u \<noteq> 0" for u
    using tk that t(1) unfolding tickets_ok_def by (metis Suc_pred' neq0_conv)
  have ex: "\<exists>u. u \<noteq> t \<and> ticket g u = q + 1" if "q \<in> set (queue g)" "q \<noteq> ticket g t - 1" for q
    using tk that unfolding tickets_ok_def by (metis add_diff_cancel_right')
  show ?thesis using tk own ex by (auto simp: tickets_ok_def drop_ticket_def set)
qed

lemma queue_tickets_cong:
  assumes "queue g' = queue g" "waiting g' = waiting g" "next_ticket g' = next_ticket g" "ticket g' = ticket g"
  shows "queue_ok g' = queue_ok g" "tickets_ok g' = tickets_ok g" "my_pos g' = my_pos g"
  using assms by (simp_all add: queue_ok_def tickets_ok_def my_pos_def fun_eq_iff)

lemma leave_queue_eq:
  "leave_queue cap t i g = (g', again) \<longleftrightarrow>
     g' = (drop_ticket t i g)\<lparr>lock := None\<rparr> \<and> again = (queue g' \<noteq> [] \<and> held g' < cap)"
  by (auto simp: leave_queue_def drop_ticket_def Let_def)

lemma cancel_eq:
  assumes "queue_ok g" "tickets_ok g" "ticket g t \<noteq> 0"
  obtains i where "my_pos g t = Some i" "cancel t g = drop_ticket t i g"
  using my_pos_in_queue [OF assms(2,3)] assms filter_is_remove_nth [OF queue_distinct [OF assms(1)]]
  by (auto simp: my_pos_def cancel_def drop_ticket_def)

lemma queue_tickets_step:
  assumes "gate_step cap g g'" "queue_ok g" "tickets_ok g" "pcs_ok g"
  shows "queue_ok g' \<and> tickets_ok g'"
  using assms
proof (induction rule: gate_step.induct)
  case (take_lock g t)
  let ?h = "if ticket g t = 0 then enqueue t g else g"
  have "queue_ok ?h \<and> tickets_ok ?h" using take_lock by (simp add: queue_enqueue tickets_enqueue)
  thus ?case using queue_tickets_cong [of "goto t Check (?h\<lparr>lock := Some t\<rparr>)" ?h] by simp
next
  case (reserve_slot g t)
  thus ?case by (simp add: reserve_def queue_enqueue tickets_enqueue)
next
  case (grant g t i g' again)
  have pos: "ticket g t \<noteq> 0" "my_pos g t = Some i" using grant(1,5) by (auto simp: pcs_ok_def)
  let ?h = "drop_ticket t i g"
  have "queue_ok ?h \<and> tickets_ok ?h"
    using queue_drop [OF grant(3) pos(2)] tickets_drop [OF grant(3,4) pos] by blast
  thus ?case
    using grant(2) queue_tickets_cong [of "goto t (if again then GrantNotify else Holding) (?h\<lparr>lock := None\<rparr>)" ?h]
    by (auto simp: leave_queue_eq)
next
  case (cancel_slot g t)
  obtain i where i: "my_pos g t = Some i" "cancel t g = drop_ticket t i g"
    using cancel_eq cancel_slot by metis
  have "queue_ok (cancel t g) \<and> tickets_ok (cancel t g)"
    using queue_drop tickets_drop cancel_slot i by metis
  thus ?case using queue_tickets_cong [of "goto t (CancelNotify (pc_of g t = Holding)) (cancel t g)" "cancel t g"] by simp
next
  case (release g t)
  thus ?case using queue_tickets_cong [of "goto t Rel1 (g\<lparr>held := held g - 1\<rparr>)" g] by simp
next
  case (sleep g t)
  thus ?case using queue_tickets_cong [of "goto t Asleep (g\<lparr>lock := None\<rparr>)" g] by simp
qed (simp_all add: try_take_eq queue_ok_def tickets_ok_def)

subsubsection \<open>Who owns the lock, who waits with a ticket\<close>

lemma my_pos_enqueue:
  assumes "tickets_ok g" "ticket g u \<noteq> 0" "u \<noteq> t"
  shows "my_pos (enqueue t g) u = my_pos g u"
  using assms by (simp add: my_pos_def enqueue_def tickets_ok_def position_append)

lemma notify_owner: "owns_lock (pc_of (notify_all g) u) = owns_lock (pc_of g u)"
  by (simp add: notify_all_def owns_lock_def)

lemma notify_pc: "p \<noteq> Asleep \<Longrightarrow> p \<noteq> WantLock \<Longrightarrow> pc_of (notify_all g) u = p \<longleftrightarrow> pc_of g u = p"
  "pc_of (notify_all g) u \<noteq> Asleep"
  by (auto simp: notify_all_def)

lemma reserve_cases:
  obtains "reserve cap t g = g" | "ticket g t = 0" "reserve cap t g = enqueue t g"
proof (cases "held g + waiting g < cap \<or> ticket g t \<noteq> 0 \<or> held g + length (queue g) < cap")
  case True
  hence "reserve cap t g = g" by (auto simp: reserve_def)
  thus ?thesis using that by blast
next
  case False
  hence "ticket g t = 0" "reserve cap t g = enqueue t g" by (auto simp: reserve_def)
  thus ?thesis using that by blast
qed

lemma single_owner:
  assumes "pcs_ok g" "owns_lock (pc_of g t)" "u \<noteq> t"
  shows "\<not> owns_lock (pc_of g u)"
  using assms by (auto simp: pcs_ok_def)

lemma pcs_goto:
  assumes "pcs_ok g" "\<not> owns_lock (pc_of g t)" "\<not> owns_lock p" "p \<noteq> Asleep"
  shows "pcs_ok (goto t p g)"
  using assms unfolding pcs_ok_def owns_lock_def by simp

lemma pcs_held: "pcs_ok (g\<lparr>held := h\<rparr>) = pcs_ok g"
  by (simp add: pcs_ok_def my_pos_def)

lemma pcs_okI:
  assumes "\<And>u. owns_lock (pc_of g u) = (lock g = Some u)"
    and "\<And>u. pc_of g u \<in> {Check, SleepPre, Asleep} \<Longrightarrow> ticket g u \<noteq> 0"
    and "\<And>u i. pc_of g u = Granted i \<Longrightarrow> ticket g u \<noteq> 0 \<and> my_pos g u = Some i"
  shows "pcs_ok g"
  using assms by (simp add: pcs_ok_def)

lemma pcs_notify:
  assumes "pcs_ok g" shows "pcs_ok (notify_all g)"
proof (rule pcs_okI)
  fix u
  show "owns_lock (pc_of (notify_all g) u) = (lock (notify_all g) = Some u)"
    using assms by (simp add: notify_owner pcs_ok_def)
  show "pc_of (notify_all g) u \<in> {Check, SleepPre, Asleep} \<Longrightarrow> ticket (notify_all g) u \<noteq> 0"
    using assms by (auto simp: notify_pc pcs_ok_def)
  show "pc_of (notify_all g) u = Granted i \<Longrightarrow> ticket (notify_all g) u \<noteq> 0 \<and> my_pos (notify_all g) u = Some i" for i
    using assms by (auto simp: notify_pc pcs_ok_def)
qed

lemma pcs_step:
  assumes "gate_step cap g g'" "queue_ok g" "tickets_ok g" "pcs_ok g"
  shows "pcs_ok g'"
  using assms
proof (induction rule: gate_step.induct)
  case (take_lock g t)
  have no: "\<not> owns_lock (pc_of g u)" for u using take_lock by (simp add: pcs_ok_def)
  hence "pc_of g u \<noteq> Granted i" for u i by (auto simp: owns_lock_def)
  thus ?case using take_lock no
    by (intro pcs_okI) (auto simp: owns_lock_def pcs_ok_def enqueue_def split: if_splits)
next
  case (reserve_slot g t)
  have no: "\<not> owns_lock (pc_of g u)" for u using reserve_slot by (simp add: pcs_ok_def)
  hence "pc_of g u \<noteq> Granted i" for u i by (auto simp: owns_lock_def)
  moreover have "pcs_ok (enqueue t g)"
    using reserve_slot no calculation by (intro pcs_okI) (auto simp: pcs_ok_def enqueue_def owns_lock_def)
  ultimately show ?case using reserve_slot by (cases rule: reserve_cases [of cap t g]) simp_all
next
  case (grant g t i g' again)
  have own: "owns_lock (pc_of g u) \<longleftrightarrow> u = t" for u
    using grant(1,5) by (auto simp: pcs_ok_def owns_lock_def)
  hence "u \<noteq> t \<Longrightarrow> pc_of g u \<noteq> Granted j" for u j by (auto simp: owns_lock_def)
  thus ?case using grant own
    by (intro pcs_okI) (auto simp: leave_queue_eq drop_ticket_def pcs_ok_def owns_lock_def)
next
  case (cancel_slot g t)
  have no: "\<not> owns_lock (pc_of g u)" for u using cancel_slot by (simp add: pcs_ok_def)
  hence "pc_of g u \<noteq> Granted i" for u i by (auto simp: owns_lock_def)
  thus ?case using cancel_slot no
    by (intro pcs_okI) (auto simp: cancel_def pcs_ok_def owns_lock_def)
next
  case (check_ok g t i g')
  have "owns_lock (pc_of g u) = (lock g = Some u)" for u using check_ok by (simp add: pcs_ok_def)
  moreover from this [of t] have "lock g = Some t" using check_ok(1) by (simp add: owns_lock_def)
  moreover have "owns_lock (Granted i)" by (simp add: owns_lock_def)
  ultimately show ?case using check_ok
    by (intro pcs_okI) (auto simp: try_take_eq pcs_ok_def my_pos_def split: if_splits)
next
  case (check_wait g t i)
  have "owns_lock (pc_of g u) = (lock g = Some u)" for u using check_wait by (simp add: pcs_ok_def)
  moreover from this [of t] have "lock g = Some t" using check_wait(1) by (simp add: owns_lock_def)
  moreover have "owns_lock SleepPre" by (simp add: owns_lock_def)
  ultimately show ?case using check_wait by (intro pcs_okI) (auto simp: pcs_ok_def split: if_splits)
next
  case (release g t)
  thus ?case by (intro pcs_goto) (simp_all add: pcs_held owns_lock_def)
next
  case (sleep g t)
  hence no: "u \<noteq> t \<Longrightarrow> \<not> owns_lock (pc_of g u)" for u
    using single_owner [of g t u] by (simp add: owns_lock_def)
  moreover have "u \<noteq> t \<Longrightarrow> pc_of g u \<noteq> Granted i" for u i using no [of u] by (auto simp: owns_lock_def)
  moreover have "\<not> owns_lock Asleep" by (simp add: owns_lock_def)
  ultimately show ?case using sleep by (intro pcs_okI) (auto simp: pcs_ok_def split: if_splits)
next
  case (grant_notify g t)
  hence "pcs_ok (notify_all g)" by (simp add: pcs_notify)
  thus ?case using grant_notify by (intro pcs_goto) (simp_all add: owns_lock_def notify_pc)
next
  case (release_notify g t)
  hence "pcs_ok (notify_all g)" by (simp add: pcs_notify)
  thus ?case using release_notify by (intro pcs_goto) (simp_all add: owns_lock_def notify_pc)
next
  case (cancel_notify g t h)
  hence "pcs_ok (notify_all g)" by (simp add: pcs_notify)
  thus ?case using cancel_notify by (intro pcs_goto) (simp_all add: owns_lock_def notify_pc)
qed (auto simp: try_take_eq pcs_held owns_lock_def intro!: pcs_goto)

subsubsection \<open>No wake is lost\<close>

lemma grantable_held:
  assumes "my_pos g' t = my_pos g t" "held g \<le> held g'" "grantable cap g' t"
  shows "grantable cap g t"
  using assms by (auto simp: grantable_def)

lemma wakes_okI:
  assumes "\<And>t. pc_of g t = Asleep \<Longrightarrow> grantable cap g t \<Longrightarrow> \<exists>u. notifying (pc_of g u)"
    and "\<And>t. pc_of g t = SleepPre \<Longrightarrow> grantable cap g t \<Longrightarrow> \<exists>u. pc_of g u \<in> {Rel1, Rel2}"
  shows "wakes_ok cap g"
  unfolding wakes_ok_def using assms by blast

text \<open>A step that raises no sleeper's chance and retires no pending wake.\<close>

lemma wakes_keep:
  assumes "wakes_ok cap g"
    and "\<And>u. pc_of g' u \<in> {Asleep, SleepPre} \<Longrightarrow> pc_of g' u = pc_of g u \<and> my_pos g' u = my_pos g u"
    and "held g \<le> held g'"
    and "\<And>u. notifying (pc_of g u) \<Longrightarrow> pc_of g' u = pc_of g u"
  shows "wakes_ok cap g'"
proof (rule wakes_okI)
  fix t assume t: "pc_of g' t = Asleep" "grantable cap g' t"
  hence "\<exists>u. notifying (pc_of g u)"
    using assms(1,2) grantable_held [OF _ assms(3)] by (metis insertI1 wakes_ok_def)
  thus "\<exists>u. notifying (pc_of g' u)" using assms(4) by metis
next
  fix t assume t: "pc_of g' t = SleepPre" "grantable cap g' t"
  hence "\<exists>u. pc_of g u \<in> {Rel1, Rel2}"
    using assms(1,2) grantable_held [OF _ assms(3)] by (metis insertI1 insertI2 wakes_ok_def)
  thus "\<exists>u. pc_of g' u \<in> {Rel1, Rel2}" using assms(4) by (metis insertE insertI1 insertI2 notifying_def singletonD)
qed

lemma grantable_waiting:
  assumes "queue_ok g" "grantable cap g t" shows "0 < waiting g"
  using assms position_Some by (fastforce simp: grantable_def my_pos_def queue_ok_def)

lemma wakes_goto:
  assumes "wakes_ok cap g" "\<not> notifying (pc_of g t)" "p \<noteq> Asleep" "p \<noteq> SleepPre"
  shows "wakes_ok cap (goto t p g)"
  using assms by (intro wakes_keep [OF assms(1)]) auto

lemma wakes_held: "wakes_ok cap g \<Longrightarrow> held g \<le> h \<Longrightarrow> wakes_ok cap (g\<lparr>held := h\<rparr>)"
  by (erule wakes_keep) (auto simp: my_pos_def)

lemma wakes_notify:
  assumes "wakes_ok cap g" "pc_of g t \<notin> {Rel1, Rel2}" "p \<noteq> Asleep" "p \<noteq> SleepPre"
  shows "wakes_ok cap (goto t p (notify_all g))"
proof (rule wakes_okI)
  fix u assume "pc_of (goto t p (notify_all g)) u = Asleep"
  thus "\<exists>v. notifying (pc_of (goto t p (notify_all g)) v)"
    using assms(3) by (auto simp: notify_all_def split: if_splits)
next
  fix u assume u: "pc_of (goto t p (notify_all g)) u = SleepPre" "grantable cap (goto t p (notify_all g)) u"
  hence "pc_of g u = SleepPre" "grantable cap g u"
    using assms(4) by (auto simp: notify_all_def grantable_def my_pos_def split: if_splits)
  then obtain v where "pc_of g v \<in> {Rel1, Rel2}" using assms(1) by (auto simp: wakes_ok_def)
  thus "\<exists>v. pc_of (goto t p (notify_all g)) v \<in> {Rel1, Rel2}"
    using assms(2) by (intro exI [of _ v]) (auto simp: notify_all_def)
qed

lemma no_owner:
  assumes "pcs_ok g" "lock g = None"
  shows "pc_of g u \<noteq> SleepPre" "pc_of g u \<noteq> Granted i"
  using assms by (auto simp: pcs_ok_def owns_lock_def)

text \<open>Taking a ticket out of the queue while somebody is going to notify.\<close>

lemma wakes_notifier:
  assumes "\<And>u. pc_of g u \<noteq> SleepPre" "notifying (pc_of g v)"
  shows "wakes_ok cap g"
  using assms by (intro wakes_okI) auto

lemma wakes_enqueue:
  assumes "wakes_ok cap g" "pcs_ok g" "tickets_ok g" "lock g = None" "ticket g t = 0"
  shows "wakes_ok cap (enqueue t g)"
proof (rule wakes_keep [OF assms(1)])
  fix u assume "pc_of (enqueue t g) u \<in> {Asleep, SleepPre}"
  hence "ticket g u \<noteq> 0" using assms(2) by (auto simp: pcs_ok_def)
  thus "pc_of (enqueue t g) u = pc_of g u \<and> my_pos (enqueue t g) u = my_pos g u"
    using my_pos_enqueue [OF assms(3), of u t] assms(5) by (cases "u = t") simp_all
qed auto

lemma wakes_step:
  assumes "gate_step cap g g'" "queue_ok g" "tickets_ok g" "pcs_ok g" "wakes_ok cap g"
  shows "wakes_ok cap g'"
  using assms
proof (induction rule: gate_step.induct)
  case (check_wait g t i)
  have no: "\<not> grantable cap g t" using check_wait(2,3) by (auto simp: grantable_def try_take_None)
  have keep: "pc_of g u = pc_of (goto t SleepPre g) u" if "notifying (pc_of g u)" for u
    using that check_wait(1) by (auto simp: notifying_def)
  show ?case
  proof (rule wakes_okI)
    fix u assume "pc_of (goto t SleepPre g) u = Asleep" "grantable cap (goto t SleepPre g) u"
    hence "\<exists>v. notifying (pc_of g v)"
      using check_wait(7) by (auto simp: wakes_ok_def grantable_def split: if_splits)
    thus "\<exists>v. notifying (pc_of (goto t SleepPre g) v)" using keep by metis
  next
    fix u assume "pc_of (goto t SleepPre g) u = SleepPre" "grantable cap (goto t SleepPre g) u"
    hence "\<exists>v. pc_of g v \<in> {Rel1, Rel2}"
      using check_wait(7) no by (auto simp: wakes_ok_def grantable_def split: if_splits)
    thus "\<exists>v. pc_of (goto t SleepPre g) v \<in> {Rel1, Rel2}"
      using keep by (metis insertE insertI1 insertI2 notifying_def singletonD)
  qed
next
  case (sleep g t)
  let ?g = "goto t Asleep (g\<lparr>lock := None\<rparr>)"
  have only: "u \<noteq> t \<Longrightarrow> pc_of g u \<noteq> SleepPre" for u
    using single_owner [OF sleep(4), of t u] sleep(1) by (auto simp: owns_lock_def)
  show ?case
  proof (rule wakes_okI)
    fix u assume u: "pc_of ?g u = Asleep" "grantable cap ?g u"
    hence g: "grantable cap g u" by (simp add: grantable_def my_pos_def)
    have "\<exists>v. notifying (pc_of g v)"
    proof (cases "u = t")
      case True
      then obtain v where "pc_of g v \<in> {Rel1, Rel2}" using g sleep(1,5) by (auto simp: wakes_ok_def)
      thus ?thesis by (intro exI [of _ v]) (auto simp: notifying_def)
    next
      case False
      thus ?thesis using g u sleep(5) by (auto simp: wakes_ok_def)
    qed
    then obtain v where v: "notifying (pc_of g v)" by blast
    moreover have "v \<noteq> t" using v sleep(1) by (auto simp: notifying_def)
    ultimately show "\<exists>v. notifying (pc_of ?g v)" by (intro exI [of _ v]) simp
  next
    fix u assume "pc_of ?g u = SleepPre"
    thus "\<exists>v. pc_of ?g v \<in> {Rel1, Rel2}" using only by (auto split: if_splits)
  qed
next
  case (take_lock g t)
  let ?h = "if ticket g t = 0 then enqueue t g else g"
  have "wakes_ok cap ?h" using take_lock by (simp add: wakes_enqueue)
  hence "wakes_ok cap (?h\<lparr>lock := Some t\<rparr>)" by (rule wakes_keep) (auto simp: my_pos_def)
  thus ?case using take_lock(1) by (intro wakes_goto) (auto simp: notifying_def)
next
  case (grant g t i g' again)
  have pos: "ticket g t \<noteq> 0" "my_pos g t = Some i" using grant(1,5) by (auto simp: pcs_ok_def)
  have g': "g' = (drop_ticket t i g)\<lparr>lock := None\<rparr>" "again = (queue g' \<noteq> [] \<and> held g' < cap)"
    using grant(2) by (simp_all add: leave_queue_eq)
  have pc': "pc_of g' = pc_of g" by (simp add: g' drop_ticket_def)
  have only: "u \<noteq> t \<Longrightarrow> pc_of g u \<noteq> SleepPre" for u
    using single_owner [OF grant(5), of t u] grant(1) by (auto simp: owns_lock_def)
  show ?case
  proof (cases again)
    case True
    thus ?thesis using only grant(1)
      by (intro wakes_notifier [of _ t]) (auto simp: pc' notifying_def)
  next
    case False
    hence "\<not> grantable cap g' u" for u
      using g' position_Some [of "ticket g' u - 1" "queue g'"] by (auto simp: grantable_def my_pos_def)
    thus ?thesis using only False
      by (intro wakes_okI) (auto simp: pc' grantable_def split: if_splits)
  qed
next
  case (release g t)
  thus ?case
    by (intro wakes_okI) (auto simp: notifying_def)
next
  case (release_load g t)
  show ?case
  proof (cases "waiting g > 0")
    case True
    thus ?thesis by (intro wakes_okI) (auto simp: notifying_def)
  next
    case False
    hence "\<not> grantable cap g u" for u using grantable_waiting [OF release_load(2), of cap u] by auto
    thus ?thesis using False by (intro wakes_okI) (auto simp: grantable_def split: if_splits)
  qed
next
  case (release_lock g t)
  thus ?case using no_owner [OF release_lock(5,2)]
    by (intro wakes_notifier [of _ t]) (auto simp: notifying_def)
next
  case (reserve_slot g t)
  thus ?case by (cases rule: reserve_cases [of cap t g]) (simp_all add: wakes_enqueue)
next
  case (cancel_slot g t)
  have "pc_of (cancel t g) = pc_of g" by (simp add: cancel_def)
  thus ?case using no_owner [OF cancel_slot(6,2)]
    by (intro wakes_notifier [of _ t]) (auto simp: notifying_def)
next
  case (grant_notify g t)
  thus ?case by (intro wakes_notify) auto
next
  case (release_notify g t)
  thus ?case by (intro wakes_notify) auto
next
  case (cancel_notify g t h)
  thus ?case by (intro wakes_notify) auto
qed (auto simp: try_take_eq notifying_def intro!: wakes_goto wakes_held)

subsection \<open>The invariant in every reachable state\<close>

interpretation runner_gate: invariant_system "\<lambda>g. g = new_gate" "gate_step cap" "gate_inv cap" for cap
proof
  fix g :: gate
  assume "g = new_gate"
  thus "gate_inv cap g"
    by (simp add: gate_inv_def counts_def queue_ok_def tickets_ok_def pcs_ok_def wakes_ok_def
        owns_lock_def new_gate_def)
next
  fix g g' :: gate
  assume "gate_step cap g g'" "gate_inv cap g"
  thus "gate_inv cap g'"
    using counts_step queue_tickets_step pcs_step wakes_step unfolding gate_inv_def by meson
qed

lemma reachable_gate: "(gate_step cap)\<^sup>*\<^sup>* new_gate g \<Longrightarrow> gate_inv cap g"
  using runner_gate.reachable_inv by blast

lemma position_order:
  assumes "sorted_wrt (<) xs" "position x xs = Some i" "position y xs = Some j"
  shows "i < j \<longleftrightarrow> x < y"
  using assms position_Some [OF assms(2)] position_Some [OF assms(3)]
    sorted_wrt_nth_less [OF assms(1), of i j] sorted_wrt_nth_less [OF assms(1), of j i]
  by (cases i j rule: linorder_cases) auto

subsection \<open>A concrete contended gate\<close>

definition demo_held :: gate where
  "demo_held = goto 0 Holding ((goto 0 (Fast 0) new_gate)\<lparr>held := 1\<rparr>)"

definition demo_queued :: gate where
  "demo_queued = goto 1 Check ((enqueue 1 (goto 1 WantLock (goto 1 (Fast 0) demo_held)))\<lparr>lock := Some 1\<rparr>)"

definition demo_sleeping :: gate where
  "demo_sleeping = goto 1 Asleep ((goto 1 SleepPre demo_queued)\<lparr>lock := None\<rparr>)"

lemmas demo_defs = demo_held_def new_gate_def goto_def enqueue_def try_take_def my_pos_def

lemma demo_held_reachable: "(gate_step 1)\<^sup>*\<^sup>* new_gate demo_held"
proof -
  have "gate_step 1 new_gate (goto 0 (Fast 0) new_gate)"
    using gate_step.acquire_start [of new_gate 0 1] by (simp add: new_gate_def)
  moreover have "gate_step 1 (goto 0 (Fast 0) new_gate) demo_held"
    unfolding demo_held_def by (rule gate_step.fast_take [of _ 0 0]) (simp_all add: try_take_def new_gate_def)
  ultimately show ?thesis by (meson converse_rtranclp_into_rtranclp rtranclp.rtrancl_refl)
qed

lemma demo_queued_reachable: "(gate_step 1)\<^sup>*\<^sup>* new_gate demo_queued"
proof -
  have "gate_step 1 demo_held (goto 1 (Fast 0) demo_held)"
    using gate_step.acquire_start [of demo_held 1 1] by (simp add: demo_defs)
  moreover have "gate_step 1 (goto 1 (Fast 0) demo_held) (goto 1 WantLock (goto 1 (Fast 0) demo_held))"
    by (rule gate_step.fast_fail [of _ 1 0]) (simp_all add: try_take_def demo_held_def)
  moreover have "gate_step 1 (goto 1 WantLock (goto 1 (Fast 0) demo_held)) demo_queued"
    using gate_step.take_lock [of "goto 1 WantLock (goto 1 (Fast 0) demo_held)" 1 1]
    by (simp add: demo_queued_def demo_held_def new_gate_def)
  ultimately show ?thesis using demo_held_reachable by (meson rtranclp.rtrancl_into_rtrancl)
qed

lemma demo_sleeping_reachable: "(gate_step 1)\<^sup>*\<^sup>* new_gate demo_sleeping"
proof -
  have "gate_step 1 demo_queued (goto 1 SleepPre demo_queued)"
    by (rule gate_step.check_wait [of _ 1 0]) (simp_all add: demo_queued_def demo_defs)
  moreover have "gate_step 1 (goto 1 SleepPre demo_queued) demo_sleeping"
    unfolding demo_sleeping_def by (rule gate_step.sleep) simp
  ultimately show ?thesis using demo_queued_reachable by (meson rtranclp.rtrancl_into_rtrancl)
qed

subsection \<open>Properties\<close>

text \<open>C19. The width budget holds under every interleaving: in each reachable state the counter equals the
  number of threads that hold a permit and does not exceed the capacity.\<close>

theorem gate_width:
  assumes "(gate_step cap)\<^sup>*\<^sup>* new_gate g"
  shows "held g = card {t. holds (pc_of g t)} \<and> held g \<le> cap"
  using reachable_gate [OF assms] by (simp add: gate_inv_def counts_def)

theorem gate_width_witness: "held demo_sleeping = card {t. holds (pc_of demo_sleeping t)} \<and> held demo_sleeping \<le> 1"
  by (rule gate_width [OF demo_sleeping_reachable])

text \<open>C6. No wake is lost: in a reachable state in which every thread is outside the gate or asleep in its
  queue, a thread sleeping at queue position \<open>i\<close> cannot be granted yet (\<open>held + i\<close> fills the capacity), so
  no thread sleeps while a permit is free for it.\<close>

theorem gate_no_lost_wake:
  assumes "(gate_step cap)\<^sup>*\<^sup>* new_gate g"
    and "\<forall>u. pc_of g u \<in> {Idle, Holding, Asleep}"
    and "pc_of g t = Asleep"
  shows "\<exists>i. my_pos g t = Some i \<and> cap \<le> held g + i"
proof -
  have inv: "gate_inv cap g" by (rule reachable_gate [OF assms(1)])
  have "\<not> notifying (pc_of g u)" for u using assms(2) [rule_format, of u] by (auto simp: notifying_def)
  hence "\<not> grantable cap g t" using inv assms(3) by (auto simp: gate_inv_def wakes_ok_def)
  moreover have "ticket g t \<noteq> 0" using inv assms(3) by (simp add: gate_inv_def pcs_ok_def)
  then obtain i where "my_pos g t = Some i" using my_pos_in_queue inv by (auto simp: gate_inv_def)
  ultimately show ?thesis by (auto simp: grantable_def)
qed

theorem gate_no_lost_wake_witness: "\<exists>i. my_pos demo_sleeping 1 = Some i \<and> 1 \<le> held demo_sleeping + i"
  by (rule gate_no_lost_wake [OF demo_sleeping_reachable])
     (simp_all add: demo_sleeping_def demo_queued_def demo_held_def new_gate_def)

text \<open>A waiting thread's ticket is always queued, so the lookup in \<^verbatim>\<open>acquire_slot\<close> never panics, and the
  queue is in ticket order: of two queued threads the one with the smaller ticket is ahead. The counter of
  waiters is the length of the queue.\<close>

theorem gate_queue_fifo:
  assumes "(gate_step cap)\<^sup>*\<^sup>* new_gate g" "pc_of g t \<in> {Check, SleepPre, Asleep}"
  shows "\<exists>i. my_pos g t = Some i \<and> waiting g = length (queue g) \<and> i < waiting g \<and>
     (\<forall>u j. ticket g u \<noteq> 0 \<longrightarrow> my_pos g u = Some j \<longrightarrow> (i < j \<longleftrightarrow> ticket g t < ticket g u))"
proof -
  have inv: "queue_ok g" "tickets_ok g" "pcs_ok g" using reachable_gate [OF assms(1)] by (simp_all add: gate_inv_def)
  have tk: "ticket g t \<noteq> 0" using inv assms(2) by (auto simp: pcs_ok_def)
  then obtain i where i: "my_pos g t = Some i" using my_pos_in_queue inv by blast
  have "i < j \<longleftrightarrow> ticket g t < ticket g u" if "ticket g u \<noteq> 0" "my_pos g u = Some j" for u j
    using position_order [of "queue g" "ticket g t - 1" i "ticket g u - 1" j] i that inv(1) tk
    by (auto simp: my_pos_def queue_ok_def)
  thus ?thesis using i inv(1) position_Some [of "ticket g t - 1" "queue g" i]
    by (auto simp: my_pos_def queue_ok_def)
qed

theorem gate_queue_fifo_witness: "\<exists>i. my_pos demo_sleeping 1 = Some i \<and> i < waiting demo_sleeping"
  using gate_queue_fifo [OF demo_sleeping_reachable, of 1] by (auto simp: demo_sleeping_def)

end
