(* ===== verification/MapData.thy ===== *)
theory MapData
  imports Prelude
begin

text \<open>
  The insertion-ordered hash map and set of \<^verbatim>\<open>src/src/vm/map_data.rs\<close> with their open-addressing
  index, and the probe and store operations of \<^verbatim>\<open>src/src/vm/equality.rs\<close> and \<^verbatim>\<open>step.rs\<close> over them. One
  thread runs; the entry block and the index table (each an \<^verbatim>\<open>RVec\<close>) are lists. A position past the 40
  bits of a slot is the capacity panic, \<open>None\<close>. Sizes are unbounded naturals.
\<close>

type_synonym 'e entry = "u64 \<times> 'e"

definition POS_BITS :: nat where "POS_BITS = 40"
definition TAG_BITS :: nat where "TAG_BITS = 64 - POS_BITS"
definition POS_MASK :: u64 where "POS_MASK = mask POS_BITS"
definition SPREAD :: u64 where "SPREAD = 0x9e3779b97f4a7c15"

fun trailing_zeros :: "nat \<Rightarrow> nat" where
  "trailing_zeros n = (if n = 0 then 64 else if odd n then 0 else Suc (trailing_zeros (n div 2)))"

declare trailing_zeros.simps [simp del]

definition place :: "u64 \<Rightarrow> nat \<Rightarrow> nat \<times> u64" where
  "place h cap =
     (let x = h * SPREAD; b = trailing_zeros cap
      in (unat (drop_bit (64 - b) x), drop_bit (64 - TAG_BITS) (push_bit b x)))"

definition slot_word :: "u64 \<Rightarrow> nat \<Rightarrow> u64 option" where
  "slot_word tag pos =
     (if pos + 1 > unat POS_MASK then None else Some (push_bit POS_BITS tag OR of_nat (pos + 1)))"

text \<open>\<^verbatim>\<open>next_power_of_two\<close>\<close>

fun ceil_log2 :: "nat \<Rightarrow> nat" where
  "ceil_log2 n = (if n \<le> 1 then 0 else Suc (ceil_log2 ((n + 1) div 2)))"

declare ceil_log2.simps [simp del]

definition next_power_of_two :: "nat \<Rightarrow> nat" where
  "next_power_of_two n = 2 ^ ceil_log2 n"

definition table_cap :: "nat \<Rightarrow> nat" where
  "table_cap n = max (next_power_of_two (2 * n)) 8"

text \<open>
  The first empty slot from \<open>i\<close> on, at most \<open>fuel\<close> slots away. The loop of \<^verbatim>\<open>build\<close> has no bound of its
  own: with the whole table as fuel, \<open>None\<close> means it would run forever.
\<close>

fun find_free :: "nat \<Rightarrow> u64 list \<Rightarrow> nat \<Rightarrow> nat option" where
  "find_free 0 t i = None"
| "find_free (Suc fuel) t i =
     (if t ! i = 0 then Some i else find_free fuel t ((i + 1) AND (length t - 1)))"

definition put_slot :: "u64 list \<Rightarrow> u64 \<Rightarrow> nat \<Rightarrow> u64 list option" where
  "put_slot t h pos =
     (let (i, tag) = place h (length t)
      in case find_free (length t) t i of
           None \<Rightarrow> None
         | Some j \<Rightarrow> map_option (\<lambda>w. t[j := w]) (slot_word tag pos))"

fun put_slots :: "u64 list \<Rightarrow> (u64 \<times> nat) list \<Rightarrow> u64 list option" where
  "put_slots t [] = Some t"
| "put_slots t ((h, pos) # ks) =
     (case put_slot t h pos of None \<Rightarrow> None | Some t' \<Rightarrow> put_slots t' ks)"

definition build :: "nat \<Rightarrow> (u64 \<times> nat) list \<Rightarrow> u64 list option" where
  "build n keys = put_slots (replicate (table_cap n) 0) keys"

definition from_hashes :: "u64 list \<Rightarrow> u64 list option" where
  "from_hashes hs = (if hs = [] then Some [] else build (length hs) (zip hs [0..<length hs]))"

text \<open>\<^verbatim>\<open>SharedIndex::insert\<close>: in place below half full, else into a table twice the size.\<close>

definition index_insert :: "u64 list \<Rightarrow> u64 list \<Rightarrow> u64 \<Rightarrow> nat \<Rightarrow> u64 list option" where
  "index_insert t hs h pos =
     (let cap = length t;
          grow = build (max cap (pos + 1)) (zip (take pos hs) [0..<pos] @ [(h, pos)])
      in if (pos + 1) * 2 \<le> cap
         then case find_free cap t (fst (place h cap)) of
                Some j \<Rightarrow> map_option (\<lambda>w. t[j := w]) (slot_word (snd (place h cap)) pos)
              | None \<Rightarrow> grow
         else grow)"

text \<open>What the candidate iterator yields until it ends; \<open>hs\<close> are the cached hashes of the entries.\<close>

fun cands :: "u64 list \<Rightarrow> u64 list \<Rightarrow> u64 \<Rightarrow> u64 \<Rightarrow> nat \<Rightarrow> nat \<Rightarrow> nat list" where
  "cands t hs h tag i 0 = []"
| "cands t hs h tag i (Suc left) =
     (let s = t ! i
      in if s = 0 then []
         else let pos = unat ((s AND POS_MASK) - 1);
                  rest = cands t hs h tag ((i + 1) AND (length t - 1)) left
              in if drop_bit POS_BITS s = tag \<and> pos < length hs \<and> hs ! pos = h then pos # rest else rest)"

definition index_candidates :: "u64 list \<Rightarrow> u64 list \<Rightarrow> u64 \<Rightarrow> nat list" where
  "index_candidates t hs h =
     (let (i, tag) = (if length t = 0 then (0, 0) else place h (length t))
      in cands t hs h tag i (length t))"

subsection \<open>Maps and sets\<close>

record 'e table =
  entries :: "'e entry list"
  index :: "u64 list"
  version :: u64

type_synonym ('k, 'v) map_data = "('k \<times> 'v) table"
type_synonym 'k set_data = "'k table"

definition hashes :: "'e entry list \<Rightarrow> u64 list" where
  "hashes es = map fst es"

definition from_entries :: "'e entry list \<Rightarrow> 'e table option" where
  "from_entries es =
     map_option (\<lambda>t. \<lparr>entries = es, index = t, version = 0\<rparr>) (from_hashes (hashes es))"

definition candidates :: "'e table \<Rightarrow> u64 \<Rightarrow> nat list" where
  "candidates m h = index_candidates (index m) (hashes (entries m)) h"

definition push_entry :: "u64 \<Rightarrow> 'e \<Rightarrow> 'e table \<Rightarrow> 'e table option" where
  "push_entry h e m =
     (let pos = length (entries m); es = entries m @ [(h, e)]
      in map_option (\<lambda>t. m\<lparr>entries := es, index := t, version := version m + 1\<rparr>)
           (index_insert (index m) (hashes es) h pos))"

text \<open>\<^verbatim>\<open>remove_at\<close>: the entry removed, or \<open>None\<close> and no change; the outer option is the panic of the rebuild.\<close>

definition remove_at :: "nat \<Rightarrow> 'e table \<Rightarrow> ('e entry option \<times> 'e table) option" where
  "remove_at i m =
     (if i \<ge> length (entries m) then Some (None, m)
      else let es = take i (entries m) @ drop (Suc i) (entries m)
           in map_option (\<lambda>t. (Some (entries m ! i), m\<lparr>entries := es, index := t, version := version m + 1\<rparr>))
                (from_hashes (hashes es)))"

definition value_at :: "nat \<Rightarrow> ('k, 'v) map_data \<Rightarrow> 'v option" where
  "value_at i m = (if i < length (entries m) then Some (snd (snd (entries m ! i))) else None)"

definition set_value :: "nat \<Rightarrow> 'v \<Rightarrow> ('k, 'v) map_data \<Rightarrow> 'v option \<times> ('k, 'v) map_data" where
  "set_value i v m =
     (if i \<ge> length (entries m) then (None, m)
      else case entries m ! i of
             (h, k, old) \<Rightarrow> (Some old, m\<lparr>entries := (entries m)[i := (h, k, v)]\<rparr>))"

text \<open>
  The probe when no user equality can re-enter: the first candidate whose key is equal. \<open>eq\<close> is the
  engine's structural equality, stored key first.
\<close>

definition probe :: "('k \<Rightarrow> 'k \<Rightarrow> bool) \<Rightarrow> ('e \<Rightarrow> 'k) \<Rightarrow> 'e table \<Rightarrow> u64 \<Rightarrow> 'k \<Rightarrow> nat option" where
  "probe eq key m hk k = find (\<lambda>p. eq (key (snd (entries m ! p))) k) (candidates m hk)"

definition map_probe :: "('k \<Rightarrow> 'k \<Rightarrow> bool) \<Rightarrow> ('k, 'v) map_data \<Rightarrow> u64 \<Rightarrow> 'k \<Rightarrow> nat option" where
  "map_probe eq m hk k = probe eq fst m hk k"

definition set_probe :: "('k \<Rightarrow> 'k \<Rightarrow> bool) \<Rightarrow> 'k set_data \<Rightarrow> u64 \<Rightarrow> 'k \<Rightarrow> nat option" where
  "set_probe eq s hk k = probe eq id s hk k"

definition map_lookup :: "('k \<Rightarrow> 'k \<Rightarrow> bool) \<Rightarrow> ('k, 'v) map_data \<Rightarrow> u64 \<Rightarrow> 'k \<Rightarrow> 'v option" where
  "map_lookup eq m hk k =
     (case map_probe eq m hk k of None \<Rightarrow> None | Some p \<Rightarrow> value_at p m)"

text \<open>Storing a key's value: overwrite the entry the probe finds, else push.\<close>

definition map_store :: "('k \<Rightarrow> 'k \<Rightarrow> bool) \<Rightarrow> u64 \<Rightarrow> 'k \<Rightarrow> 'v \<Rightarrow> ('k, 'v) map_data \<Rightarrow> ('k, 'v) map_data option" where
  "map_store eq hk k v m =
     (case map_probe eq m hk k of
        Some p \<Rightarrow>
          (case set_value p v m of
             (Some old, m') \<Rightarrow> Some m'
           | (None, m') \<Rightarrow> push_entry hk (k, v) m')
      | None \<Rightarrow> push_entry hk (k, v) m)"

subsection \<open>Slot words and places\<close>

lemma trailing_zeros_exp [simp]: "trailing_zeros (2 ^ b) = b"
  by (induction b) (simp_all add: trailing_zeros.simps)

lemma unat_POS_MASK: "unat POS_MASK = 2 ^ 40 - 1"
  by (simp add: POS_MASK_def POS_BITS_def mask_eq_exp_minus_1)

lemma unat_u64: "unat (w :: u64) < 2 ^ 64"
proof -
  have "unat w < 2 ^ LENGTH(64)" by (rule unsigned_less)
  thus ?thesis by simp
qed

lemma unat_drop: "unat (drop_bit k (w :: u64)) = unat w div 2 ^ k"
  by (subst unat_drop_bit_eq) (simp add: drop_bit_eq_div)

lemma low_bits:
  assumes "unat (w :: u64) < 2 ^ k" "bit w n"
  shows "n < k"
proof (rule ccontr)
  assume "\<not> n < k"
  hence "(2 :: nat) ^ k \<le> 2 ^ n" by (intro power_increasing) simp_all
  moreover have "bit (unat w) n" using assms(2) by (simp add: bit_unsigned_iff)
  hence "odd (unat w div 2 ^ n)" by (simp add: bit_iff_odd)
  hence "unat w div 2 ^ n \<noteq> 0" by (metis even_zero)
  hence "2 ^ n \<le> unat w" by (metis div_less not_le)
  ultimately show False using assms(1) by linarith
qed

lemma place_tag: "unat (snd (place h cap)) < 2 ^ 24"
proof -
  have "unat (drop_bit 40 w) < 2 ^ 24" for w :: u64
    unfolding unat_drop using unat_u64 [of w] by (simp add: less_mult_imp_div_less)
  thus ?thesis by (simp add: place_def Let_def TAG_BITS_def POS_BITS_def)
qed

lemma place_bound: "fst (place h (2 ^ b)) < 2 ^ b"
proof -
  let ?x = "h * SPREAD"
  have x: "unat ?x < 2 ^ 64" by (rule unat_u64)
  show ?thesis
  proof (cases "b \<le> 64")
    case True
    have "unat ?x div 2 ^ (64 - b) < 2 ^ b"
      using x True by (simp add: less_mult_imp_div_less flip: power_add)
    thus ?thesis by (simp add: place_def Let_def unat_drop)
  next
    case False
    hence "(2 :: nat) ^ 64 \<le> 2 ^ b" by (intro power_increasing) simp_all
    thus ?thesis using x False by (simp add: place_def Let_def)
  qed
qed

lemma slot_word_decode:
  assumes "slot_word tag pos = Some w" "unat tag < 2 ^ 24"
  shows "w \<noteq> 0" "drop_bit POS_BITS w = tag" "unat ((w AND POS_MASK) - 1) = pos"
proof -
  define p :: u64 where "p = of_nat (pos + 1)"
  have pos: "pos + 1 < 2 ^ 40" and w: "w = push_bit 40 tag OR p"
    using assms(1) by (auto simp: slot_word_def unat_POS_MASK p_def POS_BITS_def split: if_splits)
  have up: "unat p = pos + 1" using pos by (simp add: p_def unat_of_nat take_bit_eq_mod flip: of_nat_Suc)
  have lowp: "n < 40" if "bit p n" for n using low_bits [of p 40 n] that up pos by simp
  have lowt: "n < 24" if "bit tag n" for n using low_bits [of tag 24 n] that assms(2) by simp
  have and_p: "w AND POS_MASK = p"
    by (rule bit_word_eqI) (use lowp in \<open>auto simp: w POS_MASK_def POS_BITS_def bit_simps\<close>)
  show "w \<noteq> 0" using and_p up by auto
  show "drop_bit POS_BITS w = tag"
    by (rule bit_word_eqI) (use lowp lowt in \<open>auto simp: w POS_BITS_def bit_simps\<close>)
  have "p - 1 = of_nat pos" by (simp add: p_def)
  thus "unat ((w AND POS_MASK) - 1) = pos" using and_p pos by (simp add: unat_of_nat take_bit_eq_mod)
qed

lemma slot_word_Some: "pos + 1 < 2 ^ 40 \<Longrightarrow> \<exists>w. slot_word tag pos = Some w"
  by (simp add: slot_word_def unat_POS_MASK)

lemma ceil_log2_ge: "n \<le> 2 ^ ceil_log2 n"
proof (induction n rule: ceil_log2.induct)
  case (1 n)
  thus ?case by (subst ceil_log2.simps) (auto simp: div_le_mono)
qed

lemma table_cap_exp: "\<exists>b \<ge> 3. table_cap n = 2 ^ b"
proof -
  have "table_cap n = 2 ^ max 3 (ceil_log2 (2 * n))"
  proof (cases "ceil_log2 (2 * n) \<le> 3")
    case True
    hence "(2 :: nat) ^ ceil_log2 (2 * n) \<le> 2 ^ 3" by (intro power_increasing) simp_all
    thus ?thesis using True by (simp add: table_cap_def next_power_of_two_def max_def)
  next
    case False
    hence "(2 :: nat) ^ 3 \<le> 2 ^ ceil_log2 (2 * n)" by (intro power_increasing) simp_all
    thus ?thesis using False by (simp add: table_cap_def next_power_of_two_def max_def)
  qed
  thus ?thesis by (intro exI [of _ "max 3 (ceil_log2 (2 * n))"]) simp
qed

lemma table_cap_half: "2 * n \<le> table_cap n"
  using ceil_log2_ge [of "2 * n"] by (simp add: table_cap_def next_power_of_two_def)

lemma next_slot: "(i + 1) AND (2 ^ b - 1) = (i + 1) mod (2 ^ b :: nat)"
  using take_bit_eq_mask [of b "i + 1"] by (simp add: take_bit_eq_mod mask_eq_exp_minus_1)

subsection \<open>The table invariant\<close>

definition slot_at :: "u64 list \<Rightarrow> nat \<Rightarrow> nat \<Rightarrow> u64" where
  "slot_at t i k = t ! ((i + k) mod length t)"

text \<open>The word of entry \<open>p\<close> of hash \<open>h\<close>, and that it is found by probing from the hash's first slot.\<close>

definition word_of :: "u64 list \<Rightarrow> u64 \<Rightarrow> nat \<Rightarrow> u64" where
  "word_of t h p = the (slot_word (snd (place h (length t))) p)"

definition probed :: "u64 list \<Rightarrow> u64 \<Rightarrow> nat \<Rightarrow> bool" where
  "probed t h p \<longleftrightarrow>
     (\<exists>k < length t. slot_at t (fst (place h (length t))) k = word_of t h p \<and>
        (\<forall>j < k. slot_at t (fst (place h (length t))) j \<noteq> 0))"

definition filled :: "u64 list \<Rightarrow> u64 list \<Rightarrow> bool" where
  "filled t hs \<longleftrightarrow>
     (\<exists>b \<ge> 3. length t = 2 ^ b) \<and> length hs < 2 ^ 40 \<and>
     (\<forall>p < length hs. probed t (hs ! p) p) \<and>
     (\<forall>j < length t. t ! j \<noteq> 0 \<longrightarrow> (\<exists>p < length hs. t ! j = word_of t (hs ! p) p)) \<and>
     (\<forall>i j. i < length t \<longrightarrow> j < length t \<longrightarrow> t ! i \<noteq> 0 \<longrightarrow> t ! i = t ! j \<longrightarrow> i = j)"

definition index_ok :: "u64 list \<Rightarrow> u64 list \<Rightarrow> bool" where
  "index_ok t hs \<longleftrightarrow> (t = [] \<and> hs = []) \<or> (filled t hs \<and> 2 * length hs \<le> length t)"

definition table_ok :: "'e table \<Rightarrow> bool" where
  "table_ok m \<longleftrightarrow> index_ok (index m) (hashes (entries m))"

lemma word_of_decode:
  assumes "p + 1 < 2 ^ 40"
  shows "slot_word (snd (place h (length t))) p = Some (word_of t h p)"
    and "word_of t h p \<noteq> 0"
    and "drop_bit POS_BITS (word_of t h p) = snd (place h (length t))"
    and "unat ((word_of t h p AND POS_MASK) - 1) = p"
proof -
  obtain w where w: "slot_word (snd (place h (length t))) p = Some w"
    using slot_word_Some [OF assms] by blast
  hence "word_of t h p = w" by (simp add: word_of_def)
  thus "slot_word (snd (place h (length t))) p = Some (word_of t h p)" "word_of t h p \<noteq> 0"
    "drop_bit POS_BITS (word_of t h p) = snd (place h (length t))" "unat ((word_of t h p AND POS_MASK) - 1) = p"
    using w slot_word_decode [OF w place_tag] by simp_all
qed

lemma step_slot: "length t = 2 ^ b \<Longrightarrow> (i + 1) AND (length t - 1) = (i + 1) mod length t"
  using next_slot [of i b] by simp

lemma slot_at_Suc: "slot_at t ((i + 1) mod length t) k = slot_at t i (Suc k)"
  by (simp add: slot_at_def mod_add_left_eq)

lemma find_free_Some:
  assumes "length t = 2 ^ b" "i < length t" "find_free fuel t i = Some j"
  shows "\<exists>k < fuel. j = (i + k) mod length t \<and> t ! j = 0 \<and> (\<forall>l < k. slot_at t i l \<noteq> 0)"
  using assms(2,3)
proof (induction fuel arbitrary: i)
  case (Suc fuel)
  show ?case
  proof (cases "t ! i = 0")
    case True
    thus ?thesis using Suc.prems by (intro exI [of _ 0]) simp
  next
    case False
    have "(i + 1) mod length t < length t" using assms(1) by simp
    then obtain k where k: "k < fuel" "j = ((i + 1) mod length t + k) mod length t" "t ! j = 0"
      "\<forall>l < k. slot_at t ((i + 1) mod length t) l \<noteq> 0"
      using Suc.IH [of "(i + 1) mod length t"] Suc.prems False step_slot [OF assms(1), of i] by auto
    have "slot_at t i l \<noteq> 0" if "l < Suc k" for l
      using that k(4) False Suc.prems(1) slot_at_Suc [of t i "l - 1"] by (cases l) (auto simp: slot_at_def)
    thus ?thesis using k by (intro exI [of _ "Suc k"]) (auto simp: mod_add_left_eq)
  qed
qed simp

lemma find_free_None:
  assumes "length t = 2 ^ b" "i < length t" "find_free fuel t i = None" "k < fuel"
  shows "slot_at t i k \<noteq> 0"
  using assms(2-4)
proof (induction fuel arbitrary: i k)
  case (Suc fuel)
  have nz: "t ! i \<noteq> 0" and rest: "find_free fuel t ((i + 1) mod length t) = None"
    using Suc.prems step_slot [OF assms(1), of i] by (auto split: if_splits)
  show ?case
  proof (cases k)
    case 0
    thus ?thesis using nz Suc.prems(1) by (simp add: slot_at_def)
  next
    case (Suc l)
    have "(i + 1) mod length t < length t" using assms(1) by simp
    hence "slot_at t ((i + 1) mod length t) l \<noteq> 0" using Suc.IH rest Suc.prems(3) Suc by simp
    thus ?thesis using Suc by (simp only: slot_at_Suc not_False_eq_True)
  qed
qed simp

lemma filled_pos: "filled t hs \<Longrightarrow> p < length hs \<Longrightarrow> p + 1 < 2 ^ 40"
  by (simp add: filled_def)

text \<open>Every non-empty slot belongs to one entry, so a table with more slots than entries has room.\<close>

lemma filled_has_room:
  assumes ok: "filled t hs" and room: "length hs < length t"
  shows "\<exists>j < length t. t ! j = 0"
proof (rule ccontr)
  assume "\<not> ?thesis"
  hence nz: "t ! j \<noteq> 0" if "j < length t" for j using that by blast
  define f where "f j = unat ((t ! j AND POS_MASK) - 1)" for j
  have own: "f j < length hs \<and> t ! j = word_of t (hs ! f j) (f j)" if j: "j < length t" for j
  proof -
    obtain p where p: "p < length hs" "t ! j = word_of t (hs ! p) p"
      using ok j nz [OF j] unfolding filled_def by blast
    have "f j = p" using word_of_decode(4) [OF filled_pos [OF ok p(1)]] p(2) by (simp add: f_def)
    thus ?thesis using p by simp
  qed
  have "inj_on f {..<length t}"
  proof (rule inj_onI)
    fix i j assume ij: "i \<in> {..<length t}" "j \<in> {..<length t}" "f i = f j"
    hence "t ! i = t ! j" using own [of i] own [of j] by simp
    thus "i = j" using ok ij nz [of i] unfolding filled_def by (metis lessThan_iff)
  qed
  moreover have "f ` {..<length t} \<subseteq> {..<length hs}" using own by auto
  ultimately have "length t \<le> length hs" using card_inj_on_le [of f "{..<length t}" "{..<length hs}"] by simp
  thus False using room by simp
qed

lemma full_cycle:
  assumes "j < (n :: nat)" "i < n"
  shows "\<exists>k < n. (i + k) mod n = j"
proof (cases "i \<le> j")
  case True
  thus ?thesis using assms by (intro exI [of _ "j - i"]) simp
next
  case False
  thus ?thesis using assms by (intro exI [of _ "n + j - i"]) simp
qed

lemma filled_update:
  assumes ok: "filled t hs" and pos: "length hs + 1 < 2 ^ 40"
    and j: "k < length t" "j = (fst (place h (length t)) + k) mod length t" "t ! j = 0"
      "\<forall>l < k. slot_at t (fst (place h (length t))) l \<noteq> 0"
  shows "filled (t[j := word_of t h (length hs)]) (hs @ [h])"
proof -
  let ?w = "word_of t h (length hs)" let ?t = "t[j := ?w]"
  have len: "0 < length t" using j(1) by linarith
  hence jl: "j < length t" using j(2) by simp
  have w: "?w \<noteq> 0" "unat ((?w AND POS_MASK) - 1) = length hs"
    using word_of_decode [OF pos] by simp_all
  have wo: "word_of ?t x p = word_of t x p" for x p by (simp add: word_of_def)
  have nz: "slot_at ?t i l \<noteq> 0" if "slot_at t i l \<noteq> 0" for i l
    using that w(1) jl len by (auto simp: slot_at_def nth_list_update)
  have keep: "slot_at ?t i l = slot_at t i l" if "slot_at t i l \<noteq> 0" for i l
    using that j(3) by (cases "(i + l) mod length t = j") (auto simp: slot_at_def)
  have old: "t ! i \<noteq> ?w" if i: "i < length t" for i
  proof
    assume eq: "t ! i = ?w"
    then obtain p where p: "p < length hs" "t ! i = word_of t (hs ! p) p"
      using ok i w(1) unfolding filled_def by metis
    hence "unat ((?w AND POS_MASK) - 1) = p" using word_of_decode(4) [OF filled_pos [OF ok p(1)]] eq by metis
    thus False using w(2) p(1) by simp
  qed
  have "probed ?t ((hs @ [h]) ! p) p" if p: "p < length (hs @ [h])" for p
  proof (cases "p < length hs")
    case True
    then obtain k' where k': "k' < length t" "slot_at t (fst (place (hs ! p) (length t))) k' = word_of t (hs ! p) p"
      "\<forall>l < k'. slot_at t (fst (place (hs ! p) (length t))) l \<noteq> 0"
      using ok by (auto simp: filled_def probed_def)
    have "word_of t (hs ! p) p \<noteq> 0" using word_of_decode(2) [OF filled_pos [OF ok True]] .
    thus ?thesis using k' keep nz True
      by (auto simp: probed_def wo nth_append intro!: exI [of _ k'])
  next
    case False
    hence "p = length hs" using p by simp
    moreover have "slot_at ?t (fst (place h (length t))) k = ?w"
      using j(2) jl by (simp add: slot_at_def)
    ultimately show ?thesis using j(1,4) nz
      by (auto simp: probed_def wo intro!: exI [of _ k])
  qed
  moreover have "\<exists>p < length (hs @ [h]). ?t ! i = word_of ?t ((hs @ [h]) ! p) p" if i: "i < length ?t" "?t ! i \<noteq> 0" for i
  proof (cases "i = j")
    case True
    thus ?thesis using jl by (intro exI [of _ "length hs"]) (simp add: wo)
  next
    case False
    then obtain p where "p < length hs" "t ! i = word_of t (hs ! p) p"
      using i ok False unfolding filled_def by auto
    thus ?thesis using False by (intro exI [of _ p]) (simp add: wo nth_append)
  qed
  moreover have "x = y" if "x < length ?t" "y < length ?t" "?t ! x \<noteq> 0" "?t ! x = ?t ! y" for x y
    using that ok old jl unfolding filled_def by (metis length_list_update nth_list_update nth_list_update_eq)
  ultimately show ?thesis using ok pos unfolding filled_def by simp
qed

lemma put_slot_ok:
  assumes ok: "filled t hs" and room: "length hs < length t" and pos: "length hs + 1 < 2 ^ 40"
  shows "\<exists>j. find_free (length t) t (fst (place h (length t))) = Some j \<and>
     slot_word (snd (place h (length t))) (length hs) = Some (word_of t h (length hs)) \<and>
     filled (t[j := word_of t h (length hs)]) (hs @ [h])"
proof -
  obtain b where b: "length t = 2 ^ b" using ok by (auto simp: filled_def)
  let ?i = "fst (place h (length t))"
  have i: "?i < length t" using place_bound [of h b] b by simp
  obtain z where z: "z < length t" "t ! z = 0" using filled_has_room [OF ok room] by blast
  then obtain kz where "kz < length t" "(?i + kz) mod length t = z" using full_cycle [OF z(1) i] by blast
  hence "find_free (length t) t ?i \<noteq> None"
    using find_free_None [OF b i, of "length t" kz] z(2) by (auto simp: slot_at_def)
  then obtain j where j: "find_free (length t) t ?i = Some j" by blast
  then obtain k where "k < length t" "j = (?i + k) mod length t" "t ! j = 0" "\<forall>l < k. slot_at t ?i l \<noteq> 0"
    using find_free_Some [OF b i] by blast
  hence "filled (t[j := word_of t h (length hs)]) (hs @ [h])" using filled_update [OF ok pos] by blast
  thus ?thesis using j word_of_decode(1) [OF pos] by blast
qed

lemma put_slot_filled:
  assumes "filled t hs" "length hs < length t" "length hs + 1 < 2 ^ 40"
  shows "\<exists>t'. put_slot t h (length hs) = Some t' \<and> filled t' (hs @ [h]) \<and> length t' = length t"
  using put_slot_ok [OF assms, of h] by (auto simp: put_slot_def split_beta Let_def)

lemma put_slots_filled:
  assumes "filled t hs" "length hs + length ks \<le> length t" "length hs + length ks < 2 ^ 40"
  shows "\<exists>t'. put_slots t (zip ks [length hs..<length hs + length ks]) = Some t' \<and> filled t' (hs @ ks) \<and>
              length t' = length t"
  using assms
proof (induction ks arbitrary: t hs)
  case (Cons h ks)
  obtain t' where t': "put_slot t h (length hs) = Some t'" "filled t' (hs @ [h])" "length t' = length t"
    using put_slot_filled [OF Cons.prems(1), of h] Cons.prems by auto
  have "\<exists>t''. put_slots t' (zip ks [Suc (length hs)..<Suc (length hs) + length ks]) = Some t'' \<and>
              filled t'' ((hs @ [h]) @ ks) \<and> length t'' = length t'"
    using Cons.IH [OF t'(2)] Cons.prems t'(3) by simp
  moreover have "[length hs..<length hs + length (h # ks)] = length hs # [Suc (length hs)..<Suc (length hs) + length ks]"
    by (subst upt_conv_Cons) simp_all
  ultimately show ?case using t' by (simp del: upt_Suc)
qed simp

lemma filled_empty: "filled (replicate (table_cap n) 0) []"
  using table_cap_exp [of n] by (simp add: filled_def)

lemma build_filled:
  assumes "length hs \<le> n" "length hs < 2 ^ 40"
  shows "\<exists>t. build n (zip hs [0..<length hs]) = Some t \<and> filled t hs \<and> length t = table_cap n"
proof -
  have "length hs \<le> table_cap n" using assms(1) table_cap_half [of n] by simp
  thus ?thesis using put_slots_filled [OF filled_empty [of n], of hs] assms(2) by (simp add: build_def)
qed

lemma from_hashes_ok:
  assumes "length hs < 2 ^ 40"
  shows "\<exists>t. from_hashes hs = Some t \<and> index_ok t hs"
  using build_filled [of hs "length hs"] assms table_cap_half [of "length hs"]
  by (cases "hs = []") (auto simp: from_hashes_def index_ok_def)

lemma index_insert_ok:
  assumes ok: "index_ok t hs" and pos: "length hs + 1 < 2 ^ 40"
  shows "\<exists>t'. index_insert t (hs @ [h]) h (length hs) = Some t' \<and> index_ok t' (hs @ [h])"
proof (cases "(length hs + 1) * 2 \<le> length t")
  case True
  hence "filled t hs" "length hs < length t" using ok by (auto simp: index_ok_def)
  thus ?thesis using put_slot_ok [of t hs h] pos True
    by (auto simp: index_insert_def Let_def index_ok_def)
next
  case False
  let ?n = "max (length t) (length hs + 1)"
  have keys: "zip (take (length hs) (hs @ [h])) [0..<length hs] @ [(h, length hs)]
              = zip (hs @ [h]) [0..<length (hs @ [h])]" by simp
  obtain t' where "build ?n (zip (hs @ [h]) [0..<length (hs @ [h])]) = Some t'" "filled t' (hs @ [h])"
    "length t' = table_cap ?n"
    using build_filled [of "hs @ [h]" ?n] pos by auto
  moreover have "length (hs @ [h]) \<le> ?n" by simp
  hence "2 * length (hs @ [h]) \<le> table_cap ?n"
    using table_cap_half [of ?n] mult_le_mono2 [of "length (hs @ [h])" ?n 2] by (meson le_trans)
  ultimately show ?thesis using False
    unfolding index_insert_def Let_def keys by (simp add: index_ok_def)
qed

subsection \<open>The candidates\<close>

lemma cands_set:
  assumes "length t = 2 ^ b" "i < length t"
  shows "p \<in> set (cands t hs h tag i n) \<longleftrightarrow>
    p < length hs \<and> hs ! p = h \<and>
    (\<exists>k < n. (\<forall>l \<le> k. slot_at t i l \<noteq> 0) \<and> drop_bit POS_BITS (slot_at t i k) = tag \<and>
             unat ((slot_at t i k AND POS_MASK) - 1) = p)"
  using assms(2)
proof (induction n arbitrary: i)
  case (Suc n)
  let ?i = "(i + 1) mod length t"
  have first: "slot_at t i 0 = t ! i" using Suc.prems by (simp add: slot_at_def)
  have "?i < length t" using assms(1) by simp
  note IH = Suc.IH [OF this, simplified]
  have shift: "(\<exists>k < Suc n. P k) \<longleftrightarrow> P 0 \<or> (\<exists>k < n. P (Suc k))" for P
    using Ex_less_Suc2 by auto
  have all: "(\<forall>l \<le> Suc k. slot_at t i l \<noteq> 0) \<longleftrightarrow> t ! i \<noteq> 0 \<and> (\<forall>l \<le> k. slot_at t i (Suc l) \<noteq> 0)" for k
    using first by (metis Suc_le_mono le0 not0_implies_Suc)
  show ?case
    unfolding shift all using step_slot [OF assms(1), of i]
    by (simp add: Let_def IH slot_at_Suc [of t i, simplified] first) blast
qed simp

lemma cands_distinct:
  assumes ok: "filled t hs" and b: "length t = 2 ^ b" and i: "i < length t" "n \<le> length t"
  shows "distinct (cands t hs h tag i n)"
  using i
proof (induction n arbitrary: i)
  case (Suc n)
  let ?i = "(i + 1) mod length t"
  have i': "?i < length t" using b by simp
  show ?case
  proof (cases "t ! i = 0")
    case False
    let ?pos = "unat ((t ! i AND POS_MASK) - 1)"
    have own: "t ! x = word_of t (hs ! unat ((t ! x AND POS_MASK) - 1)) (unat ((t ! x AND POS_MASK) - 1))"
      if x: "x < length t" "t ! x \<noteq> 0" for x
    proof -
      obtain p where p: "p < length hs" "t ! x = word_of t (hs ! p) p"
        using ok x unfolding filled_def by blast
      thus ?thesis using word_of_decode(4) [OF filled_pos [OF ok p(1)]] by simp
    qed
    have "?pos \<notin> set (cands t hs h tag ?i n)"
    proof
      assume "?pos \<in> set (cands t hs h tag ?i n)"
      then obtain k where k: "k < n" "slot_at t ?i k \<noteq> 0" "unat ((slot_at t ?i k AND POS_MASK) - 1) = ?pos"
        unfolding cands_set [OF b i'] by blast
      let ?x = "(i + Suc k) mod length t"
      have x: "slot_at t ?i k = t ! ?x" "?x < length t"
        using slot_at_Suc [of t i k] b by (simp_all add: slot_at_def)
      have "t ! ?x = t ! i" using own [of ?x] own [of i] k x Suc.prems(1) False by metis
      hence "?x = i" using ok x(2) k(2) x(1) Suc.prems(1) unfolding filled_def by metis
      hence "length t dvd Suc k"
        using Suc.prems(1) by (metis mod_less mod_eq_dvd_iff_nat le_add1 add_diff_cancel_left')
      thus False using k(1) Suc.prems(2) by (auto dest: dvd_imp_le)
    qed
    thus ?thesis using False Suc.IH [OF i'] Suc.prems(2) step_slot [OF b, of i]
      by (simp add: Let_def)
  qed simp
qed simp

lemma index_candidates_exact:
  assumes ok: "index_ok t hs"
  shows "set (index_candidates t hs h) = {p. p < length hs \<and> hs ! p = h}"
    and "distinct (index_candidates t hs h)"
proof -
  have "set (index_candidates t hs h) = {p. p < length hs \<and> hs ! p = h} \<and> distinct (index_candidates t hs h)"
  proof (cases "t = []")
    case True
    thus ?thesis using ok by (auto simp: index_ok_def index_candidates_def filled_def)
  next
    case False
    hence f: "filled t hs" using ok by (simp add: index_ok_def)
    then obtain b where b: "length t = 2 ^ b" by (auto simp: filled_def)
    let ?i = "fst (place h (length t))" and ?tag = "snd (place h (length t))"
    have i: "?i < length t" using place_bound [of h b] b by simp
    have c: "index_candidates t hs h = cands t hs h ?tag ?i (length t)"
      using False by (simp add: index_candidates_def split_beta)
    have "p \<in> set (cands t hs h ?tag ?i (length t))" if p: "p < length hs" "hs ! p = h" for p
    proof -
      obtain k where k: "k < length t" "slot_at t ?i k = word_of t h p" "\<forall>l < k. slot_at t ?i l \<noteq> 0"
        using f p unfolding filled_def probed_def by blast
      have w: "word_of t h p \<noteq> 0" "drop_bit POS_BITS (word_of t h p) = ?tag" "unat ((word_of t h p AND POS_MASK) - 1) = p"
        using word_of_decode [OF filled_pos [OF f p(1)]] by simp_all
      have "slot_at t ?i l \<noteq> 0" if "l \<le> k" for l using k(2,3) w(1) that by (cases "l = k") auto
      thus ?thesis unfolding cands_set [OF b i] using p k w by metis
    qed
    moreover have "p < length hs \<and> hs ! p = h" if "p \<in> set (cands t hs h ?tag ?i (length t))" for p
      using that unfolding cands_set [OF b i] by blast
    ultimately show ?thesis using cands_distinct [OF f b i] c by auto
  qed
  thus "set (index_candidates t hs h) = {p. p < length hs \<and> hs ! p = h}"
    "distinct (index_candidates t hs h)" by blast+
qed

subsection \<open>The interface of an indexed entry store\<close>

text \<open>
  What a client of the index relies on: the candidates of a hash are exactly the positions of the
  entries with that cached hash, each once.
\<close>

lemma find_hit: "find Q xs = Some p \<Longrightarrow> p \<in> set xs \<and> Q p"
  by (induction xs) (auto split: if_splits)

locale indexed_entries =
  fixes ok :: "'m \<Rightarrow> bool"
    and ents :: "'m \<Rightarrow> 'e entry list"
    and cand :: "'m \<Rightarrow> u64 \<Rightarrow> nat list"
  assumes cand_set: "ok m \<Longrightarrow> set (cand m h) = {p. p < length (ents m) \<and> fst (ents m ! p) = h}"
    and cand_distinct: "ok m \<Longrightarrow> distinct (cand m h)"
begin

lemma find_None: "ok m \<Longrightarrow> find Q (cand m h) = None \<longleftrightarrow> (\<forall>p < length (ents m). fst (ents m ! p) = h \<longrightarrow> \<not> Q p)"
  by (auto simp: find_None_iff cand_set)

lemma find_Some: "ok m \<Longrightarrow> find Q (cand m h) = Some p \<Longrightarrow> p < length (ents m) \<and> fst (ents m ! p) = h \<and> Q p"
  using find_hit [of Q "cand m h" p] cand_set [of m h] by simp

text \<open>A property that at most one entry has is found exactly when an entry of the hash has it.\<close>

lemma find_unique:
  assumes "ok m" "p < length (ents m)" "fst (ents m ! p) = h" "Q p"
    and "\<And>q. q < length (ents m) \<Longrightarrow> Q q \<Longrightarrow> q = p"
  shows "find Q (cand m h) = Some p"
proof (cases "find Q (cand m h)")
  case None
  thus ?thesis using find_None [OF assms(1), of Q h] assms(2-4) by blast
next
  case (Some q)
  thus ?thesis using find_Some [OF assms(1) Some] assms(5) by blast
qed

end

interpretation table_index: indexed_entries table_ok entries candidates
proof
  fix m :: "'e table" and h
  assume "table_ok m"
  hence ok: "index_ok (index m) (hashes (entries m))" by (simp add: table_ok_def)
  show "set (candidates m h) = {p. p < length (entries m) \<and> fst (entries m ! p) = h}"
    using index_candidates_exact(1) [OF ok, of h] by (simp add: candidates_def hashes_def cong: conj_cong)
  show "distinct (candidates m h)"
    using index_candidates_exact(2) [OF ok, of h] by (simp add: candidates_def)
qed

lemma push_entry_ok:
  assumes "table_ok m" "length (entries m) + 1 < 2 ^ 40"
  shows "\<exists>m'. push_entry h e m = Some m' \<and> table_ok m' \<and> entries m' = entries m @ [(h, e)] \<and>
              version m' = version m + 1"
  using index_insert_ok [of "index m" "hashes (entries m)" h] assms
  by (auto simp: push_entry_def table_ok_def hashes_def)

lemma remove_at_ok:
  assumes "table_ok m" "i < length (entries m)"
  shows "\<exists>m'. remove_at i m = Some (Some (entries m ! i), m') \<and> table_ok m' \<and>
              entries m' = take i (entries m) @ drop (Suc i) (entries m)"
proof -
  let ?es = "take i (entries m) @ drop (Suc i) (entries m)"
  have "length (entries m) < 2 ^ 40" using assms by (auto simp: table_ok_def index_ok_def filled_def hashes_def)
  hence "length (hashes ?es) < 2 ^ 40" using assms(2) by (simp add: hashes_def)
  then obtain t where "from_hashes (hashes ?es) = Some t" "index_ok t (hashes ?es)" using from_hashes_ok by blast
  thus ?thesis using assms(2) by (simp add: remove_at_def Let_def table_ok_def)
qed

subsection \<open>Maps with a hash function that respects equality\<close>

abbreviation key_at :: "('k, 'v) map_data \<Rightarrow> nat \<Rightarrow> 'k" where
  "key_at m p \<equiv> fst (snd (entries m ! p))"

abbreviation val_at :: "('k, 'v) map_data \<Rightarrow> nat \<Rightarrow> 'v" where
  "val_at m p \<equiv> snd (snd (entries m ! p))"

definition map_wf :: "('k \<Rightarrow> 'k \<Rightarrow> bool) \<Rightarrow> ('k \<Rightarrow> u64) \<Rightarrow> ('k, 'v) map_data \<Rightarrow> bool" where
  "map_wf eq H m \<longleftrightarrow>
     table_ok m \<and> (\<forall>p < length (entries m). fst (entries m ! p) = H (key_at m p)) \<and>
     (\<forall>p < length (entries m). \<forall>q < length (entries m). eq (key_at m p) (key_at m q) \<longrightarrow> p = q)"

definition hash_respects :: "('k \<Rightarrow> 'k \<Rightarrow> bool) \<Rightarrow> ('k \<Rightarrow> u64) \<Rightarrow> bool" where
  "hash_respects eq H \<longleftrightarrow> equivp eq \<and> (\<forall>a b. eq a b \<longrightarrow> H a = H b)"

lemma map_probe_hit:
  assumes "hash_respects eq H" "map_wf eq H m" "p < length (entries m)" "eq (key_at m p) k"
  shows "map_probe eq m (H k) k = Some p"
  unfolding map_probe_def probe_def
proof (rule table_index.find_unique)
  show "table_ok m" "p < length (entries m)" "eq (key_at m p) k" using assms by (simp_all add: map_wf_def)
  show "fst (entries m ! p) = H k" using assms by (simp add: map_wf_def hash_respects_def)
  fix q assume "q < length (entries m)" "eq (key_at m q) k"
  moreover from this have "eq (key_at m q) (key_at m p)"
    using assms(1,4) by (meson equivp_symp equivp_transp hash_respects_def)
  ultimately show "q = p" using assms(2,3) by (simp add: map_wf_def)
qed

lemma map_probe_cases:
  assumes "hash_respects eq H" "map_wf eq H m"
  obtains p where "map_probe eq m (H k) k = Some p" "p < length (entries m)" "eq (key_at m p) k"
  | "map_probe eq m (H k) k = None" "\<forall>p < length (entries m). \<not> eq (key_at m p) k"
proof (cases "\<exists>p < length (entries m). eq (key_at m p) k")
  case True
  thus ?thesis using that map_probe_hit [OF assms] by blast
next
  case False
  moreover have "table_ok m" using assms(2) by (simp add: map_wf_def)
  ultimately have "map_probe eq m (H k) k = None"
    unfolding map_probe_def probe_def by (simp add: table_index.find_None)
  thus ?thesis using that False by blast
qed

lemma map_lookup_eq:
  assumes "hash_respects eq H" "map_wf eq H m"
  shows "map_lookup eq m (H k) k = Some v \<longleftrightarrow> (\<exists>p < length (entries m). eq (key_at m p) k \<and> val_at m p = v)"
proof (cases rule: map_probe_cases [OF assms, of k])
  case (1 p)
  have "q = p" if "q < length (entries m)" "eq (key_at m q) k" for q
    using map_probe_hit [OF assms that] 1(1) by simp
  moreover have "map_lookup eq m (H k) k = Some (val_at m p)"
    using 1(1,2) by (simp add: map_lookup_def value_at_def)
  ultimately show ?thesis using 1(2,3) by (metis option.inject)
next
  case 2
  thus ?thesis by (simp add: map_lookup_def) blast
qed

lemma map_lookup_None:
  assumes "hash_respects eq H" "map_wf eq H m"
  shows "map_lookup eq m (H k) k = None \<longleftrightarrow> (\<forall>p < length (entries m). \<not> eq (key_at m p) k)"
  using map_lookup_eq [OF assms, of k] by (metis not_None_eq)

lemma eq_sym_trans:
  assumes "hash_respects eq H"
  shows "eq a a" "eq a b \<Longrightarrow> eq b a" "eq a b \<Longrightarrow> eq b c \<Longrightarrow> eq a c"
  using assms unfolding hash_respects_def by (meson equivp_reflp equivp_symp equivp_transp)+

lemma map_store_push:
  assumes H: "hash_respects eq H" and wf: "map_wf eq H m" and room: "length (entries m) + 1 < 2 ^ 40"
    and new: "\<forall>p < length (entries m). \<not> eq (key_at m p) k"
  shows "\<exists>m'. push_entry (H k) (k, v) m = Some m' \<and> map_wf eq H m' \<and>
     entries m' = entries m @ [(H k, k, v)]"
proof -
  obtain m' where m': "push_entry (H k) (k, v) m = Some m'" "table_ok m'" "entries m' = entries m @ [(H k, k, v)]"
    using push_entry_ok [of m "H k" "(k, v)"] wf room by (auto simp: map_wf_def)
  have "map_wf eq H m'"
    unfolding map_wf_def
  proof (intro conjI allI impI)
    show "table_ok m'" by fact
    show "fst (entries m' ! p) = H (key_at m' p)" if "p < length (entries m')" for p
      using that wf by (auto simp: m'(3) nth_append map_wf_def)
    show "p = q" if "p < length (entries m')" "q < length (entries m')" "eq (key_at m' p) (key_at m' q)" for p q
    proof (cases "p < length (entries m)"; cases "q < length (entries m)")
      assume "p < length (entries m)" "q < length (entries m)"
      thus ?thesis using that wf by (simp add: m'(3) nth_append map_wf_def)
    next
      assume "p < length (entries m)" "\<not> q < length (entries m)"
      thus ?thesis using that new by (simp add: m'(3) nth_append)
    next
      assume "\<not> p < length (entries m)" "q < length (entries m)"
      hence "eq k (key_at m q)" using that by (simp add: m'(3) nth_append)
      thus ?thesis using \<open>q < length (entries m)\<close> new eq_sym_trans(2) [OF H] by blast
    next
      assume "\<not> p < length (entries m)" "\<not> q < length (entries m)"
      thus ?thesis using that by (simp add: m'(3))
    qed
  qed
  thus ?thesis using m' by blast
qed

lemma table_ok_values: "table_ok m \<Longrightarrow> hashes es = hashes (entries m) \<Longrightarrow> table_ok (m\<lparr>entries := es\<rparr>)"
  by (simp add: table_ok_def)

lemma map_store_overwrite:
  assumes wf: "map_wf eq H m" and p: "p < length (entries m)"
  shows "\<exists>m'. set_value p v m = (Some (val_at m p), m') \<and> map_wf eq H m' \<and>
     entries m' = (entries m)[p := (fst (entries m ! p), key_at m p, v)]"
proof -
  let ?e = "(fst (entries m ! p), key_at m p, v)"
  let ?m = "m\<lparr>entries := (entries m)[p := ?e]\<rparr>"
  have key: "key_at ?m q = key_at m q" "fst (entries ?m ! q) = fst (entries m ! q)" for q
    using p by (cases "q = p"; simp)+
  have "hashes (entries ?m) = hashes (entries m)"
    by (rule nth_equalityI) (use key(2) in \<open>simp_all add: hashes_def\<close>)
  hence "table_ok ?m" using wf table_ok_values [of m "(entries m)[p := ?e]"] by (simp add: map_wf_def)
  hence "map_wf eq H ?m" using wf unfolding map_wf_def key by simp
  moreover have "set_value p v m = (Some (val_at m p), ?m)"
    using p by (simp add: set_value_def split: prod.splits)
  ultimately show ?thesis by simp
qed

lemma map_wf_unique:
  "map_wf eq H m \<Longrightarrow> p < length (entries m) \<Longrightarrow> q < length (entries m) \<Longrightarrow> eq (key_at m p) (key_at m q) \<Longrightarrow> p = q"
  by (simp add: map_wf_def)

lemma map_remove_wf:
  assumes wf: "map_wf eq H m" and p: "p < length (entries m)"
  shows "\<exists>m'. remove_at p m = Some (Some (entries m ! p), m') \<and> map_wf eq H m' \<and>
     entries m' = take p (entries m) @ drop (Suc p) (entries m)"
proof -
  obtain m' where m': "remove_at p m = Some (Some (entries m ! p), m')" "table_ok m'"
    "entries m' = take p (entries m) @ drop (Suc p) (entries m)"
    using remove_at_ok [of m p] wf p by (auto simp: map_wf_def)
  let ?f = "\<lambda>q. if q < p then q else Suc q"
  have nth: "entries m' ! q = entries m ! ?f q" "?f q < length (entries m)" if "q < length (entries m')" for q
    using that p by (auto simp: m'(3) nth_append)
  have "map_wf eq H m'"
    unfolding map_wf_def
  proof (intro conjI allI impI)
    show "table_ok m'" by fact
    show "fst (entries m' ! q) = H (key_at m' q)" if "q < length (entries m')" for q
      using nth [OF that] wf by (simp add: map_wf_def)
    show "q = r" if "q < length (entries m')" "r < length (entries m')" "eq (key_at m' q) (key_at m' r)" for q r
    proof -
      have "?f q = ?f r"
        by (rule map_wf_unique [OF wf]) (use nth [OF that(1)] nth [OF that(2)] that(3) in simp_all)
      thus ?thesis by (auto split: if_splits)
    qed
  qed
  thus ?thesis using m' by blast
qed

text \<open>Two maps that agree on the entries whose key is equal to \<open>k\<close> answer the same lookup.\<close>

lemma map_lookup_cong:
  assumes "hash_respects eq H" "map_wf eq H m" "map_wf eq H m'"
    and "\<And>w. (\<exists>p < length (entries m'). eq (key_at m' p) k \<and> val_at m' p = w) \<longleftrightarrow>
              (\<exists>p < length (entries m). eq (key_at m p) k \<and> val_at m p = w)"
  shows "map_lookup eq m' (H k) k = map_lookup eq m (H k) k"
  using assms(4) map_lookup_eq [OF assms(1,2)] map_lookup_eq [OF assms(1,3)] by (metis not_None_eq)

lemma map_overwrite_lookup:
  assumes H: "hash_respects eq H" and wf: "map_wf eq H m" "map_wf eq H m'"
    and p: "p < length (entries m)" "eq (key_at m p) k"
    and m': "entries m' = (entries m)[p := (fst (entries m ! p), key_at m p, v)]"
  shows "map_lookup eq m' (H k') k' = (if eq k k' then Some v else map_lookup eq m (H k') k')"
proof -
  note eqv = eq_sym_trans [OF H]
  have at: "key_at m' q = key_at m q" "val_at m' q = (if q = p then v else val_at m q)" for q
    using p(1) by (cases "q = p"; simp add: m')+
  have len: "length (entries m') = length (entries m)" by (simp add: m')
  show ?thesis
  proof (cases "eq k k'")
    case True
    hence "eq (key_at m' p) k'" using at(1) p(2) eqv(3) by metis
    thus ?thesis using True map_lookup_eq [OF H wf(2), of k' v] at(2) [of p] p(1) len by auto
  next
    case False
    hence "\<not> eq (key_at m p) k'" using p(2) eqv(2,3) by metis
    hence "map_lookup eq m' (H k') k' = map_lookup eq m (H k') k'"
      by (intro map_lookup_cong [OF H wf]) (metis at len)
    thus ?thesis using False by simp
  qed
qed

lemma map_push_lookup:
  assumes H: "hash_respects eq H" and wf: "map_wf eq H m" "map_wf eq H m'"
    and new: "\<forall>p < length (entries m). \<not> eq (key_at m p) k"
    and m': "entries m' = entries m @ [(H k, k, v)]"
  shows "map_lookup eq m' (H k') k' = (if eq k k' then Some v else map_lookup eq m (H k') k')"
proof (cases "eq k k'")
  case True
  thus ?thesis using map_lookup_eq [OF H wf(2), of k' v] by (auto simp: m' nth_append intro!: exI [of _ "length (entries m)"])
next
  case False
  have "map_lookup eq m' (H k') k' = map_lookup eq m (H k') k'"
    using False by (intro map_lookup_cong [OF H wf]) (auto simp: m' nth_append less_Suc_eq)
  thus ?thesis using False by simp
qed

lemma map_remove_lookups:
  assumes H: "hash_respects eq H" and wf: "map_wf eq H m" "map_wf eq H m'"
    and p: "p < length (entries m)" "eq (key_at m p) k"
    and m': "entries m' = take p (entries m) @ drop (Suc p) (entries m)"
  shows "map_lookup eq m' (H k') k' = (if eq k k' then None else map_lookup eq m (H k') k')"
proof -
  note eqv = eq_sym_trans [OF H]
  let ?f = "\<lambda>q. if q < p then q else Suc q"
  have nth: "entries m' ! q = entries m ! ?f q \<and> ?f q < length (entries m) \<and> ?f q \<noteq> p"
    if "q < length (entries m')" for q
    using that p(1) by (auto simp: m' nth_append)
  have orig: "\<exists>q < length (entries m'). entries m' ! q = entries m ! r" if "r < length (entries m)" "r \<noteq> p" for r
    using that p(1) by (intro exI [of _ "if r < p then r else r - 1"]) (auto simp: m' nth_append)
  show ?thesis
  proof (cases "eq k k'")
    case True
    have "\<not> eq (key_at m' q) k'" if "q < length (entries m')" for q
    proof
      assume "eq (key_at m' q) k'"
      hence "eq (key_at m (?f q)) k'" using nth [OF that] by simp
      hence "eq (key_at m (?f q)) (key_at m p)" by (meson True p(2) eqv(2,3))
      hence "?f q = p" using map_wf_unique [OF wf(1)] nth [OF that] p(1) by blast
      thus False using nth [OF that] by blast
    qed
    thus ?thesis using True map_lookup_None [OF H wf(2)] by simp
  next
    case False
    hence "\<not> eq (key_at m p) k'" using p(2) eqv(2,3) by metis
    hence "map_lookup eq m' (H k') k' = map_lookup eq m (H k') k'"
      by (intro map_lookup_cong [OF H wf]) (metis nth orig)
    thus ?thesis using False by simp
  qed
qed

definition empty_table :: "'e table" where
  "empty_table = \<lparr>entries = [], index = [], version = 0\<rparr>"

lemma empty_table_ok: "table_ok empty_table" "entries empty_table = []"
  by (simp_all add: table_ok_def empty_table_def index_ok_def hashes_def)

lemma empty_map_wf: "map_wf eq H empty_table"
  by (simp add: map_wf_def empty_table_ok)

lemma eq_respects: "hash_respects (=) H"
  by (simp add: hash_respects_def identity_equivp)

lemma one_entry:
  "\<exists>m. push_entry 5 (7 :: nat, True) empty_table = Some m \<and> table_ok m \<and> entries m = [(5, 7, True)]"
  using push_entry_ok [of "empty_table :: (nat \<times> bool) table" 5 "(7, True)"] by (auto simp: empty_table_ok)

subsection \<open>Properties\<close>

text \<open>C12. The probe sees exactly the right entries: in a well-formed table the candidates of a hash are the
  positions of the entries with that cached hash, each exactly once, whatever collides.\<close>

theorem candidates_exact:
  assumes "table_ok m"
  shows "set (candidates m h) = {p. p < length (entries m) \<and> fst (entries m ! p) = h} \<and> distinct (candidates m h)"
  using table_index.cand_set [OF assms] table_index.cand_distinct [OF assms] by blast

theorem candidates_exact_witness:
  "\<exists>m. push_entry 5 (7 :: nat, True) empty_table = Some m \<and> set (candidates m 5) = {0} \<and> candidates m 6 = []"
proof -
  obtain m where m: "push_entry 5 (7 :: nat, True) empty_table = Some m" "table_ok m" "entries m = [(5, 7, True)]"
    using one_entry by blast
  have "{p. p < length (entries m) \<and> fst (entries m ! p) = 5} = {0}"
    "{p. p < length (entries m) \<and> fst (entries m ! p) = 6} = {}" by (auto simp: m(3))
  hence "set (candidates m 5) = {0}" "set (candidates m 6) = {}"
    using candidates_exact [OF m(2), of 5] candidates_exact [OF m(2), of 6] by argo+
  thus ?thesis using m(1) by (intro exI [of _ m]) simp
qed

text \<open>C29. Appending an entry always succeeds below the position limit (the probe for a free slot ends, at
  every load and across every rebuild), keeps the table well formed and the entries in insertion order.\<close>

theorem push_entry_total:
  assumes "table_ok m" "length (entries m) + 1 < 2 ^ 40"
  shows "\<exists>m'. push_entry h e m = Some m' \<and> table_ok m' \<and> entries m' = entries m @ [(h, e)] \<and>
              version m' = version m + 1"
  using assms by (rule push_entry_ok)

theorem push_entry_total_witness:
  "\<exists>m. push_entry 5 (7 :: nat, True) empty_table = Some m \<and> table_ok m \<and> entries m = [(5, 7, True)]"
  using push_entry_total [of "empty_table :: (nat \<times> bool) table" 5 "(7, True)"] by (auto simp: empty_table_ok)

text \<open>C9. Storing a value is observed by every later lookup and disturbs no other key: after \<open>m[k] = v\<close> a
  lookup of a key equal to \<open>k\<close> gives \<open>v\<close> and any other lookup is as before; a key that was present keeps
  its place in the order, a new one goes last.\<close>

theorem map_store_lookup:
  assumes H: "hash_respects eq H" and wf: "map_wf eq H m" and room: "length (entries m) + 1 < 2 ^ 40"
  shows "\<exists>m'. map_store eq (H k) k v m = Some m' \<and> map_wf eq H m' \<and>
     (\<forall>k'. map_lookup eq m' (H k') k' = (if eq k k' then Some v else map_lookup eq m (H k') k')) \<and>
     map (fst \<circ> snd) (entries m') =
       map (fst \<circ> snd) (entries m) @ (if map_lookup eq m (H k) k = None then [k] else [])"
proof (cases rule: map_probe_cases [OF H wf, of k])
  case (1 p)
  obtain m' where m': "set_value p v m = (Some (val_at m p), m')" "map_wf eq H m'"
    "entries m' = (entries m)[p := (fst (entries m ! p), key_at m p, v)]"
    using map_store_overwrite [OF wf 1(2)] by blast
  have "map (fst \<circ> snd) (entries m') = map (fst \<circ> snd) (entries m)"
    using 1(2) by (auto simp: m'(3) map_update list_update_same_conv)
  moreover have "map_lookup eq m (H k) k \<noteq> None" using map_lookup_None [OF H wf, of k] 1(2,3) by blast
  ultimately show ?thesis
    using 1(1) m' map_overwrite_lookup [OF H wf m'(2) 1(2,3) m'(3)] by (simp add: map_store_def)
next
  case 2
  obtain m' where m': "push_entry (H k) (k, v) m = Some m'" "map_wf eq H m'" "entries m' = entries m @ [(H k, k, v)]"
    using map_store_push [OF H wf room 2(2)] by blast
  have "map_lookup eq m (H k) k = None" using map_lookup_None [OF H wf, of k] 2(2) by blast
  thus ?thesis
    using 2(1) m' map_push_lookup [OF H wf m'(2) 2(2) m'(3)] by (simp add: map_store_def)
qed

theorem map_store_lookup_witness:
  "\<exists>m. map_store (=) 7 (7 :: u64) True empty_table = Some m \<and> map_lookup (=) m 7 7 = Some True \<and>
       map_lookup (=) m 8 8 = map_lookup (=) (empty_table :: (u64, bool) map_data) 8 8"
  using map_store_lookup [OF eq_respects [of id], of "empty_table :: (u64, bool) map_data" 7 True]
  by (auto simp: empty_table_ok empty_map_wf)

text \<open>Removing the entry a probe found makes its key absent and leaves every other lookup unchanged.\<close>

theorem map_remove_lookup:
  assumes H: "hash_respects eq H" and wf: "map_wf eq H m" and hit: "map_probe eq m (H k) k = Some p"
  shows "\<exists>m'. remove_at p m = Some (Some (entries m ! p), m') \<and> map_wf eq H m' \<and>
     (\<forall>k'. map_lookup eq m' (H k') k' = (if eq k k' then None else map_lookup eq m (H k') k'))"
proof -
  have p: "p < length (entries m)" "eq (key_at m p) k"
    using map_probe_cases [OF H wf, of k] hit by (metis option.distinct(1) option.inject)+
  obtain m' where m': "remove_at p m = Some (Some (entries m ! p), m')" "map_wf eq H m'"
    "entries m' = take p (entries m) @ drop (Suc p) (entries m)"
    using map_remove_wf [OF wf p(1)] by blast
  have look: "map_lookup eq m' (H k') k' = (if eq k k' then None else map_lookup eq m (H k') k')" for k'
    using map_remove_lookups [OF H wf m'(2) p m'(3)] .
  show ?thesis using m' look by blast
qed

theorem map_remove_lookup_witness:
  "\<exists>m m' p. map_store (=) 7 (7 :: u64) True empty_table = Some m \<and> map_probe (=) m 7 7 = Some p \<and>
     remove_at p m = Some (Some (entries m ! p), m') \<and> map_lookup (=) m' 7 7 = None"
proof -
  obtain m where m: "map_store (=) (id 7) (7 :: u64) True empty_table = Some m" "map_wf (=) id m"
    "entries m = [(7, 7, True)]"
    using map_store_push [OF eq_respects [of id] empty_map_wf, of 7 True]
    by (auto simp: map_store_def map_probe_def probe_def candidates_def empty_table_def index_candidates_def)
  have "map_probe (=) m (id 7) 7 = Some 0"
    by (rule map_probe_hit [OF eq_respects m(2)]) (simp_all add: m(3))
  thus ?thesis using map_remove_lookup [OF eq_respects m(2), of 7 0] m(1) by auto
qed

end
