(* ===== verification/Encoding.thy ===== *)
theory Encoding
  imports Text "HOL-Library.List_Lexorder"
begin

text \<open>
  The text codecs of \<^verbatim>\<open>std.encoding\<close>, \<^verbatim>\<open>src/src/native/encoding.rs\<close>: base64 over either alphabet, hex,
  percent-encoding, query strings and the lexical URL split. A \<^verbatim>\<open>str\<close> is the list of its UTF-8 bytes.
  The members' argument checks (\<^verbatim>\<open>expect_args\<close>, \<^verbatim>\<open>arg_str\<close>) are outside: a member is the function of its
  decoded arguments. Error messages are the constructors of \<open>enc_error\<close>.
\<close>

datatype enc_error =
    B64Length | B64Misplaced | B64AfterPadding | B64Char u8
  | NotUtf8 string | HexOdd | HexDigit | UrlTruncated | UrlEscape

definition STD_ALPHABET :: "u8 list" where
  "STD_ALPHABET = ascii ''ABCDEFGHIJKLMNOPQRSTUVWXYZabcdefghijklmnopqrstuvwxyz0123456789+/''"

definition URL_ALPHABET :: "u8 list" where
  "URL_ALPHABET = ascii ''ABCDEFGHIJKLMNOPQRSTUVWXYZabcdefghijklmnopqrstuvwxyz0123456789-_''"

subsection \<open>Base64\<close>

abbreviation (input) PAD :: u8 where "PAD \<equiv> 61"

definition sextet :: "u8 list \<Rightarrow> u32 \<Rightarrow> nat \<Rightarrow> u8" where
  "sextet alph n s = alph ! unat (drop_bit s n AND 0x3F)"

definition pack3 :: "u8 \<Rightarrow> u8 \<Rightarrow> u8 \<Rightarrow> u32" where
  "pack3 b0 b1 b2 = push_bit 16 (ucast b0) OR push_bit 8 (ucast b1) OR ucast b2"

fun b64_encode :: "u8 list \<Rightarrow> u8 list \<Rightarrow> u8 list" where
  "b64_encode alph [] = []"
| "b64_encode alph [b0] =
     (let n = pack3 b0 0 0 in [sextet alph n 18, sextet alph n 12, PAD, PAD])"
| "b64_encode alph [b0, b1] =
     (let n = pack3 b0 b1 0 in [sextet alph n 18, sextet alph n 12, sextet alph n 6, PAD])"
| "b64_encode alph (b0 # b1 # b2 # bs) =
     (let n = pack3 b0 b1 b2
      in [sextet alph n 18, sextet alph n 12, sextet alph n 6, sextet alph n 0] @ b64_encode alph bs)"

text \<open>The table \<^verbatim>\<open>rev\<close>: the last index of the byte in the alphabet, 255 where there is none.\<close>

fun rev_from :: "nat \<Rightarrow> u8 list \<Rightarrow> u8 \<Rightarrow> u8" where
  "rev_from i [] c = 255"
| "rev_from i (a # as) c =
     (let later = rev_from (Suc i) as c
      in if later \<noteq> 255 then later else if a = c then of_nat i else 255)"

definition rev_of :: "u8 list \<Rightarrow> u8 \<Rightarrow> u8" where
  "rev_of alph = rev_from 0 alph"

text \<open>One quad, character \<open>j\<close> on: the values so far and the padding count.\<close>

fun quad_vals :: "u8 list \<Rightarrow> bool \<Rightarrow> nat \<Rightarrow> nat \<Rightarrow> u32 list \<Rightarrow> u8 list \<Rightarrow> (u32 list \<times> nat, enc_error) result" where
  "quad_vals alph final j pad vals [] = Ok (vals, pad)"
| "quad_vals alph final j pad vals (c # cs) =
     (if c = PAD then
        (if \<not> final \<or> j < 2 then Err B64Misplaced
         else quad_vals alph final (Suc j) (pad + 1) (vals @ [0]) cs)
      else if pad > 0 then Err B64AfterPadding
      else let v = rev_of alph c
           in if v = 255 then Err (B64Char c)
              else quad_vals alph final (Suc j) pad (vals @ [ucast v]) cs)"

definition unpack3 :: "u32 list \<Rightarrow> nat \<Rightarrow> u8 list" where
  "unpack3 vals pad =
     (let n = push_bit 18 (vals ! 0) OR push_bit 12 (vals ! 1) OR push_bit 6 (vals ! 2) OR vals ! 3
      in [ucast (drop_bit 16 n)] @ (if pad < 2 then [ucast (drop_bit 8 n)] else []) @
         (if pad < 1 then [ucast n] else []))"

fun b64_quads :: "u8 list \<Rightarrow> u8 list \<Rightarrow> (u8 list, enc_error) result" where
  "b64_quads alph (a # b # c # d # rest) =
     bind_result (quad_vals alph (rest = []) 0 0 [] [a, b, c, d]) (\<lambda>(vals, pad).
     bind_result (b64_quads alph rest) (\<lambda>out. Ok (unpack3 vals pad @ out)))"
| "b64_quads alph _ = Ok []"

definition b64_decode :: "u8 list \<Rightarrow> u8 list \<Rightarrow> (u8 list, enc_error) result" where
  "b64_decode alph s =
     (let bytes = filter (\<lambda>b. b \<noteq> 13 \<and> b \<noteq> 10) s
      in if length bytes mod 4 \<noteq> 0 then Err B64Length else b64_quads alph bytes)"

subsection \<open>UTF-8\<close>

text \<open>\<^verbatim>\<open>String::from_utf8\<close>: well-formed sequences, no overlong form, no surrogate, at most U+10FFFF.\<close>

definition cont :: "nat \<Rightarrow> nat \<Rightarrow> u8 \<Rightarrow> bool" where
  "cont lo hi b \<longleftrightarrow> lo \<le> unat b \<and> unat b \<le> hi"

fun utf8 :: "u8 list \<Rightarrow> bool" where
  "utf8 [] = True"
| "utf8 (b # bs) =
     (if unat b < 0x80 then utf8 bs
      else if 0xC2 \<le> unat b \<and> unat b \<le> 0xDF then
        (case bs of c # r \<Rightarrow> cont 0x80 0xBF c \<and> utf8 r | _ \<Rightarrow> False)
      else if 0xE0 \<le> unat b \<and> unat b \<le> 0xEF then
        (case bs of
           c # d # r \<Rightarrow>
             cont (if unat b = 0xE0 then 0xA0 else 0x80) (if unat b = 0xED then 0x9F else 0xBF) c \<and>
             cont 0x80 0xBF d \<and> utf8 r
         | _ \<Rightarrow> False)
      else if 0xF0 \<le> unat b \<and> unat b \<le> 0xF4 then
        (case bs of
           c # d # e # r \<Rightarrow>
             cont (if unat b = 0xF0 then 0x90 else 0x80) (if unat b = 0xF4 then 0x8F else 0xBF) c \<and>
             cont 0x80 0xBF d \<and> cont 0x80 0xBF e \<and> utf8 r
         | _ \<Rightarrow> False)
      else False)"

definition bytes_to_result :: "u8 list \<Rightarrow> string \<Rightarrow> (u8 list, enc_error) result" where
  "bytes_to_result bs name = (if utf8 bs then Ok bs else Err (NotUtf8 name))"

definition base64_encode :: "u8 list \<Rightarrow> u8 list" where "base64_encode s = b64_encode STD_ALPHABET s"
definition base64_encode_url :: "u8 list \<Rightarrow> u8 list" where "base64_encode_url s = b64_encode URL_ALPHABET s"

definition base64_decode :: "u8 list \<Rightarrow> (u8 list, enc_error) result" where
  "base64_decode s = bind_result (b64_decode STD_ALPHABET s) (\<lambda>bs. bytes_to_result bs ''base64'')"

definition base64_decode_url :: "u8 list \<Rightarrow> (u8 list, enc_error) result" where
  "base64_decode_url s = bind_result (b64_decode URL_ALPHABET s) (\<lambda>bs. bytes_to_result bs ''base64'')"

definition base64_encode_bytes :: "u8 list \<Rightarrow> u8 list" where "base64_encode_bytes b = b64_encode STD_ALPHABET b"

definition base64_decode_bytes :: "u8 list \<Rightarrow> (u8 list, enc_error) result" where
  "base64_decode_bytes s = b64_decode STD_ALPHABET s"

subsection \<open>Hex and percent escapes\<close>

definition hex_encode_bytes :: "u8 list \<Rightarrow> u8 list" where
  "hex_encode_bytes bs =
     concat (map (\<lambda>b. [of_nat (hex_lower (unat b div 16)), of_nat (hex_lower (unat b mod 16))]) bs)"

definition hex_encode :: "u8 list \<Rightarrow> u8 list" where "hex_encode s = hex_encode_bytes s"

text \<open>\<^verbatim>\<open>(h * 16 + l) as u8\<close> from two digits\<close>

definition hex_pair :: "u8 \<Rightarrow> u8 \<Rightarrow> u8 option" where
  "hex_pair a b =
     (case (to_digit16 (unat a), to_digit16 (unat b)) of
        (Some h, Some l) \<Rightarrow> Some (of_nat (h * 16 + l))
      | _ \<Rightarrow> None)"

fun hex_loop :: "u8 list \<Rightarrow> (u8 list, enc_error) result" where
  "hex_loop (a # b # rest) =
     (case hex_pair a b of
        Some v \<Rightarrow> bind_result (hex_loop rest) (\<lambda>out. Ok (v # out))
      | None \<Rightarrow> Err HexDigit)"
| "hex_loop _ = Ok []"

definition hex_decode :: "u8 list \<Rightarrow> (u8 list, enc_error) result" where
  "hex_decode s =
     (if length s mod 2 \<noteq> 0 then Err HexOdd
      else bind_result (hex_loop s) (\<lambda>bs. bytes_to_result bs ''hex''))"

definition is_alnum :: "u8 \<Rightarrow> bool" where
  "is_alnum b \<longleftrightarrow> cont 48 57 b \<or> cont 65 90 b \<or> cont 97 122 b"

definition is_unreserved :: "u8 \<Rightarrow> bool" where
  "is_unreserved b \<longleftrightarrow> is_alnum b \<or> b \<in> {45, 46, 95, 126}"

definition percent_byte :: "u8 \<Rightarrow> u8 list" where
  "percent_byte b =
     (if is_unreserved b then [b]
      else [37, of_nat (hex_upper (unat b div 16)), of_nat (hex_upper (unat b mod 16))])"

definition percent_encode :: "u8 list \<Rightarrow> u8 list" where
  "percent_encode s = concat (map percent_byte s)"

definition url_encode :: "u8 list \<Rightarrow> u8 list" where "url_encode s = percent_encode s"

fun percent_decode :: "u8 list \<Rightarrow> bool \<Rightarrow> (u8 list, enc_error) result" where
  "percent_decode [] plus_as_space = Ok []"
| "percent_decode (b # bs) plus_as_space =
     (if b = 37 then
        (case bs of
           x # y # rest \<Rightarrow>
             (case hex_pair x y of
                Some v \<Rightarrow> bind_result (percent_decode rest plus_as_space) (\<lambda>out. Ok (v # out))
              | None \<Rightarrow> Err UrlEscape)
         | _ \<Rightarrow> Err UrlTruncated)
      else bind_result (percent_decode bs plus_as_space) (\<lambda>out. Ok ((if plus_as_space \<and> b = 43 then 32 else b) # out)))"

definition url_decode :: "u8 list \<Rightarrow> (u8 list, enc_error) result" where
  "url_decode s = bind_result (percent_decode s False) (\<lambda>bs. bytes_to_result bs ''url'')"

subsection \<open>Query strings\<close>

definition query_segment :: "u8 list \<times> u8 list \<Rightarrow> u8 list" where
  "query_segment kv = percent_encode (fst kv) @ [61] @ percent_encode (snd kv)"

fun join_amp :: "u8 list list \<Rightarrow> u8 list" where
  "join_amp [] = []"
| "join_amp [s] = s"
| "join_amp (s # ss) = s @ [38] @ join_amp ss"

definition query_encode :: "(u8 list \<times> u8 list) list \<Rightarrow> u8 list" where
  "query_encode pairs = join_amp (map query_segment (sort_key fst pairs))"

fun split_on :: "u8 \<Rightarrow> u8 list \<Rightarrow> u8 list list" where
  "split_on sep [] = [[]]"
| "split_on sep (b # bs) =
     (if b = sep then [] # split_on sep bs
      else case split_on sep bs of s # ss \<Rightarrow> (b # s) # ss | [] \<Rightarrow> [[b]])"

fun split_once :: "u8 \<Rightarrow> u8 list \<Rightarrow> (u8 list \<times> u8 list) option" where
  "split_once sep [] = None"
| "split_once sep (b # bs) =
     (if b = sep then Some ([], bs)
      else map_option (\<lambda>(x, y). (b # x, y)) (split_once sep bs))"

definition decode_field :: "u8 list \<Rightarrow> u8 list" where
  "decode_field raw =
     (case percent_decode raw True of Inr b \<Rightarrow> if utf8 b then b else raw | Inl e \<Rightarrow> raw)"

text \<open>The last value wins, at the key's first position.\<close>

fun put_pair :: "u8 list \<Rightarrow> u8 list \<Rightarrow> (u8 list \<times> u8 list) list \<Rightarrow> (u8 list \<times> u8 list) list" where
  "put_pair k v [] = [(k, v)]"
| "put_pair k v ((k', v') # ps) = (if k' = k then (k', v) # ps else (k', v') # put_pair k v ps)"

definition add_segment :: "(u8 list \<times> u8 list) list \<Rightarrow> u8 list \<Rightarrow> (u8 list \<times> u8 list) list" where
  "add_segment ps seg =
     (if seg = [] then ps
      else case (case split_once 61 seg of Some kv \<Rightarrow> kv | None \<Rightarrow> (seg, [])) of
             (k, v) \<Rightarrow> put_pair (decode_field k) (decode_field v) ps)"

definition query_decode :: "u8 list \<Rightarrow> (u8 list \<times> u8 list) list" where
  "query_decode q =
     (let q = (case q of b # r \<Rightarrow> if b = 63 then r else q | [] \<Rightarrow> q)
      in foldl add_segment [] (split_on 38 q))"

subsection \<open>URLs\<close>

definition is_scheme :: "u8 list \<Rightarrow> bool" where
  "is_scheme s =
     (case s of
        [] \<Rightarrow> False
      | c # cs \<Rightarrow> (cont 65 90 c \<or> cont 97 122 c) \<and> list_all (\<lambda>c. is_alnum c \<or> c \<in> {43, 45, 46}) cs)"

text \<open>\<^verbatim>\<open>rfind\<close>: what is before and after the last occurrence.\<close>

definition split_last :: "u8 \<Rightarrow> u8 list \<Rightarrow> (u8 list \<times> u8 list) option" where
  "split_last sep s = map_option (\<lambda>(x, y). (rev y, rev x)) (split_once sep (rev s))"

definition strip_prefix :: "u8 list \<Rightarrow> u8 list \<Rightarrow> u8 list option" where
  "strip_prefix p s = (if take (length p) s = p then Some (drop (length p) s) else None)"

definition split_host_port :: "u8 list \<Rightarrow> u8 list \<times> u8 list" where
  "split_host_port hp =
     (case split_last 58 hp of Some hp \<Rightarrow> hp | None \<Rightarrow> (hp, []))"

definition split_authority :: "u8 list \<Rightarrow> u8 list \<times> u8 list" where
  "split_authority authority =
     (let host_port = (case split_last 64 authority of Some (u, h) \<Rightarrow> h | None \<Rightarrow> authority)
      in case strip_prefix [91] host_port of
           None \<Rightarrow> split_host_port host_port
         | Some rest \<Rightarrow>
             (case split_once 93 rest of
                None \<Rightarrow> split_host_port host_port
              | Some (inner, after) \<Rightarrow>
                  (91 # inner @ [93], case strip_prefix [58] after of Some p \<Rightarrow> p | None \<Rightarrow> [])))"

text \<open>\<^verbatim>\<open>rest.find(\"://\")\<close>\<close>

fun find_scheme_sep :: "u8 list \<Rightarrow> (u8 list \<times> u8 list) option" where
  "find_scheme_sep s =
     (if take 3 s = [58, 47, 47] then Some ([], drop 3 s)
      else case s of [] \<Rightarrow> None | b # bs \<Rightarrow> map_option (\<lambda>(x, y). (b # x, y)) (find_scheme_sep bs))"

declare find_scheme_sep.simps [simp del]

definition to_ascii_lowercase :: "u8 list \<Rightarrow> u8 list" where
  "to_ascii_lowercase s = map (\<lambda>b. if cont 65 90 b then b + 32 else b) s"

record url =
  u_scheme :: "u8 list"
  u_host :: "u8 list"
  u_port :: "u8 list"
  u_path :: "u8 list"
  u_query :: "u8 list"
  u_fragment :: "u8 list"

definition cut :: "u8 \<Rightarrow> u8 list \<Rightarrow> u8 list \<times> u8 list" where
  "cut sep s = (case split_once sep s of Some p \<Rightarrow> p | None \<Rightarrow> (s, []))"

definition after_scheme :: "u8 list \<Rightarrow> (u8 list \<times> u8 list) option" where
  "after_scheme rest =
     (case find_scheme_sep rest of
        Some (sch, after) \<Rightarrow>
          if is_scheme sch then Some (to_ascii_lowercase sch, after)
          else map_option (\<lambda>a. ([], a)) (strip_prefix [47, 47] rest)
      | None \<Rightarrow> map_option (\<lambda>a. ([], a)) (strip_prefix [47, 47] rest))"

definition url_parse :: "u8 list \<Rightarrow> url" where
  "url_parse u =
     (let (rest1, fragment) = cut 35 u;
          (rest, query) = cut 63 rest1
      in case after_scheme rest of
           Some (scheme, after) \<Rightarrow>
             (let (authority, path) =
                    (case split_once 47 after of Some (a, p) \<Rightarrow> (a, 47 # p) | None \<Rightarrow> (after, []));
                  (host, port) = split_authority authority
              in \<lparr>u_scheme = scheme, u_host = host, u_port = port, u_path = path,
                  u_query = query, u_fragment = fragment\<rparr>)
         | None \<Rightarrow>
             \<lparr>u_scheme = [], u_host = [], u_port = [], u_path = rest,
              u_query = query, u_fragment = fragment\<rparr>)"

subsection \<open>Base64 round trip\<close>

definition alphabet :: "u8 list \<Rightarrow> bool" where
  "alphabet alph \<longleftrightarrow> distinct alph \<and> length alph = 64 \<and> set alph \<inter> {PAD, 10, 13} = {}"

lemma rev_from_absent: "c \<notin> set as \<Longrightarrow> rev_from k as c = 255"
  by (induction as arbitrary: k) auto

lemma of_nat_not_255: "n < 255 \<Longrightarrow> (of_nat n :: u8) \<noteq> 255"
  by (simp add: word_unat_eq_iff unat_of_nat)

lemma rev_from_nth:
  "distinct as \<Longrightarrow> i < length as \<Longrightarrow> k + length as \<le> 255 \<Longrightarrow> rev_from k as (as ! i) = of_nat (k + i)"
proof (induction as arbitrary: k i)
  case (Cons a as)
  have small: "(of_nat (k + i) :: u8) \<noteq> 255"
    using Cons.prems by (intro of_nat_not_255) simp
  show ?case
  proof (cases i)
    case 0
    then show ?thesis using Cons.prems by (simp add: rev_from_absent)
  next
    case (Suc j)
    then show ?thesis using Cons small by (auto simp: Let_def)
  qed
qed simp

lemma alphabets: "alph = STD_ALPHABET \<or> alph = URL_ALPHABET \<Longrightarrow> alphabet alph"
proof -
  have "distinct STD_ALPHABET" "distinct URL_ALPHABET" by code_simp+
  moreover have "set STD_ALPHABET \<inter> {PAD, 10, 13} = {}" "set URL_ALPHABET \<inter> {PAD, 10, 13} = {}" by code_simp+
  moreover have "length STD_ALPHABET = 64" "length URL_ALPHABET = 64"
    by (simp_all add: STD_ALPHABET_def URL_ALPHABET_def ascii_def)
  ultimately show "alph = STD_ALPHABET \<or> alph = URL_ALPHABET \<Longrightarrow> alphabet alph"
    by (auto simp: alphabet_def)
qed

lemma bit_63: "bit (0x3F :: u32) m \<longleftrightarrow> m < 6"
proof -
  have "(0x3F :: u32) = mask 6" by (simp add: mask_eq_exp_minus_1)
  then have "bit (0x3F :: u32) m \<longleftrightarrow> bit (mask 6 :: u32) m" by simp
  then show ?thesis by (subst (asm) bit_mask_iff) auto
qed

lemma bit_pack3: "bit (pack3 b0 b1 b2) m \<longleftrightarrow>
    16 \<le> m \<and> m < 24 \<and> bit b0 (m - 16) \<or> 8 \<le> m \<and> m < 16 \<and> bit b1 (m - 8) \<or> m < 8 \<and> bit b2 m"
  unfolding pack3_def by (auto simp: bit_simps dest: bit_imp_le_length)

lemma bit_slot: "bit (push_bit s (drop_bit s n AND 0x3F)) m \<longleftrightarrow> s \<le> m \<and> m < s + 6 \<and> bit (n :: u32) m"
  unfolding bit_push_bit_iff bit_and_iff bit_63 bit_drop_bit_eq comp_def
  by (auto dest: bit_imp_le_length)

lemma sextets_regroup:
  assumes "\<And>m. bit n m \<Longrightarrow> m < 24"
  shows
  "push_bit 18 (drop_bit 18 n AND 0x3F) OR push_bit 12 (drop_bit 12 n AND 0x3F) OR
   push_bit 6 (drop_bit 6 n AND 0x3F) OR (drop_bit 0 n AND 0x3F) = (n :: u32)"
proof (rule bit_word_eqI)
  fix m
  show "bit (push_bit 18 (drop_bit 18 n AND 0x3F) OR push_bit 12 (drop_bit 12 n AND 0x3F) OR
   push_bit 6 (drop_bit 6 n AND 0x3F) OR (drop_bit 0 n AND 0x3F)) m = bit n m"
    unfolding bit_or_iff bit_slot bit_and_iff bit_63 using assms[of m] by auto
qed
lemma sextet_index:
  fixes n :: u32
  obtains k where "k < 64" "drop_bit s n AND 0x3F = of_nat k" "sextet alph n s = alph ! k"
proof
  have "drop_bit s n AND 0x3F \<le> 0x3F" by (rule word_and_le1)
  then show "unat (drop_bit s n AND 0x3F) < 64" by (simp add: word_le_nat_alt)
qed (simp_all add: sextet_def)

lemma sextet_in: "alphabet alph \<Longrightarrow> sextet alph n s \<in> set alph"
  by (rule sextet_index[of s n alph]) (simp add: alphabet_def)

lemma rev_sextet:
  assumes "alphabet alph"
  shows "rev_of alph (sextet alph n s) \<noteq> 255 \<and> ucast (rev_of alph (sextet alph n s)) = drop_bit s n AND 0x3F"
proof (rule sextet_index[of s n alph])
  fix k :: nat
  assume k: "k < 64" "drop_bit s n AND 0x3F = of_nat k" "sextet alph n s = alph ! k"
  have "rev_of alph (alph ! k) = of_nat k"
    using rev_from_nth[of alph k 0] assms k(1) by (simp add: rev_of_def alphabet_def)
  moreover have "(ucast (of_nat k :: u8) :: u32) = of_nat k"
    using k(1) by (simp add: unsigned_of_nat take_bit_nat_eq_self)
  ultimately show ?thesis using k of_nat_not_255[of k] by simp
qed

lemma sextet_plain: "alphabet alph \<Longrightarrow> sextet alph n s \<noteq> PAD \<and> sextet alph n s \<noteq> 10 \<and> sextet alph n s \<noteq> 13"
  using sextet_in[of alph n s] by (auto simp: alphabet_def)

lemma pack3_byte0: "ucast (drop_bit 16 (pack3 b0 b1 b2)) = b0"
  by (rule bit_word_eqI) (auto simp: bit_simps bit_pack3)
lemma pack3_byte1: "ucast (drop_bit 8 (pack3 b0 b1 b2)) = b1"
  by (rule bit_word_eqI) (auto simp: bit_simps bit_pack3)
lemma pack3_byte2: "ucast (pack3 b0 b1 b2) = b2"
  by (rule bit_word_eqI) (auto simp: bit_simps bit_pack3)

lemma pack3_24: "bit (pack3 b0 b1 b2) m \<Longrightarrow> m < 24"
  by (auto simp: bit_pack3)

lemma unpack3_pack3:
  assumes n: "n = pack3 b0 b1 b2"
  shows "unpack3 [drop_bit 18 n AND 0x3F, drop_bit 12 n AND 0x3F, drop_bit 6 n AND 0x3F, drop_bit 0 n AND 0x3F] 0 = [b0, b1, b2]"
  using sextets_regroup[of n] pack3_24[of b0 b1 b2] unfolding unpack3_def n by (simp add: pack3_byte0 pack3_byte1 pack3_byte2 del: drop_bit_0)

lemma zero_slots:
  "drop_bit 0 (pack3 b0 b1 0) AND 0x3F = 0" "drop_bit 6 (pack3 b0 0 0) AND 0x3F = 0"
  by (rule bit_word_eqI; unfold bit_and_iff bit_63 bit_drop_bit_eq comp_def bit_pack3; auto)+

lemma unpack3_pad:
  "n = pack3 b0 b1 0 \<Longrightarrow> unpack3 [drop_bit 18 n AND 0x3F, drop_bit 12 n AND 0x3F, drop_bit 6 n AND 0x3F, 0] 1 = [b0, b1]"
  "n = pack3 b0 0 0 \<Longrightarrow> unpack3 [drop_bit 18 n AND 0x3F, drop_bit 12 n AND 0x3F, 0, 0] 2 = [b0]"
  using sextets_regroup[of n] pack3_24 zero_slots unfolding unpack3_def  by (simp_all add: pack3_byte0 pack3_byte1 pack3_byte2 del: drop_bit_0)

lemma b64_quads_encode: "alphabet alph \<Longrightarrow> b64_quads alph (b64_encode alph bs) = Ok bs \<and> (bs = [] \<longleftrightarrow> b64_encode alph bs = [])"
  apply (induction alph bs rule: b64_encode.induct)
  apply (simp_all add: Let_def rev_sextet sextet_plain unpack3_pack3 unpack3_pad[simplified One_nat_def numeral_2_eq_2] del: drop_bit_0)
  done

lemma b64_plain: "alphabet alph \<Longrightarrow> b \<in> set (b64_encode alph bs) \<Longrightarrow> b \<noteq> 10 \<and> b \<noteq> 13"
  by (induction alph bs rule: b64_encode.induct) (auto simp: Let_def sextet_plain)

lemma b64_length: "length (b64_encode alph bs) mod 4 = 0"
  by (induction alph bs rule: b64_encode.induct) (auto simp: Let_def)

lemma b64_decode_folded:
  assumes "alphabet alph" "filter (\<lambda>b. b \<noteq> 13 \<and> b \<noteq> 10) s = b64_encode alph bs"
  shows "b64_decode alph s = Ok bs"
  using assms b64_quads_encode[of alph bs] b64_length[of alph bs] by (simp add: b64_decode_def Let_def)

lemma b64_decode_encode: "alphabet alph \<Longrightarrow> b64_decode alph (b64_encode alph bs) = Ok bs"
  by (rule b64_decode_folded) (auto intro!: filter_True dest: b64_plain)

lemma rev_of_member: "rev_of alph c \<noteq> 255 \<Longrightarrow> c \<in> set alph"
  using rev_from_absent unfolding rev_of_def by blast

lemma quad_vals_ok:
  "quad_vals alph final j pad vals cs = Ok (vs, p) \<Longrightarrow> pad \<le> j - 2 \<Longrightarrow>
     set cs \<subseteq> insert PAD (set alph) \<and> (\<not> final \<longrightarrow> p = pad) \<and> p \<le> j + length cs - 2"
proof (induction cs arbitrary: j pad vals)
  case (Cons c cs)
  show ?case
  proof (cases "c = PAD")
    case True
    then have "final \<and> 2 \<le> j" "quad_vals alph final (Suc j) (pad + 1) (vals @ [0]) cs = Ok (vs, p)"
      using Cons.prems(1) by (auto split: if_splits)
    then show ?thesis using Cons.IH[of "Suc j" "pad + 1" "vals @ [0]"] Cons.prems(2) True by force
  next
    case False
    then have c: "rev_of alph c \<noteq> 255"
      and "quad_vals alph final (Suc j) pad (vals @ [ucast (rev_of alph c)]) cs = Ok (vs, p)"
      using Cons.prems(1) by (auto simp: Let_def split: if_splits)
    then show ?thesis using Cons.IH[of "Suc j" pad] Cons.prems(2) rev_of_member[OF c] by force
  qed
qed simp

lemma b64_length_append: "length (b64_encode alph bs) = 4 * ((length bs + 2) div 3)"
proof (induction alph bs rule: b64_encode.induct)
  case (4 alph b0 b1 b2 bs)
  moreover have "(Suc (Suc (Suc (length bs))) + 2) div 3 = Suc ((length bs + 2) div 3)" by linarith
  ultimately show ?case by (simp add: Let_def)
qed (simp_all add: Let_def)

lemma b64_quads_ok:
  "b64_quads alph s = Ok bs \<Longrightarrow> length s mod 4 = 0 \<Longrightarrow>
     set s \<subseteq> insert PAD (set alph) \<and> length s = 4 * ((length bs + 2) div 3)"
proof (induction alph s arbitrary: bs rule: b64_quads.induct)
  case (1 alph a b c d rest)
  obtain vals pad out where q: "quad_vals alph (rest = []) 0 0 [] [a, b, c, d] = Ok (vals, pad)"
    and out: "b64_quads alph rest = Ok out" and bs: "bs = unpack3 vals pad @ out"
    using "1.prems" by (auto simp: bind_result_def split: sum.splits)
  have pad: "pad \<le> 2" "rest \<noteq> [] \<longrightarrow> pad = 0" "set [a, b, c, d] \<subseteq> insert PAD (set alph)"
    using quad_vals_ok[OF q] by auto
  have "set rest \<subseteq> insert PAD (set alph) \<and> length rest = 4 * ((length out + 2) div 3)"
    using "1.IH"[OF out] "1.prems" by simp
  moreover have "1 + (length out + 2) div 3 = (length bs + 2) div 3"
  proof -
    have len: "length bs = 3 - pad + length out"
      using pad(1) by (auto simp: bs unpack3_def Let_def)
    show ?thesis
    proof (cases "rest = []")
      case True
      then have "length out = 0" using out by simp
      moreover have "pad = 0 \<or> pad = 1 \<or> pad = 2" using pad(1) by arith
      ultimately show ?thesis using len by auto
    next
      case False
      then have "length bs + 2 = (length out + 2) + 3" using pad(2) len by simp
      then show ?thesis by presburger
    qed
  qed
  ultimately show ?case using pad(3) by simp
qed auto

subsection \<open>Hex, percent and query round trips, URL host\<close>

lemma u8_less: "unat (b :: u8) < 256"
  using unsigned_less[of b, where ?'a = nat] by simp

lemma unat_of_hex: "d < 16 \<Longrightarrow> unat (of_nat (hex_lower d) :: u8) = hex_lower d"
   "d < 16 \<Longrightarrow> unat (of_nat (hex_upper d) :: u8) = hex_upper d"
  by (auto simp: hex_lower_def hex_upper_def unat_of_nat)

lemma hex_pair_byte:
  fixes b :: u8
  shows "hex_pair (of_nat (hex_lower (unat b div 16))) (of_nat (hex_lower (unat b mod 16))) = Some b"
    and "hex_pair (of_nat (hex_upper (unat b div 16))) (of_nat (hex_upper (unat b mod 16))) = Some b"
proof -
  have "unat b div 16 < 16" using u8_less[of b] by simp
  moreover have "(of_nat (unat b div 16 * 16 + unat b mod 16) :: u8) = b"
    by (simp add: div_mult_mod_eq del: of_nat_add of_nat_mult)
  ultimately show "hex_pair (of_nat (hex_lower (unat b div 16))) (of_nat (hex_lower (unat b mod 16))) = Some b"
    and "hex_pair (of_nat (hex_upper (unat b div 16))) (of_nat (hex_upper (unat b mod 16))) = Some b"
    by (simp_all add: hex_pair_def unat_of_hex del: of_nat_add of_nat_mult)
qed

lemma hex_loop_encode: "hex_loop (hex_encode_bytes bs) = Ok bs"
  by (induction bs) (simp_all add: hex_encode_bytes_def hex_pair_byte)

lemma hex_length: "length (hex_encode_bytes bs) = 2 * length bs"
  by (induction bs) (simp_all add: hex_encode_bytes_def)

lemma hex_roundtrip: "utf8 s \<Longrightarrow> hex_decode (hex_encode s) = Ok s"
  by (simp add: hex_decode_def hex_encode_def hex_length hex_loop_encode bytes_to_result_def)

lemma unreserved_literal: "is_unreserved b \<Longrightarrow> b \<notin> {37, 43, 38, 61, 63}"
  by (auto simp: is_unreserved_def is_alnum_def cont_def)

lemma hex_upper_alnum: "d < 16 \<Longrightarrow> is_unreserved (of_nat (hex_upper d))"
  by (simp add: is_unreserved_def is_alnum_def cont_def unat_of_hex) (simp add: hex_upper_def)

lemma percent_byte_chars: "c \<in> set (percent_byte b) \<Longrightarrow> is_unreserved c \<or> c = 37"
  using hex_upper_alnum[of "unat b div 16"] hex_upper_alnum[of "unat b mod 16"] u8_less[of b]
  by (auto simp: percent_byte_def split: if_splits)

lemma percent_encode_chars: "set (percent_encode s) \<inter> {38, 43, 61, 63} = {}"
  using percent_byte_chars unreserved_literal by (fastforce simp: percent_encode_def)

lemma percent_roundtrip: "percent_decode (percent_encode s) plus_as_space = Ok s"
proof (induction s)
  case (Cons b s)
  then show ?case
    using unreserved_literal[of b] by (auto simp: percent_encode_def percent_byte_def hex_pair_byte)
qed (simp add: percent_encode_def)

lemma decode_field_encode: "utf8 s \<Longrightarrow> decode_field (percent_encode s) = s"
  by (simp add: decode_field_def percent_roundtrip)

lemma split_once_first: "sep \<notin> set xs \<Longrightarrow> split_once sep (xs @ sep # ys) = Some (xs, ys)"
  by (induction xs) auto

lemma split_on_none: "sep \<notin> set xs \<Longrightarrow> split_on sep xs = [xs]"
  by (induction xs) auto

lemma split_on_append: "sep \<notin> set xs \<Longrightarrow> split_on sep (xs @ sep # ys) = xs # split_on sep ys"
  by (induction xs) auto

lemma segment_chars: "38 \<notin> set (query_segment kv)"
  using percent_encode_chars by (auto simp: query_segment_def)

lemma split_join: "ss \<noteq> [] \<Longrightarrow> (\<And>s. s \<in> set ss \<Longrightarrow> 38 \<notin> set s) \<Longrightarrow> split_on 38 (join_amp ss) = ss"
  by (induction ss rule: join_amp.induct) (auto simp: split_on_none split_on_append)

lemma put_pair_new: "k \<notin> fst ` set ps \<Longrightarrow> put_pair k v ps = ps @ [(k, v)]"
  by (induction ps) auto

lemma add_segment_encoded:
  "utf8 k \<Longrightarrow> utf8 v \<Longrightarrow> k \<notin> fst ` set ps \<Longrightarrow> add_segment ps (query_segment (k, v)) = ps @ [(k, v)]"
  using split_once_first[of 61 "percent_encode k" "percent_encode v"] percent_encode_chars[of k]
  by (auto simp: add_segment_def query_segment_def decode_field_encode put_pair_new)

lemma fold_segments:
  "list_all (\<lambda>(k, v). utf8 k \<and> utf8 v) ps \<Longrightarrow> distinct (map fst (acc @ ps)) \<Longrightarrow>
   foldl add_segment acc (map query_segment ps) = acc @ ps"
  by (induction ps arbitrary: acc) (auto simp: add_segment_encoded split: prod.splits)

lemma set_join_amp: "set (join_amp ss) \<subseteq> insert 38 (\<Union> (set ` set ss))"
  by (induction ss rule: join_amp.induct) auto

lemma join_amp_head: "63 \<notin> set (join_amp (map query_segment ps))"
  using percent_encode_chars set_join_amp[of "map query_segment ps"]
  by (fastforce simp: query_segment_def split: if_splits)

lemma query_decode_encode:
  assumes "distinct (map fst ps)" "list_all (\<lambda>(k, v). utf8 k \<and> utf8 v) ps"
  shows "query_decode (query_encode ps) = sort_key fst ps"
proof (cases "ps = []")
  case False
  let ?qs = "sort_key fst ps"
  have "?qs \<noteq> []" using False by (metis length_0_conv length_sort)
  then have "split_on 38 (query_encode ps) = map query_segment ?qs"
    unfolding query_encode_def by (intro split_join) (auto simp: segment_chars)
  moreover have "list_all (\<lambda>(k, v). utf8 k \<and> utf8 v) ?qs" "distinct (map fst ?qs)"
    using assms by (auto simp: list_all_iff distinct_map)
  moreover have "63 \<notin> set (query_encode ps)"
    unfolding query_encode_def by (rule join_amp_head)
  ultimately show ?thesis using fold_segments[of ?qs "[]"]
    by (auto simp: query_decode_def Let_def split: list.splits)
qed (simp add: query_decode_def query_encode_def add_segment_def)

lemma split_once_sets: "split_once sep s = Some (x, y) \<Longrightarrow> sep \<notin> set x \<and> s = x @ sep # y"
  by (induction s arbitrary: x) (auto split: if_splits)

lemma split_last_sets: "split_last sep s = Some (x, y) \<Longrightarrow> sep \<notin> set y \<and> s = x @ sep # y"
  by (auto simp: split_last_def dest!: split_once_sets) (metis append.assoc append_Cons append_Nil rev.simps(2) rev_append rev_rev_ident)

lemma split_once_None: "split_once sep s = None \<Longrightarrow> sep \<notin> set s"
  by (induction s) (auto split: if_splits)

lemma split_last_None: "split_last sep s = None \<Longrightarrow> sep \<notin> set s"
  by (auto simp: split_last_def dest!: split_once_None)

lemma strip_prefix_eq: "strip_prefix p s = Some r \<longleftrightarrow> s = p @ r"
  by (auto simp: strip_prefix_def) (metis append_take_drop_id)

lemma split_host_port_sub: "set (fst (split_host_port hp)) \<subseteq> set hp"
  by (auto simp: split_host_port_def split: option.splits dest!: split_last_sets)

lemma authority_host: "set (fst (split_authority a)) \<subseteq> set a - {64}"
proof -
  define hp where "hp = (case split_last 64 a of Some (u, h) \<Rightarrow> h | None \<Rightarrow> a)"
  have hp: "set hp \<subseteq> set a - {64}"
    by (auto simp: hp_def split: option.splits dest!: split_last_sets split_last_None)
  have "set (fst (split_authority a)) \<subseteq> set hp"
    using split_host_port_sub[of hp]
    by (auto simp: split_authority_def hp_def[symmetric] Let_def strip_prefix_eq
        split: option.splits dest!: split_once_sets)
  then show ?thesis using hp by blast
qed

lemma cut_sets: "set (fst (cut sep s)) \<subseteq> set s - {sep}"
  by (auto simp: cut_def split: option.splits dest: split_once_sets split_once_None)

lemma find_scheme_sep_eq: "find_scheme_sep s = Some (x, y) \<Longrightarrow> s = x @ [58, 47, 47] @ y"
proof (induction s arbitrary: x rule: find_scheme_sep.induct)
  case (1 s)
  show ?case
  proof (cases "take 3 s = [58, 47, 47]")
    case True
    then show ?thesis using "1.prems" append_take_drop_id[of 3 s]
      by (subst (asm) find_scheme_sep.simps) auto
  next
    case False
    then show ?thesis using "1.prems" "1.IH"[OF False]
      by (subst (asm) find_scheme_sep.simps) (auto split: list.splits)
  qed
qed

lemma find_scheme_sep_sub: "find_scheme_sep s = Some (x, y) \<Longrightarrow> set y \<subseteq> set s"
  by (frule find_scheme_sep_eq) auto

lemma after_scheme_sub: "after_scheme rest = Some (sch, a) \<Longrightarrow> set a \<subseteq> set rest"
  by (auto simp: after_scheme_def strip_prefix_eq split: option.splits if_splits dest!: find_scheme_sep_sub)

lemma url_host_chars: "set (u_host (url_parse u)) \<inter> {35, 47, 63, 64} = {}"
proof -
  obtain rest1 fr rest q where c: "cut 35 u = (rest1, fr)" "cut 63 rest1 = (rest, q)" by fastforce
  then have rest: "set rest \<inter> {35, 63} = {}"
    using cut_sets[of 35 u] cut_sets[of 63 rest1] by auto
  show ?thesis
  proof (cases "after_scheme rest")
    case None
    then show ?thesis by (simp add: url_parse_def c Let_def)
  next
    case (Some sa)
    obtain sch a where sa: "sa = (sch, a)" by fastforce
    define auth where "auth = (case split_once 47 a of Some (x, y) \<Rightarrow> x | None \<Rightarrow> a)"
    have "u_host (url_parse u) = fst (split_authority auth)"
      using Some sa c
      by (auto simp: url_parse_def auth_def Let_def split: option.splits prod.splits)
    moreover have "set auth \<subseteq> set a - {47}"
      by (auto simp: auth_def split: option.splits dest: split_once_sets split_once_None)
    ultimately show ?thesis
      using authority_host[of auth] after_scheme_sub[of rest sch a] Some sa rest by auto
  qed
qed

subsection \<open>The codecs as instances of the round-trip contract\<close>

interpretation base64_std: codec "\<lambda>_. True" base64_encode_bytes base64_decode_bytes
  by unfold_locales (simp add: base64_encode_bytes_def base64_decode_bytes_def b64_decode_encode alphabets)

interpretation base64_text: codec utf8 base64_encode base64_decode
  by unfold_locales
     (simp add: base64_encode_def base64_decode_def b64_decode_encode alphabets bytes_to_result_def)

interpretation base64_url_text: codec utf8 base64_encode_url base64_decode_url
  by unfold_locales
     (simp add: base64_encode_url_def base64_decode_url_def b64_decode_encode alphabets bytes_to_result_def)

interpretation hex_text: codec utf8 hex_encode hex_decode
  by unfold_locales (rule hex_roundtrip)

interpretation url_text: codec utf8 url_encode url_decode
  by unfold_locales (simp add: url_encode_def url_decode_def percent_roundtrip bytes_to_result_def)

subsection \<open>Properties\<close>

text \<open>
  With either alphabet, base64 decoding gives back the encoded bytes whatever line breaks were
  inserted into the encoded text: a text that is the encoding of \<open>bs\<close> once its carriage returns and line
  feeds are dropped decodes to \<open>bs\<close>. In particular every byte string survives encode then decode.
\<close>

theorem base64_folded_roundtrip:
  assumes "alph = STD_ALPHABET \<or> alph = URL_ALPHABET"
    and "filter (\<lambda>b. b \<noteq> 13 \<and> b \<noteq> 10) s = b64_encode alph bs"
  shows "b64_decode alph s = Ok bs"
  using assms by (intro b64_decode_folded alphabets)

theorem base64_folded_roundtrip_witness:
  "b64_decode STD_ALPHABET (ascii ''Zm9v'' @ [13, 10] @ ascii ''YmE='') = Ok (ascii ''fooba'')"
proof (rule base64_folded_roundtrip)
  show "filter (\<lambda>b. b \<noteq> 13 \<and> b \<noteq> 10) (ascii ''Zm9v'' @ [13, 10] @ ascii ''YmE='') =
          b64_encode STD_ALPHABET (ascii ''fooba'')" by code_simp
qed simp



text \<open>
  C30. Every text member of the module is inverted by its partner on every valid UTF-8 string: both base64
  alphabets, hex and RFC 3986 percent-encoding; and two different strings never have the same encoding.
\<close>

theorem text_codecs_roundtrip:
  assumes "utf8 s" and "utf8 t"
  shows "base64_decode (base64_encode s) = Ok s \<and> base64_decode_url (base64_encode_url s) = Ok s \<and>
         hex_decode (hex_encode s) = Ok s \<and> url_decode (url_encode s) = Ok s \<and>
         (base64_encode s = base64_encode t \<or> base64_encode_url s = base64_encode_url t \<or>
          hex_encode s = hex_encode t \<or> url_encode s = url_encode t \<longrightarrow> s = t)"
  using assms base64_text.dec_enc [of s] base64_url_text.dec_enc [of s] hex_text.dec_enc [of s] url_text.dec_enc [of s]
    base64_text.enc_eq_iff [of s t] base64_url_text.enc_eq_iff [of s t] hex_text.enc_eq_iff [of s t]
    url_text.enc_eq_iff [of s t]
  by simp

theorem text_codecs_roundtrip_witness:
  "url_decode (url_encode [0xC3, 0xA9, 32, 43]) = Ok [0xC3, 0xA9, 32, 43] \<and>
   url_encode [0xC3, 0xA9, 32, 43] \<noteq> url_encode [37]"
proof -
  have "utf8 [0xC3, 0xA9, 32, 43]" "utf8 [37]" by code_simp+
  from text_codecs_roundtrip [OF this] show ?thesis by auto
qed

text \<open>
  C32. Parsing a query string built from a map of UTF-8 strings gives the map back, its pairs in the order
  of their keys; no key and no value, whatever separators, plus signs or percent signs it contains, is
  split or changed.
\<close>

theorem query_roundtrip:
  assumes "distinct (map fst ps)" and "list_all (\<lambda>(k, v). utf8 k \<and> utf8 v) ps"
  shows "query_decode (query_encode ps) = sort_key fst ps"
  using assms by (rule query_decode_encode)

theorem query_roundtrip_witness:
  "query_decode (query_encode [(ascii ''b'', ascii ''x=1&y''), (ascii ''a+'', ascii ''%'')]) =
   [(ascii ''a+'', ascii ''%''), (ascii ''b'', ascii ''x=1&y'')]"
proof -
  let ?ps = "[(ascii ''b'', ascii ''x=1&y''), (ascii ''a+'', ascii ''%'')]"
  have "distinct (map fst ?ps)" "list_all (\<lambda>(k, v). utf8 k \<and> utf8 v) ?ps" by code_simp+
  then have "query_decode (query_encode ?ps) = sort_key fst ?ps" by (rule query_roundtrip)
  moreover have "sort_key fst ?ps = [(ascii ''a+'', ascii ''%''), (ascii ''b'', ascii ''x=1&y'')]" by code_simp
  ultimately show ?thesis by simp
qed

text \<open>
  The \<^verbatim>\<open>host\<close> that \<^verbatim>\<open>url_parse\<close> reports never contains \<^verbatim>\<open>@\<close>, \<^verbatim>\<open>/\<close>, \<^verbatim>\<open>?\<close> or \<^verbatim>\<open>#\<close>, for any
  input: neither userinfo nor any part of the path, the query or the fragment can reach it, which is what
  a host allowlist relies on.
\<close>

theorem url_host_isolated: "set (u_host (url_parse u)) \<inter> {35, 47, 63, 64} = {}"
  by (rule url_host_chars)

end
