(* ===== verification/Exhaust.thy ===== *)
theory Exhaust
  imports Prelude "HOL-Library.List_Lexorder" "HOL-Library.Char_ord"
begin

text \<open>
  The exhaustiveness check of \<^verbatim>\<open>match\<close>, \<^verbatim>\<open>src/src/checker/exhaust.rs\<close>: surface patterns are lowered to
  rows of a pattern matrix, and a usefulness search over the matrix answers with an uncovered
  witness or with none. The type tables of the checker that the search reads (the variants of an
  enum, the fields of a struct, the imported variant names, the resolution of a struct constructor)
  are the fields of the record \<open>checker\<close>. Node identities and spans of patterns, which nothing here
  reads, are left out.
\<close>

subsection \<open>Types, patterns and the checker's tables\<close>

datatype ty =
    T_Int | T_Float | T_Bool | T_Str | T_Bytes | T_ByteArray | T_Nil
  | T_List ty | T_Map ty ty | T_Set ty | T_Func "ty list" ty
  | T_Tuple "ty list" | T_Struct string "ty list" | T_Enum string "ty list" | T_Param string
  | T_Result ty ty | T_Option ty | T_Channel ty | T_Shared ty | T_Atomic ty | T_AtomicInt
  | T_RwShared ty | T_Executor | T_Socket | T_Listener | T_Writer | T_Reader | T_Ptr | T_Width nat
  | T_Protocol string "ty list" | T_Module string | T_Unknown | T_Var nat

datatype carrier_tag = Present | CarrierError

datatype lit_pattern = L_Int i64 | L_Float "64 word" | L_Str string | L_Bool bool

datatype pattern =
    P_Ident string
  | P_Variant string "pattern list" "string option" "string option"
  | P_Tuple "pattern list"
  | P_Literal lit_pattern
  | P_Range i64 i64 bool
  | P_Wildcard
  | P_Or "pattern list"
  | P_Carrier carrier_tag pattern

text \<open>
  \<open>variants_of\<close> is the variant table of an enum type as a list of its entries; \<open>imported_variants\<close>
  gives the enum key and the variant a bare name is bound to; \<open>variant_owners\<close> are the other names
  that some enum declares; \<open>struct_ctor\<close> is whether \<^verbatim>\<open>resolve_struct_ctor(label, name, enum, module)\<close>
  answers \<^verbatim>\<open>Ok\<close>.
\<close>

record checker =
  variants_of :: "ty \<Rightarrow> (string \<times> ty list) list option"
  struct_fields_of :: "ty \<Rightarrow> ty list option"
  imported_variants :: "string \<Rightarrow> (string \<times> string) option"
  variant_owners :: "string \<Rightarrow> bool"
  struct_ctor :: "string \<Rightarrow> string \<Rightarrow> string option \<Rightarrow> string option \<Rightarrow> bool"

fun as_enum :: "ty \<Rightarrow> (string \<times> ty list) option" where
  "as_enum (T_Option t) = Some (''Option'', [t])"
| "as_enum (T_Result t e) = Some (''Result'', [t, e])"
| "as_enum (T_Enum k a) = Some (k, a)"
| "as_enum _ = None"

text \<open>\<^verbatim>\<open>bare_pattern_name(name).is_variant()\<close>\<close>

definition is_variant_name :: "checker \<Rightarrow> string \<Rightarrow> bool" where
  "is_variant_name chk name \<longleftrightarrow> imported_variants chk name \<noteq> None \<or> variant_owners chk name"

fun carrier_variant_of_key :: "carrier_tag \<Rightarrow> string \<Rightarrow> string option" where
  "carrier_variant_of_key tag key =
     (if key = ''Option'' \<and> tag = Present then Some ''Some''
      else if key = ''Result'' \<and> tag = Present then Some ''Ok''
      else if key = ''Result'' \<and> tag = CarrierError then Some ''Err''
      else None)"

definition carrier_tag_of_variant :: "string \<Rightarrow> carrier_tag option" where
  "carrier_tag_of_variant variant =
     find (\<lambda>tag. list_ex (\<lambda>key. carrier_variant_of_key tag key = Some variant) [''Option'', ''Result''])
       [Present, CarrierError]"

text \<open>\<^verbatim>\<open>key.rsplit("::").next()\<close>: what follows the last separator.\<close>

fun after_colons :: "string \<Rightarrow> string option" where
  "after_colons [] = None"
| "after_colons (c # cs) =
     (case after_colons cs of
        Some r \<Rightarrow> Some r
      | None \<Rightarrow> if take 2 (c # cs) = ''::'' then Some (drop 2 (c # cs)) else None)"

definition bare_display :: "string \<Rightarrow> string" where
  "bare_display key = (case after_colons key of Some r \<Rightarrow> r | None \<Rightarrow> key)"

fun join_with :: "string \<Rightarrow> string list \<Rightarrow> string" where
  "join_with sep [] = []"
| "join_with sep [s] = s"
| "join_with sep (s # ss) = s @ sep @ join_with sep ss"

definition tuple_tail :: "nat \<Rightarrow> string" where
  "tuple_tail n = (if n = 1 then '','' else [])"

definition tuple_parts :: "string list \<Rightarrow> string" where
  "tuple_parts parts = join_with '', '' parts @ tuple_tail (length parts)"

definition tuple_text :: "string list \<Rightarrow> string" where
  "tuple_text parts = ''('' @ tuple_parts parts @ '')''"

subsection \<open>Domains, rows and witnesses\<close>

datatype dom =
    Sum string "(string \<times> ty list) list" bool
  | Prod string "ty list"
  | DBool
  | Open

datatype pat = Wild | Ctor string "pat list" | Never

datatype wit = WWild | WCtor string "wit list" | WCarrier carrier_tag wit

record exh_check =
  rows :: "pat list list"
  x_dom :: dom
  overflow :: bool

definition MAX_ROWS :: nat where "MAX_ROWS = 512"
definition MAX_DEPTH :: nat where "MAX_DEPTH = 12"

definition sum_dom :: "checker \<Rightarrow> string \<Rightarrow> (string \<times> ty list) list \<Rightarrow> dom" where
  "sum_dom chk key variants =
     (let all_bare = list_all (\<lambda>(v, _). imported_variants chk v = Some (key, v)) variants;
          carrier = (key = ''Option'' \<or> key = ''Result'');
          prefix = (if carrier \<or> all_bare then [] else bare_display key)
      in Sum prefix (sort_key fst variants) carrier)"

definition dom_of_ty :: "checker \<Rightarrow> ty \<Rightarrow> dom" where
  "dom_of_ty chk t =
     (case t of
        T_Tuple tys \<Rightarrow> Prod [] tys
      | T_Struct name _ \<Rightarrow> (case struct_fields_of chk t of Some fs \<Rightarrow> Prod name fs | None \<Rightarrow> Open)
      | T_Bool \<Rightarrow> DBool
      | _ \<Rightarrow>
          (case (as_enum t, variants_of chk t) of
             (Some (key, _), Some vmap) \<Rightarrow> sum_dom chk key vmap
           | _ \<Rightarrow> Open))"

definition display_of :: "string \<Rightarrow> string \<Rightarrow> string" where
  "display_of label name = (if label = [] then name else label @ ''.'' @ name)"

fun dom_label :: "dom \<Rightarrow> string" where
  "dom_label (Sum prefix _ _) = prefix"
| "dom_label (Prod label _) = label"
| "dom_label _ = []"

fun ctor_display :: "dom \<Rightarrow> string \<Rightarrow> string" where
  "ctor_display (Prod l tys) name = bare_display name"
| "ctor_display d name = display_of (dom_label d) name"

definition wit_ctor :: "dom \<Rightarrow> string \<Rightarrow> wit list \<Rightarrow> wit" where
  "wit_ctor d name args =
     (case (d, args, carrier_tag_of_variant name) of
        (Sum _ _ True, [w], Some tag) \<Rightarrow> WCarrier tag w
      | _ \<Rightarrow> WCtor (ctor_display d name) args)"

fun carrier_head :: "carrier_tag \<Rightarrow> string" where
  "carrier_head Present = ''?''"
| "carrier_head CarrierError = ''!''"

fun render_wit :: "wit \<Rightarrow> string" where
  "render_wit WWild = ''_''"
| "render_wit (WCtor name args) =
     (if args = [] then name
      else if name = [] then tuple_text (map render_wit args)
      else name @ ''('' @ join_with '', '' (map render_wit args) @ '')'')"
| "render_wit (WCarrier tag w) =
     (case w of
        WCarrier _ _ \<Rightarrow> carrier_head tag @ ''('' @ render_wit w @ '')''
      | _ \<Rightarrow> carrier_head tag @ render_wit w)"

subsection \<open>Lowering a pattern\<close>

text \<open>
  The combinations of the alternatives column by column; \<open>None\<close> is the bail-out of \<^verbatim>\<open>exh_product\<close> when
  a step would hold more than \<open>MAX_ROWS\<close> of them.
\<close>

fun combos :: "pat list list \<Rightarrow> pat list list \<Rightarrow> pat list list option" where
  "combos acc [] = Some acc"
| "combos acc (alts # rest) =
     (let nxt = concat (map (\<lambda>c. map (\<lambda>a. c @ [a]) alts) acc)
      in if length nxt > MAX_ROWS then None else combos nxt rest)"

definition product_rows :: "string \<Rightarrow> pat list list \<Rightarrow> pat list" where
  "product_rows ctor alts =
     (case combos [[]] alts of None \<Rightarrow> [Never] | Some cs \<Rightarrow> map (Ctor ctor) cs)"

definition bare_variant_name :: "checker \<Rightarrow> bool \<Rightarrow> string \<Rightarrow> string" where
  "bare_variant_name chk bare name =
     (case imported_variants chk name of
        Some (_, variant) \<Rightarrow> if bare then variant else name
      | None \<Rightarrow> name)"

text \<open>The member a carrier pattern names: one of \<^verbatim>\<open>Some\<close>, \<^verbatim>\<open>Ok\<close>, \<^verbatim>\<open>Err\<close> with one payload slot.\<close>

definition carrier_member :: "carrier_tag \<Rightarrow> dom \<Rightarrow> (string \<times> ty list) option" where
  "carrier_member tag d =
     (case d of
        Sum _ members _ \<Rightarrow>
          (case [m. key \<leftarrow> [''Option'', ''Result''],
                    m \<leftarrow> (case carrier_variant_of_key tag key of
                            Some v \<Rightarrow> filter (\<lambda>(n, tys). n = v \<and> length tys = 1) members
                          | None \<Rightarrow> [])] of
             m # _ \<Rightarrow> Some m
           | [] \<Rightarrow> None)
      | _ \<Rightarrow> None)"

text \<open>What a \<^verbatim>\<open>Variant\<close> pattern means in a domain: a constructor with its payload types, any value, or nothing.\<close>

datatype head = HCtor string "ty list" | HAny | HNone

definition bare_binder :: "checker \<Rightarrow> string \<Rightarrow> pattern list \<Rightarrow> string option \<Rightarrow> string option \<Rightarrow> head" where
  "bare_binder chk name bindings enum_name module_name =
     (if enum_name = None \<and> module_name = None \<and> bindings = [] \<and> \<not> is_variant_name chk name
      then HAny else HNone)"

definition variant_head :: "checker \<Rightarrow> dom \<Rightarrow> string \<Rightarrow> pattern list \<Rightarrow> string option \<Rightarrow> string option \<Rightarrow> head" where
  "variant_head chk d name bindings enum_name module_name =
     (case d of
        Prod p tys \<Rightarrow>
          if p \<noteq> [] then
            (if struct_ctor chk p name enum_name module_name \<and> length tys = length bindings
             then HCtor p tys else HNone)
          else bare_binder chk name bindings enum_name module_name
      | Sum _ members _ \<Rightarrow>
          (case find (\<lambda>(n, _). n = bare_variant_name chk (enum_name = None \<and> module_name = None) name) members of
             Some (vname, tys) \<Rightarrow>
               if length tys = length bindings then HCtor vname tys
               else bare_binder chk name bindings enum_name module_name
           | None \<Rightarrow> bare_binder chk name bindings enum_name module_name)
      | _ \<Rightarrow> bare_binder chk name bindings enum_name module_name)"

text \<open>What an \<^verbatim>\<open>Ident\<close> pattern means.\<close>

definition ident_head :: "checker \<Rightarrow> dom \<Rightarrow> string \<Rightarrow> head" where
  "ident_head chk d name =
     (case (d, imported_variants chk name) of
        (Sum _ members _, Some (_, variant)) \<Rightarrow>
          if (variant, []) \<in> set members then HCtor variant []
          else if is_variant_name chk name then HNone else HAny
      | _ \<Rightarrow> if is_variant_name chk name then HNone else HAny)"

function exh_lower :: "checker \<Rightarrow> pattern \<Rightarrow> dom \<Rightarrow> nat \<Rightarrow> pat list" where
  "exh_lower chk p d depth =
     (if depth > MAX_DEPTH then [Never]
      else case p of
        P_Wildcard \<Rightarrow> [Wild]
      | P_Ident name \<Rightarrow>
          (case ident_head chk d name of HCtor v _ \<Rightarrow> [Ctor v []] | HAny \<Rightarrow> [Wild] | HNone \<Rightarrow> [Never])
      | P_Literal (L_Bool b) \<Rightarrow>
          (if d = DBool then [Ctor (if b then ''true'' else ''false'') []] else [Never])
      | P_Literal _ \<Rightarrow> [Never]
      | P_Range _ _ _ \<Rightarrow> [Never]
      | P_Carrier tag inner \<Rightarrow>
          (case carrier_member tag d of
             Some (vname, tys) \<Rightarrow>
               product_rows vname (map (\<lambda>(q, t). exh_lower chk q (dom_of_ty chk t) (depth + 1)) (zip [inner] tys))
           | None \<Rightarrow> [Never])
      | P_Tuple subs \<Rightarrow>
          (case d of
             Prod l tys \<Rightarrow>
               if l = [] \<and> length tys = length subs
               then product_rows [] (map (\<lambda>(q, t). exh_lower chk q (dom_of_ty chk t) (depth + 1)) (zip subs tys))
               else [Never]
           | _ \<Rightarrow> [Never])
      | P_Variant name bindings enum_name module_name \<Rightarrow>
          (case variant_head chk d name bindings enum_name module_name of
             HCtor v tys \<Rightarrow>
               product_rows v (map (\<lambda>(q, t). exh_lower chk q (dom_of_ty chk t) (depth + 1)) (zip bindings tys))
           | HAny \<Rightarrow> [Wild]
           | HNone \<Rightarrow> [Never])
      | P_Or alts \<Rightarrow> concat (map (\<lambda>q. exh_lower chk q d (depth + 1)) alts))"

  by pat_completeness auto
termination
  by (relation "measure (\<lambda>(chk, p, d, depth). Suc MAX_DEPTH - depth)") auto

declare exh_lower.simps [simp del]

lemma exh_lower_code [code]:
  "exh_lower chk P_Wildcard d depth = (if depth > MAX_DEPTH then [Never] else [Wild])"
  "exh_lower chk (P_Ident name) d depth =
     (if depth > MAX_DEPTH then [Never]
      else case ident_head chk d name of HCtor v _ \<Rightarrow> [Ctor v []] | HAny \<Rightarrow> [Wild] | HNone \<Rightarrow> [Never])"
  "exh_lower chk (P_Literal l) d depth =
     (if depth > MAX_DEPTH then [Never]
      else case l of
        L_Bool b \<Rightarrow> if d = DBool then [Ctor (if b then ''true'' else ''false'') []] else [Never]
      | _ \<Rightarrow> [Never])"
  "exh_lower chk (P_Range lo hi inc) d depth = [Never]"
  "exh_lower chk (P_Carrier tag q) d depth =
     (if depth > MAX_DEPTH then [Never]
      else case carrier_member tag d of
        Some (v, tys) \<Rightarrow>
          product_rows v (map (\<lambda>(q, t). exh_lower chk q (dom_of_ty chk t) (depth + 1)) (zip [q] tys))
      | None \<Rightarrow> [Never])"
  "exh_lower chk (P_Tuple ps) d depth =
     (if depth > MAX_DEPTH then [Never]
      else case d of
        Prod l tys \<Rightarrow>
          if l = [] \<and> length tys = length ps
          then product_rows [] (map (\<lambda>(q, t). exh_lower chk q (dom_of_ty chk t) (depth + 1)) (zip ps tys))
          else [Never]
      | _ \<Rightarrow> [Never])"
  "exh_lower chk (P_Variant name ps e m) d depth =
     (if depth > MAX_DEPTH then [Never]
      else case variant_head chk d name ps e m of
        HCtor v tys \<Rightarrow>
          product_rows v (map (\<lambda>(q, t). exh_lower chk q (dom_of_ty chk t) (depth + 1)) (zip ps tys))
      | HAny \<Rightarrow> [Wild]
      | HNone \<Rightarrow> [Never])"
  "exh_lower chk (P_Or ps) d depth =
     (if depth > MAX_DEPTH then [Never] else concat (map (\<lambda>q. exh_lower chk q d (depth + 1)) ps))"
  by (simp_all add: exh_lower.simps[of _ _ _ depth])

subsection \<open>The search for a witness\<close>

fun specialize_row :: "string \<Rightarrow> nat \<Rightarrow> pat list \<Rightarrow> pat list list" where
  "specialize_row ctor arity [] = []"
| "specialize_row ctor arity (Wild # rest) = [replicate arity Wild @ rest]"
| "specialize_row ctor arity (Ctor n args # rest) = (if n = ctor then [args @ rest] else [])"
| "specialize_row ctor arity (Never # rest) = []"

definition specialize :: "pat list list \<Rightarrow> string \<Rightarrow> nat \<Rightarrow> pat list list" where
  "specialize rs ctor arity = concat (map (specialize_row ctor arity) rs)"

fun default_row :: "pat list \<Rightarrow> pat list list" where
  "default_row (Wild # rest) = [rest]"
| "default_row _ = []"

definition default_matrix :: "pat list list \<Rightarrow> pat list list" where
  "default_matrix rs = concat (map default_row rs)"

fun ctors :: "dom \<Rightarrow> (string \<times> ty list) list" where
  "ctors (Sum _ members _) = members"
| "ctors (Prod label tys) = [(label, tys)]"
| "ctors DBool = [(''true'', []), (''false'', [])]"
| "ctors Open = []"

fun head_name :: "pat list \<Rightarrow> string option" where
  "head_name (Ctor n _ # _) = Some n"
| "head_name _ = None"

definition used :: "pat list list \<Rightarrow> string \<Rightarrow> bool" where
  "used rs n \<longleftrightarrow> Some n \<in> set (map head_name rs)"

definition complete :: "pat list list \<Rightarrow> dom \<Rightarrow> bool" where
  "complete rs d \<longleftrightarrow> ctors d \<noteq> [] \<and> list_all (\<lambda>(n, _). used rs n) (ctors d)"

definition missing_head :: "pat list list \<Rightarrow> dom \<Rightarrow> wit" where
  "missing_head rs d =
     (case find (\<lambda>(n, _). \<not> used rs n) (ctors d) of
        Some (name, tys) \<Rightarrow> wit_ctor d name (replicate (length tys) WWild)
      | None \<Rightarrow> WWild)"

fun first_some :: "('a \<Rightarrow> 'b option) \<Rightarrow> 'a list \<Rightarrow> 'b option" where
  "first_some f [] = None"
| "first_some f (x # xs) = (case f x of Some y \<Rightarrow> Some y | None \<Rightarrow> first_some f xs)"

lemma first_some_cong [fundef_cong]:
  "xs = ys \<Longrightarrow> (\<And>x. x \<in> set ys \<Longrightarrow> f x = g x) \<Longrightarrow> first_some f xs = first_some g ys"
  by (induction xs arbitrary: ys) (auto split: option.splits)

text \<open>\<^verbatim>\<open>w.drain(..tys.len())\<close>: the payload columns become the arguments of the constructor.\<close>

definition regroup :: "dom \<Rightarrow> string \<Rightarrow> nat \<Rightarrow> wit list \<Rightarrow> wit list" where
  "regroup d name n w = wit_ctor d name (take n w) # drop n w"

function exh_witness_rec :: "checker \<Rightarrow> pat list list \<Rightarrow> dom list \<Rightarrow> nat \<Rightarrow> wit list option" where
  "exh_witness_rec chk rs doms depth =
     (if depth > MAX_DEPTH \<or> rs = [] then Some (replicate (length doms) WWild)
      else case doms of
        [] \<Rightarrow> None
      | dom0 # rest_doms \<Rightarrow>
          if complete rs dom0 then
            first_some (\<lambda>(name, tys).
              map_option (regroup dom0 name (length tys))
                (exh_witness_rec chk (specialize rs name (length tys))
                   (map (dom_of_ty chk) tys @ rest_doms) (depth + 1))) (ctors dom0)
          else
            map_option (\<lambda>w. missing_head rs dom0 # w)
              (exh_witness_rec chk (default_matrix rs) rest_doms (depth + 1)))"
  by pat_completeness auto
termination
  by (relation "measure (\<lambda>(chk, rs, doms, depth). Suc MAX_DEPTH - depth)") auto

declare exh_witness_rec.simps [simp del]

subsection \<open>The check of one match\<close>

datatype match_kind =
    MK_Variants string "(string \<times> ty list) list"
  | MK_Literal
  | MK_Tuple "ty list"
  | MK_Struct string "ty list"
  | MK_Skip

definition exh_new :: "checker \<Rightarrow> match_kind \<Rightarrow> exh_check option" where
  "exh_new chk kind =
     map_option (\<lambda>d. \<lparr>rows = [], x_dom = d, overflow = False\<rparr>)
       (case kind of
          MK_Variants label variants \<Rightarrow> Some (sum_dom chk label variants)
        | MK_Tuple tys \<Rightarrow> Some (Prod [] tys)
        | MK_Struct label fs \<Rightarrow> Some (Prod label fs)
        | _ \<Rightarrow> None)"

text \<open>The loop of \<^verbatim>\<open>exh_add\<close> over one arm's rows; \<open>None\<close> is the overflow.\<close>

fun add_rows :: "pat list list \<Rightarrow> pat list \<Rightarrow> pat list list option" where
  "add_rows rs [] = Some rs"
| "add_rows rs (alt # alts) = (if length rs \<ge> MAX_ROWS then None else add_rows (rs @ [[alt]]) alts)"

definition exh_add :: "checker \<Rightarrow> exh_check option \<Rightarrow> pattern \<Rightarrow> bool \<Rightarrow> exh_check option \<times> bool" where
  "exh_add chk e p guarded =
     (case e of
        None \<Rightarrow> (None, False)
      | Some c \<Rightarrow>
          if overflow c then (Some c, False)
          else
            case (if guarded then Some (rows c) else add_rows (rows c) (exh_lower chk p (x_dom c) 0)) of
              None \<Rightarrow> (Some (c\<lparr>overflow := True\<rparr>), False)
            | Some rs \<Rightarrow> (Some (c\<lparr>rows := rs\<rparr>), exh_witness_rec chk rs [x_dom c] 0 = None))"

definition exh_help :: "checker \<Rightarrow> exh_check option \<Rightarrow> string option" where
  "exh_help chk e =
     (case e of
        None \<Rightarrow> None
      | Some c \<Rightarrow>
          if overflow c then None
          else case exh_witness_rec chk (rows c) [x_dom c] 0 of
                 Some (w # _) \<Rightarrow> Some (''pattern `'' @ render_wit w @ ''` is not covered'')
               | _ \<Rightarrow> None)"

text \<open>
  The arm loop of \<^verbatim>\<open>check_match\<close> as far as this check goes: the final state and whether some arm
  closed the match.
\<close>

definition add_arm :: "checker \<Rightarrow> exh_check option \<times> bool \<Rightarrow> pattern \<times> bool \<Rightarrow> exh_check option \<times> bool" where
  "add_arm chk st arm =
     (case exh_add chk (fst st) (fst arm) (snd arm) of (e, closed) \<Rightarrow> (e, snd st \<or> closed))"

definition check_arms :: "checker \<Rightarrow> match_kind \<Rightarrow> (pattern \<times> bool) list \<Rightarrow> exh_check option \<times> bool" where
  "check_arms chk kind arms = foldl (add_arm chk) (exh_new chk kind, False) arms"

subsection \<open>Values and what it means to match\<close>

text \<open>
  A value of a closed type is a constructor with its payload; the literals of the open types are
  themselves; \<open>VOther\<close> is any other value.
\<close>

datatype val = VCon string "val list" | VInt i64 | VFloat "64 word" | VStr string | VOther nat

fun in_dom :: "checker \<Rightarrow> dom \<Rightarrow> val \<Rightarrow> bool"
and in_tys :: "checker \<Rightarrow> ty list \<Rightarrow> val list \<Rightarrow> bool" where
  "in_dom chk d (VCon n vs) \<longleftrightarrow> d = Open \<or> (\<exists>(m, tys) \<in> set (ctors d). m = n \<and> in_tys chk tys vs)"
| "in_dom chk d v \<longleftrightarrow> d = Open"
| "in_tys chk [] [] \<longleftrightarrow> True"
| "in_tys chk (t # ts) (v # vs) \<longleftrightarrow> in_dom chk (dom_of_ty chk t) v \<and> in_tys chk ts vs"
| "in_tys chk _ _ \<longleftrightarrow> False"

text \<open>A lowered row entry against a value.\<close>

fun pmatch :: "pat \<Rightarrow> val \<Rightarrow> bool" and pmatches :: "pat list \<Rightarrow> val list \<Rightarrow> bool" where
  "pmatch Wild v \<longleftrightarrow> True"
| "pmatch (Ctor n ps) (VCon m vs) \<longleftrightarrow> n = m \<and> pmatches ps vs"
| "pmatch (Ctor n ps) v \<longleftrightarrow> False"
| "pmatch Never v \<longleftrightarrow> False"
| "pmatches [] [] \<longleftrightarrow> True"
| "pmatches (p # ps) (v # vs) \<longleftrightarrow> pmatch p v \<and> pmatches ps vs"
| "pmatches _ _ \<longleftrightarrow> False"

text \<open>
  A surface pattern against a value of a domain, with the names resolved as the checker resolves
  them. A literal compares, a range contains, a constructor matches its payload slot by slot, an
  or-pattern matches when an alternative does; there is no depth limit.
\<close>

fun lit_matches :: "lit_pattern \<Rightarrow> val \<Rightarrow> bool" where
  "lit_matches (L_Int n) v \<longleftrightarrow> v = VInt n"
| "lit_matches (L_Float x) v \<longleftrightarrow> v = VFloat x"
| "lit_matches (L_Str s) v \<longleftrightarrow> v = VStr s"
| "lit_matches (L_Bool b) v \<longleftrightarrow> v = VCon (if b then ''true'' else ''false'') []"

fun range_matches :: "i64 \<Rightarrow> i64 \<Rightarrow> bool \<Rightarrow> val \<Rightarrow> bool" where
  "range_matches lo hi inclusive (VInt n) \<longleftrightarrow> lo \<le>s n \<and> (if inclusive then n \<le>s hi else n <s hi)"
| "range_matches lo hi inclusive v \<longleftrightarrow> False"

fun matches :: "checker \<Rightarrow> dom \<Rightarrow> pattern \<Rightarrow> val \<Rightarrow> bool"
and matches_all :: "checker \<Rightarrow> ty list \<Rightarrow> pattern list \<Rightarrow> val list \<Rightarrow> bool"
and matches_any :: "checker \<Rightarrow> dom \<Rightarrow> pattern list \<Rightarrow> val \<Rightarrow> bool" where
  "matches chk d P_Wildcard v \<longleftrightarrow> True"
| "matches chk d (P_Ident name) v \<longleftrightarrow>
     (case ident_head chk d name of HCtor n _ \<Rightarrow> v = VCon n [] | HAny \<Rightarrow> True | HNone \<Rightarrow> False)"
| "matches chk d (P_Literal l) v \<longleftrightarrow> lit_matches l v"
| "matches chk d (P_Range lo hi inc) v \<longleftrightarrow> range_matches lo hi inc v"
| "matches chk d (P_Carrier tag p) v \<longleftrightarrow>
     (case (carrier_member tag d, v) of
        (Some (n, tys), VCon m vs) \<Rightarrow> m = n \<and> matches_all chk tys [p] vs
      | _ \<Rightarrow> False)"
| "matches chk d (P_Tuple ps) v \<longleftrightarrow>
     (case (d, v) of
        (Prod l tys, VCon m vs) \<Rightarrow> l = [] \<and> m = [] \<and> matches_all chk tys ps vs
      | _ \<Rightarrow> False)"
| "matches chk d (P_Variant name ps enum_name module_name) v \<longleftrightarrow>
     (case variant_head chk d name ps enum_name module_name of
        HCtor n tys \<Rightarrow> (case v of VCon m vs \<Rightarrow> m = n \<and> matches_all chk tys ps vs | _ \<Rightarrow> False)
      | HAny \<Rightarrow> True
      | HNone \<Rightarrow> False)"
| "matches chk d (P_Or ps) v \<longleftrightarrow> matches_any chk d ps v"
| "matches_all chk [] [] [] \<longleftrightarrow> True"
| "matches_all chk (t # ts) (p # ps) (v # vs) \<longleftrightarrow>
     matches chk (dom_of_ty chk t) p v \<and> matches_all chk ts ps vs"
| "matches_all chk _ _ _ \<longleftrightarrow> False"
| "matches_any chk d [] v \<longleftrightarrow> False"
| "matches_any chk d (p # ps) v \<longleftrightarrow> matches chk d p v \<or> matches_any chk d ps v"

end
