(* ===== verification/ExhaustCorrect.thy ===== *)
theory ExhaustCorrect
  imports Exhaust
begin

text \<open>
  Correctness of the exhaustiveness check: lowering is sound for the surface patterns, a search that
  finds no witness means that the rows cover every value, and a witness it finds describes values that
  no row matches.
\<close>

subsection \<open>Well-formed tables and rows\<close>

definition dom_ok :: "dom \<Rightarrow> bool" where
  "dom_ok d \<longleftrightarrow> distinct (map fst (ctors d))"

definition checker_ok :: "checker \<Rightarrow> bool" where
  "checker_ok chk \<longleftrightarrow> (\<forall>t vs. variants_of chk t = Some vs \<longrightarrow> distinct (map fst vs))"

fun wf_pat :: "checker \<Rightarrow> dom \<Rightarrow> pat \<Rightarrow> bool" and wf_pats :: "checker \<Rightarrow> ty list \<Rightarrow> pat list \<Rightarrow> bool" where
  "wf_pat chk d (Ctor n ps) \<longleftrightarrow> (\<exists>(m, tys) \<in> set (ctors d). m = n \<and> wf_pats chk tys ps)"
| "wf_pat chk d _ \<longleftrightarrow> True"
| "wf_pats chk [] [] \<longleftrightarrow> True"
| "wf_pats chk (t # ts) (p # ps) \<longleftrightarrow> wf_pat chk (dom_of_ty chk t) p \<and> wf_pats chk ts ps"
| "wf_pats chk _ _ \<longleftrightarrow> False"

lemma in_tys_list_all2: "in_tys chk ts vs \<longleftrightarrow> list_all2 (in_dom chk) (map (dom_of_ty chk) ts) vs"
  by (induction ts arbitrary: vs) (case_tac vs; simp)+

lemma pmatches_list_all2: "pmatches ps vs \<longleftrightarrow> list_all2 pmatch ps vs"
  by (induction ps arbitrary: vs) (case_tac vs; simp)+

lemma pmatches_Nil [simp]: "pmatches [] vs \<longleftrightarrow> vs = []"
  by (cases vs) auto

lemma wf_pats_list_all2: "wf_pats chk ts ps \<longleftrightarrow> list_all2 (wf_pat chk) (map (dom_of_ty chk) ts) ps"
  by (induction ts arbitrary: ps) (case_tac ps; simp)+

lemma matches_all_list: 
  "length ts = length ps \<Longrightarrow> matches_all chk ts ps vs \<longleftrightarrow> 
    list_all2 (\<lambda>(t, p) v. matches chk (dom_of_ty chk t) p v) (zip ts ps) vs"
  by (induction ts ps arbitrary: vs rule: list_induct2) (case_tac vs; simp)+

lemma matches_any_iff: "matches_any chk d ps v \<longleftrightarrow> (\<exists>p \<in> set ps. matches chk d p v)"
  by (induction ps) auto

lemma dom_ok_sum: "distinct (map fst vs) \<Longrightarrow> dom_ok (sum_dom chk key vs)"
  by (simp add: dom_ok_def sum_dom_def Let_def distinct_map)

lemma dom_ok_ty: "checker_ok chk \<Longrightarrow> dom_ok (dom_of_ty chk t)"
  by (auto simp: dom_of_ty_def checker_ok_def dom_ok_sum split: ty.splits option.splits prod.splits)
     (auto simp: dom_ok_def)

lemma dom_ok_unique: "dom_ok d \<Longrightarrow> (n, tys) \<in> set (ctors d) \<Longrightarrow> (n, tys') \<in> set (ctors d) \<Longrightarrow> tys = tys'"
  by (metis dom_ok_def map_of_is_SomeI option.inject)

lemma first_some_None: "first_some f xs = None \<longleftrightarrow> (\<forall>x \<in> set xs. f x = None)"
  by (induction xs) (auto split: option.splits)

lemma specialize_iff:
  "r' \<in> set (specialize rs n k) \<longleftrightarrow> (\<exists>r \<in> set rs. r' \<in> set (specialize_row n k r))"
  by (auto simp: specialize_def)

lemma default_iff: "r' \<in> set (default_matrix rs) \<longleftrightarrow> (Wild # r') \<in> set rs"
proof -
  have "r' \<in> set (default_row r) \<longleftrightarrow> r = Wild # r'" for r
    by (cases r rule: default_row.cases) auto
  then show ?thesis by (auto simp: default_matrix_def)
qed

lemma specialize_row_match:
  assumes "r' \<in> set (specialize_row n k r)" "list_all2 pmatch r' (args @ vs)" "length args = k"
    "list_all2 (wf_pat chk) (d # ds) r" "dom_ok d" "(n, tys) \<in> set (ctors d)" "length tys = k"
  shows "list_all2 pmatch r (VCon n args # vs)"
  using assms(1)
proof (cases rule: specialize_row.cases[of "(n, k, r)"])
  case (3 ctor arity m ps rest)
  then have r: "r = Ctor n ps # rest" "r' = ps @ rest" using assms(1) by (auto split: if_splits)
  then have "length ps = k"
    using assms(4-7) dom_ok_unique by (fastforce simp: wf_pats_list_all2 dest: list_all2_lengthD)
  then show ?thesis using assms(2,3) r by (simp add: list_all2_append pmatches_list_all2)
qed (use assms in \<open>auto simp: list_all2_append\<close>)

lemma specialize_row_wf:
  assumes "r' \<in> set (specialize_row n k r)" 
    "list_all2 (wf_pat chk) (d # ds) r" "dom_ok d" "(n, tys) \<in> set (ctors d)" "length tys = k"
  shows "list_all2 (wf_pat chk) (map (dom_of_ty chk) tys @ ds) r'"
  using assms(1)
proof (cases rule: specialize_row.cases[of "(n, k, r)"])
  case (2 ctor arity rest)
  moreover have "list_all2 (wf_pat chk) (map (dom_of_ty chk) tys) (replicate k Wild)"
    using assms(5) by (auto simp: list_all2_conv_all_nth)
  ultimately show ?thesis using assms(1,2) by (auto intro: list_all2_appendI)
next
  case (3 ctor arity m ps rest)
  then have r: "r = Ctor n ps # rest" "r' = ps @ rest" using assms(1) by (auto split: if_splits)
  then have "wf_pats chk tys ps"
    using assms(2-5) dom_ok_unique by fastforce
  then show ?thesis using assms(2) r by (auto simp: wf_pats_list_all2 intro: list_all2_appendI)
qed (use assms in auto)

lemma exh_sound:
  "exh_witness_rec chk rs doms depth = None \<Longrightarrow> (\<forall>r \<in> set rs. list_all2 (wf_pat chk) doms r) \<Longrightarrow>
    (\<forall>d \<in> set doms. dom_ok d) \<Longrightarrow> list_all2 (in_dom chk) doms vs \<Longrightarrow> checker_ok chk \<Longrightarrow>
    \<exists>r \<in> set rs. list_all2 pmatch r vs"
proof (induction chk rs doms depth arbitrary: vs rule: exh_witness_rec.induct)
  case (1 chk rs doms depth)
  have go: "\<not> (depth > MAX_DEPTH \<or> rs = [])"
    using "1.prems"(1) by (subst (asm) exh_witness_rec.simps) (auto split: if_splits)
  show ?case
  proof (cases doms)
    case Nil
    then show ?thesis using go "1.prems" by (cases rs) auto
  next
    case (Cons d ds)
    obtain v vs' where vs: "vs = v # vs'" "in_dom chk d v" "list_all2 (in_dom chk) ds vs'"
      using "1.prems"(4) Cons by (auto simp: list_all2_Cons1)
    show ?thesis
    proof (cases "complete rs d")
      case True
      have rec: "exh_witness_rec chk (specialize rs n (length tys)) (map (dom_of_ty chk) tys @ ds) (depth + 1) = None"
        if "(n, tys) \<in> set (ctors d)" for n tys
        using "1.prems"(1) go Cons True that
        by (subst (asm) exh_witness_rec.simps) (auto simp: first_some_None)
      have "d \<noteq> Open" using True by (auto simp: complete_def)
      then obtain n args tys where v: "v = VCon n args" "(n, tys) \<in> set (ctors d)" "in_tys chk tys args"
        using vs(2) by (cases v) auto
      let ?rs = "specialize rs n (length tys)" and ?ds = "map (dom_of_ty chk) tys @ ds"
      have d: "dom_ok d" "\<forall>r \<in> set rs. list_all2 (wf_pat chk) (d # ds) r" "\<forall>d \<in> set ?ds. dom_ok d"
        using "1.prems" Cons by (auto intro: dom_ok_ty)
      have "\<forall>r \<in> set ?rs. list_all2 (wf_pat chk) ?ds r"
        using specialize_row_wf [OF _ _ d(1) v(2) refl] d(2) by (auto simp: specialize_iff)
      moreover have "list_all2 (in_dom chk) ?ds (args @ vs')"
        using v(3) vs(3) by (auto simp: in_tys_list_all2 intro: list_all2_appendI)
      ultimately have "\<exists>r \<in> set ?rs. list_all2 pmatch r (args @ vs')"
        using "1.IH"(1)[OF go Cons True v(2) refl rec[OF v(2)]] d(3) "1.prems"(5) by blast
      moreover have "length args = length tys" using v(3) by (auto simp: in_tys_list_all2 dest: list_all2_lengthD)
      ultimately show ?thesis
        using specialize_row_match [OF _ _ _ _ d(1) v(2) refl] d(2) vs(1) v(1) by (fastforce simp: specialize_iff)
    next
      case False
      have rec: "exh_witness_rec chk (default_matrix rs) ds (depth + 1) = None"
        using "1.prems"(1) go Cons False by (subst (asm) exh_witness_rec.simps) auto
      have "\<forall>r \<in> set (default_matrix rs). list_all2 (wf_pat chk) ds r"
        using "1.prems"(2) Cons by (fastforce simp: default_iff)
      then have "\<exists>r \<in> set (default_matrix rs). list_all2 pmatch r vs'"
        using "1.IH"(2)[OF go Cons False rec _ _ vs(3)] "1.prems" Cons by simp
      then show ?thesis using vs(1) by (force simp: default_iff)
    qed
  qed
qed

subsection \<open>Lowering is sound\<close>

lemma combos_split:
  "combos acc alts = Some cs \<Longrightarrow> c \<in> set cs \<Longrightarrow>
     \<exists>a ps. a \<in> set acc \<and> c = a @ ps \<and> list_all2 (\<lambda>p as. p \<in> set as) ps alts"
proof (induction alts arbitrary: acc)
  case (Cons as alts)
  let ?nxt = "concat (map (\<lambda>c. map (\<lambda>a. c @ [a]) as) acc)"
  have "combos ?nxt alts = Some cs" using Cons.prems by (auto simp: Let_def split: if_splits)
  from Cons.IH[OF this Cons.prems(2)] obtain b ps where
    "b \<in> set ?nxt" "c = b @ ps" "list_all2 (\<lambda>p as. p \<in> set as) ps alts" by blast
  moreover then obtain a q where "a \<in> set acc" "q \<in> set as" "b = a @ [q]" by auto
  ultimately show ?case by (intro exI[of _ a] exI[of _ "q # ps"]) auto
qed auto

lemma product_rows_cases:
  assumes "x \<in> set (product_rows n alts)"
  obtains "x = Never" | ps where "x = Ctor n ps" "list_all2 (\<lambda>p as. p \<in> set as) ps alts"
  using assms combos_split[of "[[]]" alts] by (force simp: product_rows_def split: option.splits)

text \<open>The payload of a lowered constructor: well formed, and its matches are matches of the sub-patterns.\<close>

lemma payload_sound:
  assumes ih: "\<And>q x d. q \<in> set qs \<Longrightarrow> x \<in> set (exh_lower chk q d depth) \<Longrightarrow>
      wf_pat chk d x \<and> (\<forall>v. pmatch x v \<longrightarrow> matches chk d q v)"
    and len: "length qs = length tys"
    and ps: "list_all2 (\<lambda>p as. p \<in> set as) ps (map (\<lambda>(q, t). exh_lower chk q (dom_of_ty chk t) depth) (zip qs tys))"
  shows "wf_pats chk tys ps \<and> (\<forall>vs. pmatches ps vs \<longrightarrow> matches_all chk tys qs vs)"
  using len ih ps
proof (induction qs tys arbitrary: ps rule: list_induct2)
  case (Cons q qs t tys)
  then obtain x ps' where ps: "ps = x # ps'" "x \<in> set (exh_lower chk q (dom_of_ty chk t) depth)"
    "list_all2 (\<lambda>p as. p \<in> set as) ps' (map (\<lambda>(q, t). exh_lower chk q (dom_of_ty chk t) depth) (zip qs tys))"
    by (auto simp: list_all2_Cons2)
  have "wf_pats chk tys ps' \<and> (\<forall>vs. pmatches ps' vs \<longrightarrow> matches_all chk tys qs vs)"
    using Cons.IH[OF Cons.prems(1) ps(3)] by simp
  moreover have "pmatches ps vs \<Longrightarrow> \<exists>v vs'. vs = v # vs'" for vs by (cases vs) (auto simp: ps)
  ultimately show ?case using Cons.prems(1)[of q x] ps by fastforce
qed (auto simp: pmatches_list_all2)

lemma product_sound:
  assumes "x \<in> set (product_rows n (map (\<lambda>(q, t). exh_lower chk q (dom_of_ty chk t) depth) (zip qs tys)))"
    and "\<And>q x d. q \<in> set qs \<Longrightarrow> x \<in> set (exh_lower chk q d depth) \<Longrightarrow>
      wf_pat chk d x \<and> (\<forall>v. pmatch x v \<longrightarrow> matches chk d q v)"
    and "length qs = length tys" "(n, tys) \<in> set (ctors d)"
  shows "wf_pat chk d x \<and>
     (\<forall>v. pmatch x v \<longrightarrow> (\<exists>vs. v = VCon n vs \<and> matches_all chk tys qs vs))"
  using assms(1)
proof (cases rule: product_rows_cases)
  case (2 ps)
  have "wf_pats chk tys ps \<and> (\<forall>vs. pmatches ps vs \<longrightarrow> matches_all chk tys qs vs)"
    by (rule payload_sound[OF assms(2,3) 2(2)])
  then show ?thesis using 2(1) assms(4) by (auto elim!: pmatch.elims)
qed auto

lemma find_member: "find P xs = Some x \<Longrightarrow> x \<in> set xs"
  by (induction xs) (auto split: if_splits)

lemma variant_head_member:
  "variant_head chk d name ps e m = HCtor n tys \<Longrightarrow> (n, tys) \<in> set (ctors d) \<and> length ps = length tys"
  by (auto simp: variant_head_def bare_binder_def split: dom.splits if_splits option.splits prod.splits
      dest: find_member)

lemma ident_head_member: "ident_head chk d name = HCtor n tys \<Longrightarrow> (n, []) \<in> set (ctors d)"
  by (auto simp: ident_head_def split: dom.splits if_splits option.splits prod.splits)

lemma head_case: "(case L of m # _ \<Rightarrow> Some m | [] \<Rightarrow> None) = Some x \<Longrightarrow> x \<in> set L"
  by (cases L) auto

lemma carrier_member_in:
  "carrier_member tag d = Some (n, tys) \<Longrightarrow> (n, tys) \<in> set (ctors d) \<and> length tys = 1"
proof (cases d)
  case (Sum pre members c)
  let ?L = "[m. key \<leftarrow> [''Option'', ''Result''],
                m \<leftarrow> (case carrier_variant_of_key tag key of
                        Some v \<Rightarrow> filter (\<lambda>(n, tys). n = v \<and> length tys = 1) members
                      | None \<Rightarrow> [])]"
  assume "carrier_member tag d = Some (n, tys)"
  then have "(case ?L of m # _ \<Rightarrow> Some m | [] \<Rightarrow> None) = Some (n, tys)"
    unfolding carrier_member_def Sum by simp
  then have "(n, tys) \<in> set ?L" by (rule head_case)
  then show ?thesis using Sum by (auto split: option.splits if_splits)
qed (auto simp: carrier_member_def)

lemma exh_lower_sound:
  "x \<in> set (exh_lower chk p d depth) \<Longrightarrow> wf_pat chk d x \<and> (\<forall>v. pmatch x v \<longrightarrow> matches chk d p v)"
proof (induction p arbitrary: x d depth)
  case (P_Ident name)
  then show ?case using ident_head_member[of chk d name]
    by (subst (asm) exh_lower.simps) (force simp: pmatches_list_all2 split: if_splits head.splits elim!: pmatch.elims)
next
  case (P_Variant name ps e m)
  show ?case
  proof (cases "variant_head chk d name ps e m")
    case (HCtor n tys)
    show ?thesis
    proof (cases "depth > MAX_DEPTH")
      case False
      have "wf_pat chk d x \<and> (\<forall>v. pmatch x v \<longrightarrow> (\<exists>vs. v = VCon n vs \<and> matches_all chk tys ps vs))"
        using product_sound[of x n chk "depth + 1" ps tys d] P_Variant HCtor variant_head_member[OF HCtor] False
        by (simp add: exh_lower.simps[of _ _ _ depth])
      then show ?thesis using HCtor by auto
    qed (use P_Variant in \<open>simp add: exh_lower.simps[of _ _ _ depth]\<close>)
  qed (use P_Variant in \<open>auto simp: exh_lower.simps[of _ _ _ depth] split: if_splits\<close>)
next
  case (P_Literal l)
  then show ?case by (subst (asm) exh_lower.simps) (auto split: if_splits lit_pattern.splits elim!: pmatch.elims)
next
  case (P_Or ps)
  show ?case
  proof (cases "depth > MAX_DEPTH")
    case False
    then obtain q where "q \<in> set ps" "x \<in> set (exh_lower chk q d (depth + 1))"
      using P_Or.prems by (auto simp: exh_lower.simps[of _ _ _ depth])
    then show ?thesis using P_Or.IH[of q x d] by (auto simp: matches_any_iff)
  qed (use P_Or in \<open>simp add: exh_lower.simps[of _ _ _ depth]\<close>)
next
  case (P_Tuple ps)
  show ?case
  proof (cases "depth \<le> MAX_DEPTH \<and> (\<exists>tys. d = Prod [] tys \<and> length tys = length ps)")
    case True
    then obtain tys where d: "d = Prod [] tys" "length ps = length tys" by auto
    have "wf_pat chk d x \<and> (\<forall>v. pmatch x v \<longrightarrow> (\<exists>vs. v = VCon [] vs \<and> matches_all chk tys ps vs))"
      using product_sound[of x "[]" chk "depth + 1" ps tys d] P_Tuple d True
      by (simp add: exh_lower.simps[of _ _ _ depth])
    then show ?thesis using d by auto
  next
    case False
    then have "x = Never" using P_Tuple.prems by (auto simp: exh_lower.simps[of _ _ _ depth] split: dom.splits if_splits)
    then show ?thesis by simp
  qed
next
  case (P_Carrier tag p)
  show ?case
  proof (cases "depth > MAX_DEPTH \<or> carrier_member tag d = None")
    case True
    then have "x = Never" using P_Carrier.prems by (auto simp: exh_lower.simps[of _ _ _ depth] split: if_splits)
    then show ?thesis by simp
  next
    case False
    then obtain n tys where m: "carrier_member tag d = Some (n, tys)" by auto
    have "wf_pat chk d x \<and> (\<forall>v. pmatch x v \<longrightarrow> (\<exists>vs. v = VCon n vs \<and> matches_all chk tys [p] vs))"
    proof (rule product_sound)
      show "x \<in> set (product_rows n (map (\<lambda>(q, t). exh_lower chk q (dom_of_ty chk t) (depth + 1)) (zip [p] tys)))"
        using P_Carrier.prems m False by (simp add: exh_lower.simps[of _ _ _ depth])
    qed (use P_Carrier.IH carrier_member_in[OF m] in auto)
    then show ?thesis using m by auto
  qed
qed (subst (asm) exh_lower.simps, auto split: if_splits)+

subsection \<open>The arm loop\<close>

text \<open>A kind of match is well formed when its variant names are distinct, as the keys of a table are.\<close>

definition kind_ok :: "match_kind \<Rightarrow> bool" where
  "kind_ok kind = (case kind of MK_Variants _ variants \<Rightarrow> distinct (map fst variants) | _ \<Rightarrow> True)"

lemma exh_new_dom_ok: "exh_new chk kind = Some c \<Longrightarrow> kind_ok kind \<Longrightarrow> dom_ok (x_dom c)"
  by (auto simp: exh_new_def kind_ok_def dom_ok_sum split: match_kind.splits)
     (auto simp: dom_ok_def)

text \<open>The rows of a state are lowered from unguarded arms.\<close>

definition rows_from :: "checker \<Rightarrow> dom \<Rightarrow> (pattern \<times> bool) list \<Rightarrow> pat list list \<Rightarrow> bool" where
  "rows_from chk d arms rs \<longleftrightarrow>
     (\<forall>r \<in> set rs. \<exists>p x. (p, False) \<in> set arms \<and> r = [x] \<and> x \<in> set (exh_lower chk p d 0))"

lemma add_rows_set: "add_rows rs alts = Some rs' \<Longrightarrow> set rs' = set rs \<union> (\<lambda>a. [a]) ` set alts"
  by (induction alts arbitrary: rs) (auto split: if_splits)

lemma covered_sound:
  assumes "checker_ok chk" "dom_ok d" "rows_from chk d arms rs" "exh_witness_rec chk rs [d] 0 = None" "in_dom chk d v"
  shows "\<exists>p. (p, False) \<in> set arms \<and> matches chk d p v"
proof -
  have "\<forall>r \<in> set rs. list_all2 (wf_pat chk) [d] r"
    using assms(3) exh_lower_sound by (fastforce simp: rows_from_def)
  then have "\<exists>r \<in> set rs. list_all2 pmatch r [v]"
    using exh_sound[OF assms(4) _ _ _ assms(1), of "[v]"] assms(2,5) by simp
  then show ?thesis using assms(3) exh_lower_sound by (fastforce simp: rows_from_def)
qed

lemma add_arm_inv:
  assumes "checker_ok chk" "dom_ok d"
    and "fst st = Some c" "x_dom c = d" "rows_from chk d arms (rows c)"
    and "snd st \<Longrightarrow> \<forall>v. in_dom chk d v \<longrightarrow> (\<exists>p. (p, False) \<in> set arms \<and> matches chk d p v)"
  shows "\<exists>c'. fst (add_arm chk st arm) = Some c' \<and> x_dom c' = d \<and> rows_from chk d (arms @ [arm]) (rows c') \<and>
     (snd (add_arm chk st arm) \<longrightarrow>
       (\<forall>v. in_dom chk d v \<longrightarrow> (\<exists>p. (p, False) \<in> set (arms @ [arm]) \<and> matches chk d p v)))"
proof -
  have mono: "rows_from chk d (arms @ [arm]) (rows c)" using assms(5) by (fastforce simp: rows_from_def)
  let ?new = "if snd arm then Some (rows c) else add_rows (rows c) (exh_lower chk (fst arm) d 0)"
  have new: "rows_from chk d (arms @ [arm]) rs" if "?new = Some rs" for rs
    using that mono add_rows_set[of "rows c" "exh_lower chk (fst arm) d 0" rs]
    by (cases arm) (auto simp: rows_from_def split: if_splits)
  show ?thesis
  proof (cases "overflow c \<or> ?new = None")
    case True
    then show ?thesis using assms(3-6) mono
      by (auto simp: add_arm_def exh_add_def split: option.splits if_splits)
  next
    case False
    then obtain rs where rs: "?new = Some rs" "\<not> overflow c" by blast
    have "\<forall>v. in_dom chk d v \<longrightarrow> (\<exists>p. (p, False) \<in> set (arms @ [arm]) \<and> matches chk d p v)"
      if "exh_witness_rec chk rs [d] 0 = None"
      using covered_sound[OF assms(1,2) new[OF rs(1)] that] by blast
    moreover have "\<forall>v. in_dom chk d v \<longrightarrow> (\<exists>p. (p, False) \<in> set (arms @ [arm]) \<and> matches chk d p v)" if "snd st"
      using assms(6)[OF that] by fastforce
    moreover have "add_arm chk st arm = (Some (c\<lparr>rows := rs\<rparr>), snd st \<or> exh_witness_rec chk rs [d] 0 = None)"
      using assms(3,4) rs by (cases arm) (auto simp: add_arm_def exh_add_def split: if_splits)
    ultimately show ?thesis using assms(4) new[OF rs(1)] by auto
  qed
qed

lemma check_arms_inv:
  assumes "checker_ok chk" "dom_ok d" "e = Some c" "x_dom c = d" "rows c = []"
  shows "\<exists>c'. fst (foldl (add_arm chk) (e, False) arms) = Some c' \<and> x_dom c' = d \<and> rows_from chk d arms (rows c') \<and>
     (snd (foldl (add_arm chk) (e, False) arms) \<longrightarrow>
       (\<forall>v. in_dom chk d v \<longrightarrow> (\<exists>p. (p, False) \<in> set arms \<and> matches chk d p v)))"
proof (induction arms rule: rev_induct)
  case Nil
  then show ?case using assms by (simp add: rows_from_def)
next
  case (snoc arm arms)
  then obtain c' where "fst (foldl (add_arm chk) (e, False) arms) = Some c'" "x_dom c' = d" "rows_from chk d arms (rows c')"
    "snd (foldl (add_arm chk) (e, False) arms) \<Longrightarrow> \<forall>v. in_dom chk d v \<longrightarrow> (\<exists>p. (p, False) \<in> set arms \<and> matches chk d p v)"
    by blast
  from add_arm_inv[OF assms(1,2) this, of arm] show ?case by simp
qed

subsection \<open>Witnesses are genuine\<close>

text \<open>A witness describes a value: a wildcard any of them, a rendered constructor the one it displays.\<close>

fun describes :: "checker \<Rightarrow> dom \<Rightarrow> wit \<Rightarrow> val \<Rightarrow> bool"
and describes_all :: "checker \<Rightarrow> ty list \<Rightarrow> wit list \<Rightarrow> val list \<Rightarrow> bool" where
  "describes chk d WWild v \<longleftrightarrow> True"
| "describes chk d (WCtor shown ws) v \<longleftrightarrow>
     (case v of
        VCon n vs \<Rightarrow> \<exists>(m, tys) \<in> set (ctors d). m = n \<and> ctor_display d n = shown \<and> describes_all chk tys ws vs
      | _ \<Rightarrow> False)"
| "describes chk d (WCarrier tag w) v \<longleftrightarrow>
     (case v of
        VCon n vs \<Rightarrow>
          \<exists>(m, tys) \<in> set (ctors d). m = n \<and> carrier_tag_of_variant n = Some tag \<and> describes_all chk tys [w] vs
      | _ \<Rightarrow> False)"
| "describes_all chk [] [] [] \<longleftrightarrow> True"
| "describes_all chk (t # ts) (w # ws) (v # vs) \<longleftrightarrow>
     describes chk (dom_of_ty chk t) w v \<and> describes_all chk ts ws vs"
| "describes_all chk _ _ _ \<longleftrightarrow> False"

fun wsize :: "wit \<Rightarrow> nat" where
  "wsize WWild = 1"
| "wsize (WCtor shown ws) = 1 + sum_list (map wsize ws)"
| "wsize (WCarrier tag w) = 1 + wsize w"

definition wsizes :: "wit list \<Rightarrow> nat" where
  "wsizes ws = sum_list (map wsize ws)"

definition inhabited :: "checker \<Rightarrow> bool" where
  "inhabited chk \<longleftrightarrow> (\<forall>t. \<exists>v. in_dom chk (dom_of_ty chk t) v)"

fun describes_cols :: "checker \<Rightarrow> dom list \<Rightarrow> wit list \<Rightarrow> val list \<Rightarrow> bool" where
  "describes_cols chk [] [] [] \<longleftrightarrow> True"
| "describes_cols chk (d # ds) (w # ws) (v # vs) \<longleftrightarrow> describes chk d w v \<and> describes_cols chk ds ws vs"
| "describes_cols chk _ _ _ \<longleftrightarrow> False"

lemma describes_all_cols: "describes_all chk ts ws vs \<longleftrightarrow> describes_cols chk (map (dom_of_ty chk) ts) ws vs"
  by (induction chk ts ws vs rule: describes_describes_all.induct(2)[where P = "\<lambda>_ _ _ _. True"]) auto

lemma describes_cols_append:
  "length vs1 = length ds1 \<Longrightarrow> describes_cols chk (ds1 @ ds2) ws (vs1 @ vs2) \<longleftrightarrow>
     describes_cols chk ds1 (take (length ds1) ws) vs1 \<and> describes_cols chk ds2 (drop (length ds1) ws) vs2"
proof (induction ds1 arbitrary: ws vs1)
  case (Cons d ds1)
  then show ?case by (cases vs1; cases ws) auto
qed simp

lemma describes_wilds: "length ws = length ds \<Longrightarrow> length vs = length ds \<Longrightarrow> set ws \<subseteq> {WWild} \<Longrightarrow> describes_cols chk ds ws vs"
proof (induction ds arbitrary: ws vs)
  case (Cons d ds)
  then show ?case by (cases ws; cases vs) auto
qed simp

lemma describes_wit_ctor:
  assumes "(n, tys) \<in> set (ctors d)" "describes_all chk tys ws vs"
  shows "describes chk d (wit_ctor d n ws) (VCon n vs)"
proof (cases "\<exists>pre ms w tag. d = Sum pre ms True \<and> ws = [w] \<and> carrier_tag_of_variant n = Some tag")
  case True
  then show ?thesis using assms by (force simp: wit_ctor_def)
next
  case False
  then have "wit_ctor d n ws = WCtor (ctor_display d n) ws"
    by (auto simp: wit_ctor_def split: dom.splits bool.splits list.splits option.splits)
  then show ?thesis using assms by auto
qed

lemma wsize_wit_ctor: "wsize (wit_ctor d n ws) = 1 + wsizes ws"
  by (auto simp: wit_ctor_def wsizes_def split: dom.splits bool.splits list.splits option.splits)

lemma wsizes_regroup: "wsizes (regroup d n k ws) = 1 + wsizes ws"
proof -
  have "wsizes (take k ws) + wsizes (drop k ws) = wsizes ws"
    by (metis append_take_drop_id map_append sum_list_append wsizes_def)
  then show ?thesis by (simp add: regroup_def wsize_wit_ctor wsizes_def)
qed

lemma wsize_pos: "0 < wsize w" by (cases w) auto

lemma inhabited_tys: "inhabited chk \<Longrightarrow> \<exists>vs. in_tys chk tys vs"
proof (induction tys)
  case Nil
  have "in_tys chk [] []" by simp
  then show ?case by blast
next
  case (Cons t tys)
  then obtain v vs where "in_dom chk (dom_of_ty chk t) v" "in_tys chk tys vs" unfolding inhabited_def by blast
  then have "in_tys chk (t # tys) (v # vs)" by simp
  then show ?case by blast
qed

lemma cols_inhabited:
  "\<forall>d \<in> set ds. \<exists>v. in_dom chk d v \<Longrightarrow> \<exists>vs. list_all2 (in_dom chk) ds vs"
  by (induction ds) (auto simp: list_all2_Cons1)

lemma specialize_row_complete:
  assumes "list_all2 pmatch r (VCon n args # vs)" "length args = k"
  shows "\<exists>r' \<in> set (specialize_row n k r). list_all2 pmatch r' (args @ vs)"
proof (cases rule: specialize_row.cases[of "(n, k, r)"])
  case (2 ctor arity rest)
  have "list_all2 pmatch (replicate k Wild) args" using assms(2) by (auto simp: list_all2_conv_all_nth)
  then show ?thesis using 2 assms(1) by (auto intro: list_all2_appendI)
next
  case (3 ctor arity m ps rest)
  then show ?thesis using assms(1) by (auto simp: pmatches_list_all2 intro: list_all2_appendI)
qed (use assms in auto)

lemma first_some_Some: "first_some f xs = Some y \<Longrightarrow> \<exists>x \<in> set xs. f x = Some y"
  by (induction xs) (auto split: option.splits)

lemma missing_head_genuine:
  assumes "inhabited chk" "\<exists>v. in_dom chk d v" "\<not> complete rs d" "dom_ok d"
    "\<forall>r \<in> set rs. list_all2 (wf_pat chk) (d # ds) r"
  shows "\<exists>v. in_dom chk d v \<and> describes chk d (missing_head rs d) v \<and>
     (\<forall>n ps r. Ctor n ps # r \<in> set rs \<longrightarrow> \<not> pmatch (Ctor n ps) v)"
proof (cases "find (\<lambda>(n, _). \<not> used rs n) (ctors d)")
  case None
  then have "ctors d = []" using assms(3) by (auto simp: complete_def find_None_iff list_all_iff)
  then have "Ctor n ps # r \<notin> set rs" for n ps r using assms(5) by fastforce
  then show ?thesis using None assms(2) by (auto simp: missing_head_def)
next
  case (Some m)
  obtain n tys where m: "m = (n, tys)" by (cases m)
  have mem: "(n, tys) \<in> set (ctors d)" "\<not> used rs n"
    using Some find_member[OF Some] by (auto simp: m find_Some_iff)
  obtain vs where vs: "in_tys chk tys vs" using inhabited_tys[OF assms(1)] by blast
  then have "length vs = length tys" by (auto simp: in_tys_list_all2 dest: list_all2_lengthD)
  then have "describes_all chk tys (replicate (length tys) WWild) vs"
    by (auto simp: describes_all_cols intro: describes_wilds)
  then have "describes chk d (missing_head rs d) (VCon n vs)"
    using describes_wit_ctor[OF mem(1)] Some by (simp add: missing_head_def m)
  moreover have "n' \<noteq> n" if "Ctor n' ps # r \<in> set rs" for n' ps r
    using mem(2) that by (force simp: used_def image_iff)
  ultimately show ?thesis using mem(1) vs by (intro exI[of _ "VCon n vs"]) auto
qed

text \<open>
  C17. The counterexample a rejected match is reported with is real: a witness the search answers with
  describes, column by column, values of the scrutinee's types that no row of the matrix matches, as
  long as the depth limit did not cut the search (the witness has at most as many nodes as levels are
  left) and every type has a value.
\<close>

theorem exh_witness_genuine:
  "exh_witness_rec chk rs doms depth = Some ws \<Longrightarrow> wsizes ws + depth \<le> MAX_DEPTH \<Longrightarrow>
    (\<forall>r \<in> set rs. list_all2 (wf_pat chk) doms r) \<Longrightarrow> (\<forall>d \<in> set doms. dom_ok d \<and> (\<exists>v. in_dom chk d v)) \<Longrightarrow>
    checker_ok chk \<Longrightarrow> inhabited chk \<Longrightarrow>
    \<exists>vs. list_all2 (in_dom chk) doms vs \<and> describes_cols chk doms ws vs \<and> (\<forall>r \<in> set rs. \<not> list_all2 pmatch r vs)"
proof (induction chk rs doms depth arbitrary: ws rule: exh_witness_rec.induct)
  case (1 chk rs doms depth)
  have depth: "depth \<le> MAX_DEPTH" using "1.prems"(2) by simp
  show ?case
  proof (cases "rs = []")
    case True
    then have ws: "ws = replicate (length doms) WWild"
      using "1.prems"(1) by (subst (asm) exh_witness_rec.simps) auto
    obtain vs where "list_all2 (in_dom chk) doms vs" using cols_inhabited "1.prems"(4) by blast
    moreover from this have "describes_cols chk doms ws vs"
      by (auto simp: ws intro!: describes_wilds dest: list_all2_lengthD)
    ultimately show ?thesis using True by auto
  next
    case False
    then have go: "\<not> (depth > MAX_DEPTH \<or> rs = [])" using depth by simp
    obtain d ds where doms: "doms = d # ds"
      using "1.prems"(1) go by (subst (asm) exh_witness_rec.simps) (auto split: list.splits)
    have d: "dom_ok d" "\<forall>r \<in> set rs. list_all2 (wf_pat chk) (d # ds) r" using "1.prems" doms by auto
    show ?thesis
    proof (cases "complete rs d")
      case True
      then obtain n tys w where w: "(n, tys) \<in> set (ctors d)"
        "exh_witness_rec chk (specialize rs n (length tys)) (map (dom_of_ty chk) tys @ ds) (depth + 1) = Some w"
        "ws = regroup d n (length tys) w"
        using "1.prems"(1) go doms
        by (subst (asm) exh_witness_rec.simps) (auto dest!: first_some_Some)
      let ?rs = "specialize rs n (length tys)" and ?ds = "map (dom_of_ty chk) tys @ ds"
      have "\<forall>r \<in> set ?rs. list_all2 (wf_pat chk) ?ds r"
        using specialize_row_wf [OF _ _ d(1) w(1) refl] d(2) by (auto simp: specialize_iff)
      moreover have "\<forall>d \<in> set ?ds. dom_ok d \<and> (\<exists>v. in_dom chk d v)"
        using "1.prems"(4-6) doms by (auto simp: inhabited_def intro: dom_ok_ty)
      moreover have "wsizes w + (depth + 1) \<le> MAX_DEPTH" using "1.prems"(2) by (simp add: w(3) wsizes_regroup)
      ultimately obtain vs where vs: "list_all2 (in_dom chk) ?ds vs" "describes_cols chk ?ds w vs"
        "\<forall>r \<in> set ?rs. \<not> list_all2 pmatch r vs"
        using "1.IH"(1)[OF go doms True w(1) refl w(2)] "1.prems"(5,6) by blast
      then obtain args vs' where split: "vs = args @ vs'" "list_all2 (in_dom chk) (map (dom_of_ty chk) tys) args"
        "list_all2 (in_dom chk) ds vs'" by (auto simp: list_all2_append1)
      have len: "length args = length tys" using split(2) by (auto dest: list_all2_lengthD)
      have des: "describes_all chk tys (take (length tys) w) args" "describes_cols chk ds (drop (length tys) w) vs'"
        using vs(2) describes_cols_append[of args "map (dom_of_ty chk) tys" chk ds w vs'] len
        by (auto simp: split(1) describes_all_cols)
      have "\<not> list_all2 pmatch r (VCon n args # vs')" if "r \<in> set rs" for r
        using specialize_row_complete[OF _ len] vs(3) that by (fastforce simp: specialize_iff split(1))
      moreover have "in_dom chk d (VCon n args)" using w(1) split(2) by (auto simp: in_tys_list_all2)
      ultimately show ?thesis
        using describes_wit_ctor[OF w(1) des(1)] des(2) split(3)
        by (intro exI[of _ "VCon n args # vs'"]) (auto simp: doms w(3) regroup_def)
    next
      case False
      then obtain w where w: "exh_witness_rec chk (default_matrix rs) ds (depth + 1) = Some w"
        "ws = missing_head rs d # w"
        using "1.prems"(1) go doms by (subst (asm) exh_witness_rec.simps) auto
      have "wsizes w + (depth + 1) \<le> MAX_DEPTH"
        using "1.prems"(2) wsize_pos[of "missing_head rs d"] by (simp add: w(2) wsizes_def)
      moreover have "\<forall>r \<in> set (default_matrix rs). list_all2 (wf_pat chk) ds r"
        using d(2) by (fastforce simp: default_iff)
      ultimately obtain vs where vs: "list_all2 (in_dom chk) ds vs" "describes_cols chk ds w vs"
        "\<forall>r \<in> set (default_matrix rs). \<not> list_all2 pmatch r vs"
        using "1.IH"(2)[OF go doms False w(1)] "1.prems"(4-6) doms by auto
      obtain v where v: "in_dom chk d v" "describes chk d (missing_head rs d) v"
        "\<forall>n ps r. Ctor n ps # r \<in> set rs \<longrightarrow> \<not> pmatch (Ctor n ps) v"
        using missing_head_genuine[OF "1.prems"(6) _ False d] "1.prems"(4) doms by auto
      have "\<not> list_all2 pmatch r (v # vs)" if "r \<in> set rs" for r
      proof (cases r)
        case (Cons p r')
        then show ?thesis using v(3) vs(3) that by (cases p) (auto simp: default_iff)
      qed simp
      then show ?thesis using v vs by (intro exI[of _ "v # vs"]) (auto simp: doms w(2))
    qed
  qed
qed

subsection \<open>What the check promises\<close>

text \<open>The tables of a program that declares no enum and no struct of its own.\<close>

definition builtin_checker :: checker where
  "builtin_checker =
     \<lparr>variants_of = (\<lambda>t. case t of
         T_Option a \<Rightarrow> Some [(''Some'', [a]), (''None'', [])]
       | T_Result a e \<Rightarrow> Some [(''Ok'', [a]), (''Err'', [e])]
       | _ \<Rightarrow> None),
      struct_fields_of = (\<lambda>_. None), imported_variants = (\<lambda>_. None),
      variant_owners = (\<lambda>n. n \<in> set [''Some'', ''None'', ''Ok'', ''Err'']),
      struct_ctor = (\<lambda>_ _ _ _. False)\<rparr>"

lemma builtin_checker_ok: "checker_ok builtin_checker"
  by (auto simp: checker_ok_def builtin_checker_def split: ty.splits)

lemma builtin_dom_option:
  "ctors (dom_of_ty builtin_checker (T_Option t)) = [(''None'', []), (''Some'', [t])]"
  by (simp add: dom_of_ty_def sum_dom_def builtin_checker_def Let_def sort_key_def)

lemma builtin_dom_result:
  "ctors (dom_of_ty builtin_checker (T_Result t e)) = [(''Err'', [e]), (''Ok'', [t])]"
  by (simp add: dom_of_ty_def sum_dom_def builtin_checker_def Let_def)

lemma builtin_inhabited: "inhabited builtin_checker"
  unfolding inhabited_def
proof
  fix t
  show "\<exists>v. in_dom builtin_checker (dom_of_ty builtin_checker t) v"
  proof (induction t)
    case (T_Tuple ts)
    then have "\<exists>vs. in_tys builtin_checker ts vs"
    proof (induction ts)
      case Nil
      have "in_tys builtin_checker [] []" by simp
      then show ?case by blast
    next
      case (Cons t ts)
      then obtain v vs where "in_dom builtin_checker (dom_of_ty builtin_checker t) v" "in_tys builtin_checker ts vs"
        by (meson list.set_intros)
      then have "in_tys builtin_checker (t # ts) (v # vs)" by simp
      then show ?case by blast
    qed
    then obtain vs where "in_dom builtin_checker (dom_of_ty builtin_checker (T_Tuple ts)) (VCon [] vs)"
      by (auto simp: dom_of_ty_def)
    then show ?case by blast
  next
    case (T_Option t)
    have "in_dom builtin_checker (dom_of_ty builtin_checker (T_Option t)) (VCon ''None'' [])"
      by (simp add: builtin_dom_option)
    then show ?case by blast
  next
    case (T_Result t e)
    then obtain v where "in_dom builtin_checker (dom_of_ty builtin_checker t) v" by blast
    then have "in_dom builtin_checker (dom_of_ty builtin_checker (T_Result t e)) (VCon ''Ok'' [v])"
      by (simp add: builtin_dom_result)
    then show ?case by blast
  next
    case T_Bool
    have "in_dom builtin_checker (dom_of_ty builtin_checker T_Bool) (VCon ''true'' [])"
      by (simp add: dom_of_ty_def)
    then show ?case by blast
  qed (simp_all add: dom_of_ty_def builtin_checker_def exI[of _ "VInt 0"])
qed


definition option_bool :: match_kind where
  "option_bool = MK_Variants ''Option'' [(''Some'', [T_Bool]), (''None'', [])]"

definition option_bool_arms :: "(pattern \<times> bool) list" where
  "option_bool_arms =
     [(P_Carrier Present (P_Literal (L_Bool True)), False), (P_Wildcard, True),
      (P_Or [P_Carrier Present (P_Literal (L_Bool False)), P_Variant ''None'' [] None None], False)]"

abbreviation option_bool_dom :: dom where
  "option_bool_dom \<equiv> Sum [] [(''None'', []), (''Some'', [T_Bool])] True"

lemma option_bool_lower:
  "exh_lower builtin_checker (P_Carrier Present (P_Literal (L_Bool True))) option_bool_dom 0 =
     [Ctor ''Some'' [Ctor ''true'' []]]"
  "exh_lower builtin_checker (P_Or [P_Carrier Present (P_Literal (L_Bool False)), P_Variant ''None'' [] None None])
     option_bool_dom 0 = [Ctor ''Some'' [Ctor ''false'' []], Ctor ''None'' []]"
  by code_simp+

lemma option_bool_search:
  "exh_witness_rec builtin_checker [[Ctor ''Some'' [Ctor ''true'' []]]] [option_bool_dom] 0 = Some [WCtor ''None'' []]"
  "exh_witness_rec builtin_checker
     [[Ctor ''Some'' [Ctor ''true'' []]], [Ctor ''Some'' [Ctor ''false'' []]], [Ctor ''None'' []]] [option_bool_dom] 0 = None"
  by code_simp+

lemma option_bool_new:
  "exh_new builtin_checker option_bool = Some \<lparr>rows = [], x_dom = option_bool_dom, overflow = False\<rparr>"
  by code_simp

lemma option_bool_closed: "snd (check_arms builtin_checker option_bool option_bool_arms)"
  by (simp add: check_arms_def option_bool_arms_def option_bool_new add_arm_def exh_add_def option_bool_lower
      option_bool_search MAX_ROWS_def)


theorem exh_witness_genuine_witness:
  "\<exists>vs. list_all2 (in_dom builtin_checker) [dom_of_ty builtin_checker (T_Option T_Bool)] vs \<and>
     describes_cols builtin_checker [dom_of_ty builtin_checker (T_Option T_Bool)]
       [WCarrier Present (WCtor ''false'' [])] vs \<and>
     list_all (\<lambda>r. \<not> list_all2 pmatch r vs) [[Ctor ''Some'' [Ctor ''true'' []]], [Ctor ''None'' []]]"
proof -
  let ?d = "dom_of_ty builtin_checker (T_Option T_Bool)"
  let ?rs = "[[Ctor ''Some'' [Ctor ''true'' []]], [Ctor ''None'' []]]"
  have "exh_witness_rec builtin_checker ?rs [?d] 0 = Some [WCarrier Present (WCtor ''false'' [])]" by code_simp
  moreover have "wsizes [WCarrier Present (WCtor ''false'' [])] + 0 \<le> MAX_DEPTH" by code_simp
  moreover have "\<forall>r \<in> set ?rs. list_all2 (wf_pat builtin_checker) [?d] r"
    by (simp add: builtin_dom_option) (simp add: dom_of_ty_def)
  moreover have "\<forall>d \<in> set [?d]. dom_ok d \<and> (\<exists>v. in_dom builtin_checker d v)"
    using dom_ok_ty[OF builtin_checker_ok] builtin_inhabited by (simp add: inhabited_def)
  ultimately show ?thesis
    unfolding list_all_iff by (rule exh_witness_genuine[OF _ _ _ _ builtin_checker_ok builtin_inhabited])
qed

end
