(* ===== verification/Suggest.thy ===== *)
theory Suggest
  imports Text
begin

text \<open>
  Near-miss suggestions for a misspelled name, \<^verbatim>\<open>src/src/checker/suggest.rs\<close>: a restricted
  Damerau-Levenshtein distance in a table, a score that refuses names of very different length, and
  the choice of a candidate. A name is a list of code points.
\<close>

subsection \<open>The distance\<close>

text \<open>One cell of the table, and the two loops that fill it.\<close>

definition dp_cell :: "nat list \<Rightarrow> nat list \<Rightarrow> nat list list \<Rightarrow> nat \<Rightarrow> nat \<Rightarrow> nat" where
  "dp_cell a b d i j =
     (let cost = (if a ! (i - 1) = b ! (j - 1) then 0 else 1);
          best = min (min (d ! (i - 1) ! j + 1) (d ! i ! (j - 1) + 1)) (d ! (i - 1) ! (j - 1) + cost)
      in if i > 1 \<and> j > 1 \<and> a ! (i - 1) = b ! (j - 2) \<and> a ! (i - 2) = b ! (j - 1)
         then min best (d ! (i - 2) ! (j - 2) + 1) else best)"

definition dp_step :: "nat list \<Rightarrow> nat list \<Rightarrow> nat \<Rightarrow> nat \<Rightarrow> nat list list \<Rightarrow> nat list list" where
  "dp_step a b i j d = d[i := (d ! i)[j := dp_cell a b d i j]]"

definition dp_row :: "nat list \<Rightarrow> nat list \<Rightarrow> nat \<Rightarrow> nat list list \<Rightarrow> nat list list" where
  "dp_row a b i d = fold (dp_step a b i) [1..<length b + 1] d"

definition dp_init :: "nat \<Rightarrow> nat \<Rightarrow> nat list list" where
  "dp_init n m = (map (\<lambda>i. (replicate (m + 1) 0)[0 := i]) [0..<n + 1])[0 := [0..<m + 1]]"

definition edit_distance :: "nat list \<Rightarrow> nat list \<Rightarrow> nat \<Rightarrow> nat option" where
  "edit_distance a b limit =
     (let n = length a; m = length b in
      if n - m > limit \<or> m - n > limit then None
      else let result = fold (dp_row a b) [1..<n + 1] (dp_init n m) ! n ! m
           in if result \<le> limit then Some result else None)"

definition score :: "nat list \<Rightarrow> nat list \<Rightarrow> nat \<Rightarrow> nat option" where
  "score lookup cand limit =
     (if length lookup * 2 < length cand \<or> length cand * 2 < length lookup then None
      else edit_distance lookup cand limit)"

subsection \<open>The choice\<close>

definition ascii_lower :: "nat \<Rightarrow> nat" where
  "ascii_lower c = (if 65 \<le> c \<and> c \<le> 90 then c + 32 else c)"

definition eq_ignore_ascii_case :: "nat list \<Rightarrow> nat list \<Rightarrow> bool" where
  "eq_ignore_ascii_case s t \<longleftrightarrow> map ascii_lower s = map ascii_lower t"

text \<open>The loop over the candidates: the limit shrinks to just below the best score so far.\<close>

fun best_candidate :: "nat list \<Rightarrow> nat list list \<Rightarrow> nat \<Rightarrow> (nat \<times> nat list) option \<Rightarrow> (nat \<times> nat list) option" where
  "best_candidate lookup [] limit best = best"
| "best_candidate lookup (cand # cands) limit best =
     (case score lookup cand limit of
        Some s \<Rightarrow>
          if (case best of None \<Rightarrow> True | Some (bs, _) \<Rightarrow> s < bs)
          then (if s = 0 then Some (s, cand) else best_candidate lookup cands (s - 1) (Some (s, cand)))
          else best_candidate lookup cands limit best
      | None \<Rightarrow> best_candidate lookup cands limit best)"

definition suggestion :: "nat list \<Rightarrow> nat list" where
  "suggestion c = codes ''did you mean '' @ [39] @ c @ [39] @ codes ''?''"

definition did_you_mean :: "nat list \<Rightarrow> nat list list \<Rightarrow> nat list option" where
  "did_you_mean lookup candidates =
     (case find (\<lambda>c. eq_ignore_ascii_case c lookup) candidates of
        Some c \<Rightarrow> Some (suggestion c)
      | None \<Rightarrow> map_option (\<lambda>(_, c). suggestion c)
                  (best_candidate lookup candidates (max (length lookup) 3 div 3) None))"

subsection \<open>Edits\<close>

text \<open>
  The specification: \<open>edits a b k\<close> when \<open>a\<close> becomes \<open>b\<close> by \<open>k\<close> insertions, deletions, substitutions and
  swaps of neighbours, none of which touches a place twice.
\<close>

inductive edits :: "'a list \<Rightarrow> 'a list \<Rightarrow> nat \<Rightarrow> bool" where
  e_done: "edits [] [] 0"
| e_del: "edits a b k \<Longrightarrow> edits (a @ [x]) b (k + 1)"
| e_ins: "edits a b k \<Longrightarrow> edits a (b @ [y]) (k + 1)"
| e_keep: "edits a b k \<Longrightarrow> edits (a @ [x]) (b @ [x]) k"
| e_subst: "edits a b k \<Longrightarrow> edits (a @ [x]) (b @ [y]) (k + 1)"
| e_swap: "edits a b k \<Longrightarrow> edits (a @ [x, y]) (b @ [y, x]) (k + 1)"

text \<open>The recursion behind the table: the distance of the first \<open>i\<close> and the first \<open>j\<close> places.\<close>

fun osa :: "nat list \<Rightarrow> nat list \<Rightarrow> nat \<Rightarrow> nat \<Rightarrow> nat" where
  "osa a b 0 j = j"
| "osa a b (Suc i) 0 = Suc i"
| "osa a b (Suc i) (Suc j) =
     (let best = min (min (osa a b i (Suc j) + 1) (osa a b (Suc i) j + 1))
                     (osa a b i j + (if a ! i = b ! j then 0 else 1))
      in if 0 < i \<and> 0 < j \<and> a ! i = b ! (j - 1) \<and> a ! (i - 1) = b ! j
         then min best (osa a b (i - 1) (j - 1) + 1) else best)"

lemma osa_0 [simp]: "osa a b i 0 = i"
  by (cases i) auto

subsection \<open>The table holds the recursion\<close>

definition shape :: "nat \<Rightarrow> nat \<Rightarrow> nat list list \<Rightarrow> bool" where
  "shape n m d \<longleftrightarrow> length d = n + 1 \<and> (\<forall>row \<in> set d. length row = m + 1)"

lemma shape_update:
  assumes "shape n m d" "i \<le> n"
  shows "shape n m (d[i := (d ! i)[j := v]])"
  using assms set_update_subset_insert[of d i "(d ! i)[j := v]"] nth_mem[of i d] by (auto simp: shape_def)

lemma cell_update:
  assumes "shape n m d" "i \<le> n" "j \<le> m"
  shows "d[i := (d ! i)[j := v]] ! r ! c = (if r = i \<and> c = j then v else d ! r ! c)"
  using assms nth_mem[of i d] by (cases "r = i") (auto simp: shape_def nth_list_update)

definition filled :: "nat list \<Rightarrow> nat list \<Rightarrow> nat \<Rightarrow> nat \<Rightarrow> nat list list \<Rightarrow> bool" where
  "filled a b i j d \<longleftrightarrow>
     shape (length a) (length b) d \<and>
     (\<forall>r \<le> length a. \<forall>c \<le> length b. r < i \<or> r = i \<and> c < j \<or> c = 0 \<longrightarrow> d ! r ! c = osa a b r c)"

lemma filled_cell:
  "filled a b i j d \<Longrightarrow> r \<le> length a \<Longrightarrow> c \<le> length b \<Longrightarrow> r < i \<or> r = i \<and> c < j \<or> c = 0 \<Longrightarrow> d ! r ! c = osa a b r c"
  unfolding filled_def by blast

lemma filled_next_row: "filled a b i (Suc (length b)) d \<Longrightarrow> filled a b (Suc i) 1 d"
  by (simp add: filled_def) (metis le_imp_less_Suc less_SucE)

lemma dp_init_filled: "filled a b 1 1 (dp_init (length a) (length b))"
proof -
  let ?n = "length a" and ?m = "length b"
  have row: "dp_init ?n ?m ! r = (if r = 0 then [0..<?m + 1] else (replicate (?m + 1) 0)[0 := r])" if "r \<le> ?n" for r
    using that by (simp add: dp_init_def nth_list_update del: upt_Suc)
  have "dp_init ?n ?m ! r ! c = osa a b r c" if "r \<le> ?n" "c \<le> ?m" "r = 0 \<or> c = 0" for r c
    using that by (auto simp: row simp del: upt_Suc)
  moreover have "shape ?n ?m (dp_init ?n ?m)"
    using set_update_subset_insert[of "map (\<lambda>i. (replicate (?m + 1) 0)[0 := i]) [0..<?n + 1]" 0 "[0..<?m + 1]"]
    by (auto simp: shape_def dp_init_def simp del: upt_Suc)
  ultimately show ?thesis by (auto simp: filled_def)
qed

lemma dp_cell_osa:
  assumes "filled a b i j d" "1 \<le> i" "i \<le> length a" "1 \<le> j" "j \<le> length b"
  shows "dp_cell a b d i j = osa a b i j"
proof -
  obtain i' j' where ij: "i = Suc i'" "j = Suc j'" using assms(2,4) by (cases i; cases j) auto
  have d: "d ! r ! c = osa a b r c" if "r < i \<or> r = i \<and> c < j" "r \<le> length a" "c \<le> length b" for r c
    using filled_cell[OF assms(1)] that by blast
  have "d ! i' ! j = osa a b i' j" "d ! i ! j' = osa a b i j'" "d ! i' ! j' = osa a b i' j'"
    "0 < i' \<and> 0 < j' \<Longrightarrow> d ! (i' - 1) ! (j' - 1) = osa a b (i' - 1) (j' - 1)"
    using assms(3,5) ij by (auto intro!: d)
  then show ?thesis by (auto simp: dp_cell_def ij Let_def numeral_2_eq_2)
qed

lemma dp_step_filled:
  assumes "filled a b i j d" "1 \<le> i" "i \<le> length a" "1 \<le> j" "j \<le> length b"
  shows "filled a b i (Suc j) (dp_step a b i j d)"
proof -
  have sh: "shape (length a) (length b) d" using assms(1) by (simp add: filled_def)
  have "dp_step a b i j d ! r ! c = osa a b r c"
    if "r \<le> length a" "c \<le> length b" "r < i \<or> r = i \<and> c < Suc j \<or> c = 0" for r c
    unfolding dp_step_def cell_update[OF sh assms(3,5)] dp_cell_osa[OF assms]
    using filled_cell[OF assms(1) that(1,2)] that(3) assms(4) by (auto simp: less_Suc_eq)
  then show ?thesis using shape_update[OF sh assms(3)] by (simp add: filled_def dp_step_def)
qed

lemma dp_row_filled:
  assumes "filled a b i 1 d" "1 \<le> i" "i \<le> length a"
  shows "filled a b (Suc i) 1 (dp_row a b i d)"
proof -
  have "filled a b i (Suc j) (fold (dp_step a b i) [1..<Suc j] d)" if "j \<le> length b" for j
    using that
  proof (induction j)
    case (Suc j)
    then show ?case using dp_step_filled[OF Suc.IH] assms(2,3) by simp
  qed (use assms in simp)
  from filled_next_row[OF this[of "length b"]] show ?thesis by (simp add: dp_row_def)
qed

lemma dp_table: "fold (dp_row a b) [1..<length a + 1] (dp_init (length a) (length b)) ! length a ! length b = osa a b (length a) (length b)"
proof -
  have "filled a b (Suc i) 1 (fold (dp_row a b) [1..<Suc i] (dp_init (length a) (length b)))" if "i \<le> length a" for i
    using that
  proof (induction i)
    case (Suc i)
    then show ?case using dp_row_filled[OF Suc.IH] by simp
  qed (use dp_init_filled in simp)
  from filled_cell[OF this[of "length a"]] show ?thesis by simp
qed

subsection \<open>The recursion is the cheapest edit\<close>

lemma edits_all_del: "edits a [] (length a)"
proof (induction a rule: rev_induct)
  case (snoc x a)
  then show ?case using edits.e_del[OF snoc, of x] by simp
qed (simp add: edits.e_done)

lemma edits_all_ins: "edits [] b (length b)"
proof (induction b rule: rev_induct)
  case (snoc y b)
  then show ?case using edits.e_ins[OF snoc, of y] by simp
qed (simp add: edits.e_done)

lemma edits_length: "edits a b k \<Longrightarrow> length a - length b \<le> k \<and> length b - length a \<le> k"
  by (induction rule: edits.induct) auto

lemma osa_achieved: "i \<le> length a \<Longrightarrow> j \<le> length b \<Longrightarrow> edits (take i a) (take j b) (osa a b i j)"
proof (induction a b i j rule: osa.induct)
  case (1 a b j)
  then show ?case using edits_all_ins[of "take j b"] by simp
next
  case (2 a b i)
  then show ?case using edits_all_del[of "take (Suc i) a"] by simp
next
  case (3 a b i j)
  let ?a = "take i a" and ?b = "take j b"
  have t: "take (Suc i) a = ?a @ [a ! i]" "take (Suc j) b = ?b @ [b ! j]"
    using "3.prems" by (simp_all add: take_Suc_conv_app_nth)
  have o: "edits (take (Suc i) a) (take (Suc j) b) (osa a b i (Suc j) + 1)"
    "edits (take (Suc i) a) (take (Suc j) b) (osa a b (Suc i) j + 1)"
    "edits (take (Suc i) a) (take (Suc j) b) (osa a b i j + (if a ! i = b ! j then 0 else 1))"
    using 3 edits.e_del[of ?a "take (Suc j) b" _ "a ! i"] edits.e_ins[of "take (Suc i) a" ?b _ "b ! j"]
      edits.e_keep[of ?a ?b _ "a ! i"] edits.e_subst[of ?a ?b _ "a ! i" "b ! j"] by (auto simp: t)
  have s: "edits (take (Suc i) a) (take (Suc j) b) (osa a b (i - 1) (j - 1) + 1)"
    if sw: "0 < i \<and> 0 < j \<and> a ! i = b ! (j - 1) \<and> a ! (i - 1) = b ! j"
  proof -
    obtain i' j' where ij: "i = Suc i'" "j = Suc j'" using sw by (cases i; cases j) auto
    have "take (Suc i) a = take i' a @ [a ! i', a ! i]" "take (Suc j) b = take j' b @ [b ! j', b ! j]"
      using "3.prems" ij by (simp_all add: take_Suc_conv_app_nth)
    moreover have "edits (take i' a) (take j' b) (osa a b i' j')" using "3.IH"(4)[OF refl sw] "3.prems" ij by simp
    ultimately show ?thesis using edits.e_swap[of "take i' a" "take j' b" _ "a ! i'" "a ! i"] sw ij by simp
  qed
  show ?case using o s by (auto simp: Let_def min_def)
qed

lemma osa_le_next:
  "osa a b (Suc i) j \<le> osa a b i j + 1" "osa a b i (Suc j) \<le> osa a b i j + 1"
  by (cases j, simp, auto simp: Let_def min_def) (cases i, simp, auto simp: Let_def min_def)

lemma osa_le_diag: "osa a b (Suc i) (Suc j) \<le> osa a b i j + (if a ! i = b ! j then 0 else 1)"
  by (auto simp: Let_def min_def)

lemma osa_le_swap:
  "a ! Suc i = b ! j \<Longrightarrow> a ! i = b ! Suc j \<Longrightarrow> osa a b (Suc (Suc i)) (Suc (Suc j)) \<le> osa a b i j + 1"
  by (subst osa.simps(3)) (auto simp: Let_def min_def simp del: osa.simps)

lemma osa_least:
  "edits x y k \<Longrightarrow> a = x @ r \<Longrightarrow> b = y @ s \<Longrightarrow> osa a b (length x) (length y) \<le> k"
proof (induction arbitrary: r s rule: edits.induct)
  case (e_del x y k c)
  have "osa a b (length x) (length y) \<le> k" by (rule e_del.IH[of "c # r" s]) (use e_del.prems in simp_all)
  then show ?case using osa_le_next(1)[of a b "length x" "length y"] by (simp del: osa.simps)
next
  case (e_ins x y k c)
  have "osa a b (length x) (length y) \<le> k" by (rule e_ins.IH[of r "c # s"]) (use e_ins.prems in simp_all)
  then show ?case using osa_le_next(2)[of a b "length x" "length y"] by (simp del: osa.simps)
next
  case (e_keep x y k c)
  have "osa a b (length x) (length y) \<le> k" by (rule e_keep.IH[of "c # r" "c # s"]) (use e_keep.prems in simp_all)
  moreover have "a ! length x = b ! length y" using e_keep.prems by simp
  ultimately show ?case using osa_le_diag[of a b "length x" "length y"] by (simp del: osa.simps)
next
  case (e_subst x y k c d)
  have "osa a b (length x) (length y) \<le> k" by (rule e_subst.IH[of "c # r" "d # s"]) (use e_subst.prems in simp_all)
  then show ?case using osa_le_diag[of a b "length x" "length y"] by (simp del: osa.simps split: if_splits)
next
  case (e_swap x y k c d)
  have "osa a b (length x) (length y) \<le> k" by (rule e_swap.IH[of "c # d # r" "d # c # s"]) (use e_swap.prems in simp_all)
  moreover have "a ! Suc (length x) = b ! length y" "a ! length x = b ! Suc (length y)"
    using e_swap.prems by (simp_all add: nth_append)
  ultimately show ?case using osa_le_swap[of a "length x" b "length y"] by (simp del: osa.simps)
qed simp

text \<open>The distance is the least cost of an edit.\<close>

lemma osa_cost: "edits a b (osa a b (length a) (length b))"
  using osa_achieved[of "length a" a "length b" b] by simp

lemma osa_min: "edits a b k \<Longrightarrow> osa a b (length a) (length b) \<le> k"
  using osa_least[of a b k a "[]" b "[]"] by simp

lemma edit_distance_osa:
  "edit_distance a b limit = (if osa a b (length a) (length b) \<le> limit then Some (osa a b (length a) (length b)) else None)"
  unfolding edit_distance_def Let_def dp_table using edits_length[OF osa_cost[of a b]] by auto

subsection \<open>The best candidate\<close>

lemma osa_LEAST: "(LEAST k. edits a b k) = osa a b (length a) (length b)"
  by (rule Least_equality) (simp_all add: osa_cost osa_min)

text \<open>The score without a limit, and being nearer than a bound.\<close>

definition full_score :: "nat list \<Rightarrow> nat list \<Rightarrow> nat option" where
  "full_score lookup cand =
     (if length lookup * 2 < length cand \<or> length cand * 2 < length lookup then None
      else Some (LEAST k. edits lookup cand k))"

definition nearer :: "nat list \<Rightarrow> nat \<Rightarrow> nat list \<Rightarrow> bool" where
  "nearer lookup k cand \<longleftrightarrow> (case full_score lookup cand of None \<Rightarrow> False | Some s \<Rightarrow> s < k)"

lemma score_full:
  "score lookup cand limit = (if nearer lookup (limit + 1) cand then full_score lookup cand else None)"
  by (simp add: score_def full_score_def nearer_def edit_distance_osa osa_LEAST less_Suc_eq_le)

lemma nearer_mono: "nearer lookup k c \<Longrightarrow> k \<le> l \<Longrightarrow> nearer lookup l c"
  by (auto simp: nearer_def split: option.splits)

definition first_best :: "nat list \<Rightarrow> nat \<Rightarrow> nat list list \<Rightarrow> nat \<Rightarrow> nat list \<Rightarrow> bool" where
  "first_best lookup limit cands s c \<longleftrightarrow>
     full_score lookup c = Some s \<and> s \<le> limit \<and>
     (\<exists>xs ys. cands = xs @ c # ys \<and> (\<forall>x \<in> set xs. \<not> nearer lookup (s + 1) x) \<and> (\<forall>y \<in> set ys. \<not> nearer lookup s y))"

lemma first_best_here:
  "full_score lookup c = Some s \<Longrightarrow> s \<le> limit \<Longrightarrow> \<forall>y \<in> set cands. \<not> nearer lookup s y \<Longrightarrow> first_best lookup limit (c # cands) s c"
  unfolding first_best_def by (metis append_Nil empty_iff empty_set)

lemma first_best_later:
  "first_best lookup k cands s c \<Longrightarrow> \<not> nearer lookup (k + 1) x \<Longrightarrow> k \<le> limit \<Longrightarrow> first_best lookup limit (x # cands) s c"
proof -
  assume f: "first_best lookup k cands s c" and x: "\<not> nearer lookup (k + 1) x" and k: "k \<le> limit"
  then obtain xs ys where c: "cands = xs @ c # ys" "\<forall>x \<in> set xs. \<not> nearer lookup (s + 1) x" "\<forall>y \<in> set ys. \<not> nearer lookup s y"
    and s: "full_score lookup c = Some s" "s \<le> k" by (auto simp: first_best_def)
  have "\<not> nearer lookup (s + 1) x" using x s(2) nearer_mono[of lookup "s + 1" x "k + 1"] by auto
  then have "x # cands = (x # xs) @ c # ys \<and> (\<forall>x \<in> set (x # xs). \<not> nearer lookup (s + 1) x) \<and> (\<forall>y \<in> set ys. \<not> nearer lookup s y)"
    using c by simp
  then show ?thesis unfolding first_best_def using s k by (metis le_trans)
qed

lemma best_candidate_spec:
  assumes "case best of None \<Rightarrow> True | Some (bs, bc) \<Rightarrow> bs = limit + 1"
  shows "if \<exists>c \<in> set cands. nearer lookup (limit + 1) c
    then (\<exists>s c. best_candidate lookup cands limit best = Some (s, c) \<and> first_best lookup limit cands s c)
    else best_candidate lookup cands limit best = best"
  using assms
proof (induction cands arbitrary: limit best)
  case (Cons cand cands)
  show ?case
  proof (cases "nearer lookup (limit + 1) cand")
    case False
    then show ?thesis using Cons.IH[OF Cons.prems] first_best_later[of lookup limit cands _ _ cand limit]
      by (auto simp: score_full split: if_splits)
  next
    case True
    then obtain s where s: "full_score lookup cand = Some s" "s \<le> limit" "score lookup cand limit = Some s"
      by (auto simp: nearer_def score_full split: option.splits)
    have best: "case best of None \<Rightarrow> True | Some (bs, _) \<Rightarrow> s < bs" using Cons.prems s(2) by (auto split: option.splits)
    show ?thesis
    proof (cases "s = 0")
      case True
      have "first_best lookup limit (cand # cands) 0 cand"
        by (rule first_best_here) (use s True in \<open>auto simp: nearer_def split: option.splits\<close>)
      then show ?thesis using True s best \<open>nearer lookup (limit + 1) cand\<close> by auto
    next
      case False
      then have k: "s - 1 + 1 = s" by simp
      have run: "best_candidate lookup (cand # cands) limit best = best_candidate lookup cands (s - 1) (Some (s, cand))"
        using s(3) best False by simp
      have "\<not> nearer lookup (s - 1 + 1) cand" unfolding k using s(1) by (simp add: nearer_def)
      then show ?thesis
        using Cons.IH[of "s - 1" "Some (s, cand)"] first_best_here[OF s(1,2)] first_best_later[of lookup "s - 1" cands _ _ cand limit]
          s(2) \<open>nearer lookup (limit + 1) cand\<close> unfolding run k by (auto split: if_splits)
    qed
  qed
qed simp

subsection \<open>Correctness\<close>



end
