(* ===== verification/FormatSpec.thy ===== *)
theory FormatSpec
  imports Text
begin

text \<open>
  The format mini-language of string interpolation, \<^verbatim>\<open>src/src/fmtspec.rs\<close>: parsing a spec and rendering
  a value under it. Text is a list of code points. The arithmetic of \<^verbatim>\<open>f64\<close> and the standard
  library's float formats are the fields of the record \<open>float_fmt\<close>, a parameter of the rendering;
  integers and strings are rendered in full. A message is the text of an \<^verbatim>\<open>Err\<close>, a panic of the
  standard library's \<^verbatim>\<open>expect\<close> is \<open>Panic\<close>.
\<close>

type_synonym code_text = "nat list"

definition code :: "char \<Rightarrow> nat" where
  "code c = of_char c"

datatype fmt_error = Message code_text | Panic

definition message :: "string \<Rightarrow> fmt_error" where
  "message s = Message (codes s)"

subsection \<open>The spec and its parser\<close>

definition MAX_FIELD :: nat where "MAX_FIELD = 4096"

datatype align = ALeft | ARight | ACenter | APad

record format_spec =
  fs_fill :: nat
  fs_align :: "align option"
  fs_sign :: "nat option"
  fs_zero_coerce :: bool
  fs_alt :: bool
  fs_zero_pad :: bool
  fs_width :: nat
  fs_dyn_width :: bool
  fs_dyn_precision :: bool
  fs_group :: "nat option"
  fs_precision :: "nat option"
  fs_ty :: "nat option"

definition spec_default :: format_spec where
  "spec_default =
     \<lparr>fs_fill = code (CHR '' ''), fs_align = None, fs_sign = None, fs_zero_coerce = False, fs_alt = False,
      fs_zero_pad = False, fs_width = 0, fs_dyn_width = False, fs_dyn_precision = False, fs_group = None,
      fs_precision = None, fs_ty = None\<rparr>"

datatype spec_item = Ch nat | Field

definition NESTED_SLOTS :: fmt_error where
  "NESTED_SLOTS = message ''format spec: a nested field is allowed only as the width or the precision''"

definition is_align :: "nat \<Rightarrow> bool" where
  "is_align c \<longleftrightarrow> c \<in> set (codes ''<>^='')"

definition to_align :: "nat \<Rightarrow> align" where
  "to_align c =
     (if c = code (CHR ''<'') then ALeft else if c = code (CHR ''>'') then ARight
      else if c = code (CHR ''^'') then ACenter else APad)"

definition type_chars :: "nat list" where
  "type_chars = codes ''dfFxXboeE%gG''"

definition is_type :: "nat \<Rightarrow> bool" where
  "is_type c \<longleftrightarrow> c \<in> set type_chars"

definition is_ascii_digit :: "nat \<Rightarrow> bool" where
  "is_ascii_digit c \<longleftrightarrow> 48 \<le> c \<and> c \<le> 57"

definition sat_usize :: "nat \<Rightarrow> nat" where
  "sat_usize n = min n (2 ^ 64 - 1)"

definition exceeds :: "string \<Rightarrow> fmt_error" where
  "exceeds what = Message (codes ''format spec: '' @ codes what @ codes '' exceeds maximum 4096'')"

definition bump :: "nat \<Rightarrow> nat \<Rightarrow> string \<Rightarrow> (nat, fmt_error) result" where
  "bump acc c what =
     (let nxt = sat_usize (sat_usize (acc * 10) + (c - 48))
      in if nxt > MAX_FIELD then Err (exceeds what) else Ok nxt)"

definition ch :: "spec_item list \<Rightarrow> nat \<Rightarrow> nat option" where
  "ch items i = (if i < length items then (case items ! i of Ch c \<Rightarrow> Some c | Field \<Rightarrow> None) else None)"

definition is_field :: "spec_item list \<Rightarrow> nat \<Rightarrow> bool" where
  "is_field items i \<longleftrightarrow> i < length items \<and> items ! i = Field"

definition parse_fill_align :: "spec_item list \<Rightarrow> format_spec \<times> nat \<times> bool" where
  "parse_fill_align items =
     (let plain = (case ch items 0 of
          Some a \<Rightarrow> if is_align a then (spec_default\<lparr>fs_align := Some (to_align a)\<rparr>, 1, False) else (spec_default, 0, False)
        | None \<Rightarrow> (spec_default, 0, False))
      in case (ch items 0, ch items 1) of
           (Some fill, Some a) \<Rightarrow>
             if is_align a then (spec_default\<lparr>fs_fill := fill, fs_align := Some (to_align a)\<rparr>, 2, True) else plain
         | _ \<Rightarrow> plain)"

definition parse_sign :: "spec_item list \<Rightarrow> format_spec \<times> nat \<Rightarrow> format_spec \<times> nat" where
  "parse_sign items st =
     (case ch items (snd st) of
        Some c \<Rightarrow> if c \<in> set (codes ''+- '') then ((fst st)\<lparr>fs_sign := Some c\<rparr>, snd st + 1) else st
      | None \<Rightarrow> st)"

definition parse_z :: "spec_item list \<Rightarrow> format_spec \<times> nat \<Rightarrow> format_spec \<times> nat" where
  "parse_z items st =
     (if ch items (snd st) = Some (code (CHR ''z'')) then ((fst st)\<lparr>fs_zero_coerce := True\<rparr>, snd st + 1) else st)"

definition parse_alt :: "spec_item list \<Rightarrow> format_spec \<times> nat \<Rightarrow> format_spec \<times> nat" where
  "parse_alt items st =
     (if ch items (snd st) = Some (code (CHR ''#'')) then ((fst st)\<lparr>fs_alt := True\<rparr>, snd st + 1) else st)"

definition parse_zero :: "spec_item list \<Rightarrow> bool \<Rightarrow> format_spec \<times> nat \<Rightarrow> format_spec \<times> nat" where
  "parse_zero items fill_explicit st =
     (if ch items (snd st) = Some (code (CHR ''0''))
      then ((fst st)\<lparr>fs_zero_pad := True,
             fs_fill := (if fill_explicit then fs_fill (fst st) else code (CHR ''0''))\<rparr>, snd st + 1)
      else st)"

lemma bind_result_cong [fundef_cong]:
  "r = r' \<Longrightarrow> (\<And>x. r' = Inr x \<Longrightarrow> f x = g x) \<Longrightarrow> bind_result r f = bind_result r' g"
  by (cases r') auto

text \<open>The digit loop of the width and of the precision: whether a digit was seen, the value, the position.\<close>

function scan_digits ::
  "spec_item list \<Rightarrow> string \<Rightarrow> nat \<Rightarrow> nat \<Rightarrow> bool \<Rightarrow> (bool \<times> nat \<times> nat, fmt_error) result" where
  "scan_digits items what i acc saw =
     (case ch items i of
        Some c \<Rightarrow>
          if is_ascii_digit c
          then bind_result (bump acc c what) (\<lambda>acc'. scan_digits items what (i + 1) acc' True)
          else Ok (saw, acc, i)
      | None \<Rightarrow> Ok (saw, acc, i))"
  by pat_completeness auto
termination
  by (relation "measure (\<lambda>(items, what, i, acc, saw). length items - i)") (auto simp: ch_def split: if_splits)

declare scan_digits.simps [simp del]

definition parse_width ::
  "spec_item list \<Rightarrow> format_spec \<times> nat \<Rightarrow> (format_spec \<times> nat \<times> nat option, fmt_error) result" where
  "parse_width items st =
     (if is_field items (snd st)
      then Ok ((fst st)\<lparr>fs_dyn_width := True\<rparr>, snd st + 1, Some (snd st + 1))
      else bind_result (scan_digits items ''width'' (snd st) 0 False) (\<lambda>(saw, w, i).
        Ok (if saw then (fst st)\<lparr>fs_width := w\<rparr> else fst st, i, None)))"

definition parse_group :: "spec_item list \<Rightarrow> format_spec \<times> nat \<Rightarrow> format_spec \<times> nat" where
  "parse_group items st =
     (case ch items (snd st) of
        Some c \<Rightarrow> if c \<in> set (codes '',_'') then ((fst st)\<lparr>fs_group := Some c\<rparr>, snd st + 1) else st
      | None \<Rightarrow> st)"

definition parse_precision ::
  "spec_item list \<Rightarrow> format_spec \<times> nat \<times> nat option \<Rightarrow> (format_spec \<times> nat \<times> nat option, fmt_error) result" where
  "parse_precision items st =
     (let (sp, i, field_end) = st in
      if ch items i = Some (code (CHR ''.'')) then
        (if is_field items (i + 1)
         then Ok (sp\<lparr>fs_dyn_precision := True, fs_precision := Some 0\<rparr>, i + 2, Some (i + 2))
         else bind_result (scan_digits items ''precision'' (i + 1) 0 False) (\<lambda>(saw, p, j).
           if saw then Ok (sp\<lparr>fs_precision := Some p\<rparr>, j, field_end)
           else Err (message ''format spec: '.' must be followed by a precision'')))
      else Ok (sp, i, field_end))"

definition parse_type ::
  "spec_item list \<Rightarrow> format_spec \<times> nat \<times> nat option \<Rightarrow> (format_spec \<times> nat, fmt_error) result" where
  "parse_type items st =
     (let (sp, i, field_end) = st in
      if i < length items then
        (case ch items i of
           Some t \<Rightarrow>
             if is_type t then Ok (sp\<lparr>fs_ty := Some t\<rparr>, i + 1)
             else if field_end = Some i \<and> is_align t then Err NESTED_SLOTS
             else Err (Message (codes ''format spec: unknown type char '' @ [39, t, 39]))
         | None \<Rightarrow> Err NESTED_SLOTS)
      else Ok (sp, i))"

definition item_text :: "spec_item \<Rightarrow> code_text" where
  "item_text item = (case item of Ch c \<Rightarrow> [c] | Field \<Rightarrow> codes ''{}'')"

definition parse_end :: "spec_item list \<Rightarrow> format_spec \<times> nat \<Rightarrow> (format_spec, fmt_error) result" where
  "parse_end items st =
     (if snd st \<noteq> length items then
        (if Field \<in> set (drop (snd st) items) then Err NESTED_SLOTS
         else Err (Message (codes ''format spec: trailing characters in '' @ [39] @ concat (map item_text items) @ [39])))
      else Ok (fst st))"

definition parse_nested :: "spec_item list \<Rightarrow> (format_spec, fmt_error) result" where
  "parse_nested items =
     (let (s0, i0, fill_explicit) = parse_fill_align items;
          st = parse_zero items fill_explicit (parse_alt items (parse_z items (parse_sign items (s0, i0))))
      in bind_result (parse_width items st) (\<lambda>(s1, i1, fe).
         let (s2, i2) = parse_group items (s1, i1)
         in bind_result (parse_precision items (s2, i2, fe)) (\<lambda>st3.
            bind_result (parse_type items st3) (parse_end items))))"

definition parse_spec :: "code_text \<Rightarrow> (format_spec, fmt_error) result" where
  "parse_spec spec = parse_nested (map Ch spec)"

subsection \<open>Numbers as text\<close>

definition digit_char :: "bool \<Rightarrow> nat \<Rightarrow> nat" where
  "digit_char upper d = (if d < 10 then 48 + d else if upper then 55 + d else 87 + d)"

fun radix_text :: "nat \<Rightarrow> bool \<Rightarrow> nat \<Rightarrow> code_text" where
  "radix_text base upper n =
     (if base < 2 \<or> n < base then [digit_char upper n]
      else radix_text base upper (n div base) @ [digit_char upper (n mod base)])"

declare radix_text.simps [simp del]

definition int_text :: "int \<Rightarrow> code_text" where
  "int_text n = (if n < 0 then [45] else []) @ radix_text 10 False (nat \<bar>n\<bar>)"

definition field_from_int :: "int option \<Rightarrow> string \<Rightarrow> (nat, fmt_error) result" where
  "field_from_int v what =
     (case v of
        None \<Rightarrow> Err (Message (codes ''format spec: a nested '' @ codes what @ codes '' field must be an int''))
      | Some n \<Rightarrow>
          if n < 0 then Err (Message (codes ''format spec: '' @ codes what @ codes '' must not be negative, got '' @ int_text n))
          else if n > int MAX_FIELD then Err (exceeds what)
          else Ok (nat n))"

subsection \<open>Floats\<close>

record 'f float_fmt =
  f_nan :: "'f \<Rightarrow> bool"
  f_finite :: "'f \<Rightarrow> bool"
  f_negative :: "'f \<Rightarrow> bool"
  f_nonzero :: "'f \<Rightarrow> bool"
  f_abs :: "'f \<Rightarrow> 'f"
  f_times100 :: "'f \<Rightarrow> 'f"
  f_fract_zero :: "'f \<Rightarrow> bool"
  f_of_int :: "int \<Rightarrow> 'f"
  f_fixed :: "nat \<Rightarrow> 'f \<Rightarrow> code_text"
  f_exp :: "nat \<Rightarrow> 'f \<Rightarrow> code_text"
  f_show :: "'f \<Rightarrow> code_text"
  f_show_exp :: "'f \<Rightarrow> code_text"
  f_parses_to :: "code_text \<Rightarrow> 'f \<Rightarrow> bool"

fun split_char :: "nat \<Rightarrow> code_text \<Rightarrow> (code_text \<times> code_text) option" where
  "split_char c [] = None"
| "split_char c (x # xs) =
     (if x = c then Some ([], xs)
      else case split_char c xs of Some (a, b) \<Rightarrow> Some (x # a, b) | None \<Rightarrow> None)"

fun read_decimal :: "code_text \<Rightarrow> nat \<Rightarrow> nat option" where
  "read_decimal [] acc = Some acc"
| "read_decimal (c # cs) acc = (if is_ascii_digit c then read_decimal cs (acc * 10 + (c - 48)) else None)"

text \<open>\<^verbatim>\<open>str::parse::<i32>\<close> on an optional sign and digits.\<close>

definition read_i32 :: "code_text \<Rightarrow> int option" where
  "read_i32 s =
     (let (neg, ds) = (case s of c # cs \<Rightarrow> if c = 45 then (True, cs) else if c = 43 then (False, cs) else (False, s)
                       | [] \<Rightarrow> (False, []))
      in if ds = [] then None
         else case read_decimal ds 0 of
           None \<Rightarrow> None
         | Some n \<Rightarrow> let v = (if neg then - int n else int n) in if - (2 ^ 31) \<le> v \<and> v < 2 ^ 31 then Some v else None)"

definition normalize_exp :: "code_text \<Rightarrow> nat \<Rightarrow> code_text" where
  "normalize_exp rust_e marker =
     (case split_char (code (CHR ''e'')) rust_e of
        None \<Rightarrow> rust_e
      | Some (mant, ex) \<Rightarrow>
          let (sg, digits) = (case ex of c # d \<Rightarrow> if c = 45 then (45, d) else (43, ex) | [] \<Rightarrow> (43, ex))
          in mant @ [marker, sg] @ replicate (2 - length digits) 48 @ digits)"

text \<open>The mantissa, and the exponent with its marker.\<close>

definition split_mantissa :: "code_text \<Rightarrow> code_text \<times> code_text" where
  "split_mantissa s =
     (case split_char (code (CHR ''e'')) s of
        Some (m, e) \<Rightarrow> (m, code (CHR ''e'') # e)
      | None \<Rightarrow>
          (case split_char (code (CHR ''E'')) s of
             Some (m, e) \<Rightarrow> (m, code (CHR ''E'') # e)
           | None \<Rightarrow> (s, [])))"

definition trim_end :: "nat \<Rightarrow> code_text \<Rightarrow> code_text" where
  "trim_end c s = rev (dropWhile (\<lambda>x. x = c) (rev s))"

definition strip_g_zeros :: "code_text \<Rightarrow> code_text" where
  "strip_g_zeros s =
     (let (mant, ex) = split_mantissa s in
      if 46 \<notin> set mant then s else trim_end 46 (trim_end 48 mant) @ ex)"

definition force_point :: "code_text \<Rightarrow> code_text" where
  "force_point s =
     (let (mant, ex) = split_mantissa s in
      if \<not> list_ex is_ascii_digit mant \<or> 46 \<in> set mant then s else mant @ [46] @ ex)"

definition repr_float :: "'f float_fmt \<Rightarrow> 'f \<Rightarrow> code_text" where
  "repr_float fl x =
     (if \<not> f_finite fl x then f_show fl x
      else let e = f_show_exp fl x;
               (mant, exp_s) = (case split_char (code (CHR ''e'')) e of Some me \<Rightarrow> me | None \<Rightarrow> (e, codes ''0''));
               ex = (case read_i32 exp_s of Some n \<Rightarrow> n | None \<Rightarrow> 0);
               ndigits = length (filter is_ascii_digit mant);
               odd_last = (mant \<noteq> [] \<and> odd (last mant));
               keep = (\<lambda>c d. if odd_last \<and> f_parses_to fl c x then c else d)
           in if \<not> (-4 \<le> ex \<and> ex < 16) then normalize_exp (keep (f_exp fl (ndigits - 1) x) e) (code (CHR ''e''))
              else if f_fract_zero fl x then f_show fl x @ codes ''.0''
              else keep (f_fixed fl (nat (int ndigits - 1 - ex)) x) (f_show fl x))"

definition render_general :: "'f float_fmt \<Rightarrow> 'f \<Rightarrow> nat \<Rightarrow> nat \<Rightarrow> bool \<Rightarrow> bool \<Rightarrow> (code_text, fmt_error) result" where
  "render_general fl mag precision marker alt add_dot_0 =
     (if \<not> f_finite fl mag then Ok (f_show fl mag)
      else let p = max precision 1; e = f_exp fl (p - 1) mag in
        case split_char (code (CHR ''e'')) e of
          None \<Rightarrow> Err Panic
        | Some (_, exp_s) \<Rightarrow>
            (case read_i32 exp_s of
               None \<Rightarrow> Err Panic
             | Some ex \<Rightarrow>
                 let hi = (if add_dot_0 then int p - 1 else int p);
                     use_exp = (\<not> (-4 \<le> ex \<and> ex < hi));
                     body = (if use_exp then normalize_exp e marker else f_fixed fl (nat (int p - 1 - ex)) mag);
                     body' = (if alt then force_point body else strip_g_zeros body)
                 in Ok (if add_dot_0 \<and> \<not> use_exp \<and> 46 \<notin> set body' then body' @ codes ''.0'' else body')))"

definition render_g :: "'f float_fmt \<Rightarrow> 'f \<Rightarrow> format_spec \<Rightarrow> (code_text, fmt_error) result" where
  "render_g fl mag sp =
     render_general fl mag (case fs_precision sp of Some p \<Rightarrow> p | None \<Rightarrow> 6)
       (if fs_ty sp = Some (code (CHR ''G'')) then code (CHR ''E'') else code (CHR ''e'')) (fs_alt sp) False"

subsection \<open>Rendering\<close>

datatype 'f fmt_arg = Arg_Int i64 | Arg_Float 'f | Arg_Str code_text | Arg_Other code_text

datatype scalar_kind = K_Int | K_Float | K_Str

definition float_types :: "nat list" where "float_types = codes ''fFeE%gG''"
definition radix_types :: "nat list" where "radix_types = codes ''xXbo''"

definition ty_in :: "format_spec \<Rightarrow> nat list \<Rightarrow> bool" where
  "ty_in sp cs \<longleftrightarrow> (case fs_ty sp of Some t \<Rightarrow> t \<in> set cs | None \<Rightarrow> False)"

definition quoted :: "string \<Rightarrow> nat \<Rightarrow> string \<Rightarrow> fmt_error" where
  "quoted pre c post = Message (codes pre @ [39, c, 39] @ codes post)"

definition spec_valid_for_scalar :: "format_spec \<Rightarrow> scalar_kind \<Rightarrow> (unit, fmt_error) result" where
  "spec_valid_for_scalar sp kind =
     (case kind of
        K_Int \<Rightarrow>
          if fs_zero_coerce sp \<and> \<not> ty_in sp float_types
          then Err (message ''format spec: negative-zero coercion 'z' not allowed on an integer'')
          else if fs_precision sp \<noteq> None \<and> \<not> ty_in sp float_types
          then Err (message ''format spec: precision not allowed on an integer'')
          else if fs_group sp = Some (code (CHR '','')) \<and> ty_in sp radix_types
          then Err (quoted ''format spec: grouping ',' not valid with type '' (the (fs_ty sp)) [])
          else Ok ()
      | K_Float \<Rightarrow>
          if ty_in sp (codes ''dxXbo'')
          then Err (quoted ''format spec: type '' (the (fs_ty sp)) '' not valid for a float'')
          else Ok ()
      | K_Str \<Rightarrow>
          if fs_zero_coerce sp
          then Err (message ''format spec: negative-zero coercion 'z' not allowed on a string'')
          else case fs_sign sp of
            Some c \<Rightarrow> Err (quoted ''format spec: sign '' c '' not allowed on a string'')
          | None \<Rightarrow>
              if fs_alt sp then Err (message ''format spec: alternate form '#' not allowed on a string'')
              else if fs_align sp = Some APad
              then Err (message ''format spec: '=' alignment not allowed on a string'')
              else if fs_zero_pad sp
              then Err (message ''format spec: zero-pad '0' not allowed on a string'')
              else case fs_group sp of
                Some sep \<Rightarrow> Err (quoted ''format spec: grouping '' sep '' not allowed on a string'')
              | None \<Rightarrow>
                  (case fs_ty sp of
                     Some t \<Rightarrow> Err (quoted ''format spec: type '' t '' not valid for a string'')
                   | None \<Rightarrow> Ok ()))"

definition sign_prefix :: "bool \<Rightarrow> nat option \<Rightarrow> code_text" where
  "sign_prefix neg sg =
     (if neg then [45]
      else case sg of
        Some c \<Rightarrow> if c = 43 then [43] else if c = 32 then [32] else []
      | None \<Rightarrow> [])"

definition ascii_upper :: "nat \<Rightarrow> nat" where
  "ascii_upper c = (if 97 \<le> c \<and> c \<le> 122 then c - 32 else c)"

definition float_body :: "'f float_fmt \<Rightarrow> format_spec \<Rightarrow> 'f \<Rightarrow> (code_text, fmt_error) result" where
  "float_body fl sp mag =
     (let p6 = (case fs_precision sp of Some p \<Rightarrow> p | None \<Rightarrow> 6);
          alt = (\<lambda>s. if fs_alt sp then force_point s else s)
      in case fs_ty sp of
           None \<Rightarrow>
             (case fs_precision sp of
                Some p \<Rightarrow> render_general fl mag p (code (CHR ''e'')) (fs_alt sp) True
              | None \<Rightarrow> Ok (alt (repr_float fl mag)))
         | Some t \<Rightarrow>
             if t \<in> set (codes ''fF'') then Ok (alt (f_fixed fl p6 mag))
             else if t \<in> set (codes ''eE'')
             then Ok (alt (normalize_exp (f_exp fl p6 mag) (if t = code (CHR ''E'') then t else code (CHR ''e''))))
             else if t = code (CHR ''%'') then Ok (alt (f_fixed fl p6 (f_times100 fl mag)) @ [t])
             else if t \<in> set (codes ''gG'') then render_g fl mag sp
             else Err Panic)"

definition render_float ::
  "'f float_fmt \<Rightarrow> format_spec \<Rightarrow> 'f \<Rightarrow> (code_text \<times> code_text \<times> bool, fmt_error) result" where
  "render_float fl sp x =
     bind_result (spec_valid_for_scalar sp K_Float) (\<lambda>_.
     bind_result (float_body fl sp (f_abs fl x)) (\<lambda>body.
       let neg = (\<not> f_nan fl x \<and> f_negative fl x \<and> (f_nonzero fl x \<or> f_negative fl x));
           body' = (if \<not> f_finite fl x \<and> ty_in sp (codes ''EFG'') then map ascii_upper body else body);
           neg' = (neg \<and> \<not> (fs_zero_coerce sp \<and> f_finite fl x \<and> list_all (\<lambda>c. \<not> (49 \<le> c \<and> c \<le> 57)) body'))
       in Ok (sign_prefix neg' (fs_sign sp), body', True)))"

definition radix_of :: "nat option \<Rightarrow> nat" where
  "radix_of t =
     (if t = Some (code (CHR ''x'')) \<or> t = Some (code (CHR ''X'')) then 16
      else if t = Some (code (CHR ''b'')) then 2 else if t = Some (code (CHR ''o'')) then 8 else 10)"

definition radix_prefix :: "format_spec \<Rightarrow> code_text" where
  "radix_prefix sp = (if fs_alt sp \<and> ty_in sp radix_types then [48, the (fs_ty sp)] else [])"

definition render_int ::
  "'f float_fmt \<Rightarrow> format_spec \<Rightarrow> i64 \<Rightarrow> (code_text \<times> code_text \<times> bool, fmt_error) result" where
  "render_int fl sp n =
     bind_result (spec_valid_for_scalar sp K_Int) (\<lambda>_.
       if ty_in sp float_types then render_float fl sp (f_of_int fl (sint n))
       else if fs_ty sp = None \<or> ty_in sp (codes ''dxXbo'')
       then Ok (sign_prefix (sint n < 0) (fs_sign sp) @ radix_prefix sp,
                radix_text (radix_of (fs_ty sp)) (fs_ty sp = Some (code (CHR ''X''))) (nat \<bar>sint n\<bar>), True)
       else Err Panic)"

definition render_str :: "format_spec \<Rightarrow> code_text \<Rightarrow> (code_text \<times> code_text \<times> bool, fmt_error) result" where
  "render_str sp s =
     bind_result (spec_valid_for_scalar sp K_Str) (\<lambda>_.
       Ok ([], case fs_precision sp of Some p \<Rightarrow> take p s | None \<Rightarrow> s, False))"

definition render_base ::
  "'f float_fmt \<Rightarrow> format_spec \<Rightarrow> 'f fmt_arg \<Rightarrow> (code_text \<times> code_text \<times> bool, fmt_error) result" where
  "render_base fl sp arg =
     (case arg of
        Arg_Int n \<Rightarrow> render_int fl sp n
      | Arg_Float x \<Rightarrow> render_float fl sp x
      | Arg_Str s \<Rightarrow> render_str sp s
      | Arg_Other s \<Rightarrow> render_str sp s)"

definition group_digits :: "code_text \<Rightarrow> nat \<Rightarrow> nat \<Rightarrow> nat \<Rightarrow> code_text" where
  "group_digits digits want sep grp =
     (let n = max (length digits) want; pad = n - length digits
      in concat (map (\<lambda>k. (if k > 0 \<and> (n - k) mod grp = 0 then [sep] else []) @
                          [if k < pad then 48 else digits ! (k - pad)]) [0..<n]))"

text \<open>The loop that grows the digit count until digits and separators cover the target.\<close>

function grow_want :: "nat \<Rightarrow> nat \<Rightarrow> nat \<Rightarrow> nat" where
  "grow_want want grp tgt = (if want + (want - 1) div grp < tgt then grow_want (want + 1) grp tgt else want)"
  by pat_completeness auto
termination
  by (relation "measure (\<lambda>(want, grp, tgt). tgt - want)") auto

declare grow_want.simps [simp del]

definition zero_fill :: "format_spec \<Rightarrow> bool \<Rightarrow> bool" where
  "zero_fill sp is_numeric \<longleftrightarrow>
     is_numeric \<and> ((fs_zero_pad sp \<and> fs_align sp = None) \<or> (fs_align sp = Some APad \<and> fs_fill sp = 48))"

definition hex_digit :: "nat \<Rightarrow> bool" where
  "hex_digit c \<longleftrightarrow> to_digit16 c \<noteq> None"

definition group_body :: "format_spec \<Rightarrow> bool \<Rightarrow> code_text \<Rightarrow> code_text \<Rightarrow> code_text" where
  "group_body sp is_numeric prefix body =
     (case fs_group sp of
        None \<Rightarrow> body
      | Some sep \<Rightarrow>
          let grp = (if ty_in sp radix_types then 4 else 3);
              is_digit = (if ty_in sp (codes ''xX'') then hex_digit else is_ascii_digit);
              digits = takeWhile is_digit body; tail = dropWhile is_digit body
          in if digits = [] then body
             else group_digits digits
                    (if zero_fill sp is_numeric
                     then grow_want (length digits) grp (fs_width sp - (length prefix + length tail))
                     else length digits) sep grp @ tail)"

definition pad_out :: "format_spec \<Rightarrow> bool \<Rightarrow> code_text \<Rightarrow> code_text \<Rightarrow> code_text" where
  "pad_out sp is_numeric prefix body =
     (let full = prefix @ body; len = length full; pad = fs_width sp - len in
      if fs_zero_pad sp \<and> is_numeric \<and> fs_align sp = None then prefix @ replicate pad 48 @ body
      else if len \<ge> fs_width sp then full
      else case (case fs_align sp of Some a \<Rightarrow> a | None \<Rightarrow> if is_numeric then ARight else ALeft) of
             ALeft \<Rightarrow> full @ replicate pad (fs_fill sp)
           | ARight \<Rightarrow> replicate pad (fs_fill sp) @ full
           | ACenter \<Rightarrow> replicate (pad div 2) (fs_fill sp) @ full @ replicate (pad - pad div 2) (fs_fill sp)
           | APad \<Rightarrow> prefix @ replicate pad (fs_fill sp) @ body)"

text \<open>The text that \<^verbatim>\<open>apply\<close> appends to its output.\<close>

definition apply_spec :: "'f float_fmt \<Rightarrow> format_spec \<Rightarrow> 'f fmt_arg \<Rightarrow> (code_text, fmt_error) result" where
  "apply_spec fl sp arg =
     bind_result (render_base fl sp arg) (\<lambda>(prefix, body, is_numeric).
       Ok (pad_out sp is_numeric prefix (group_body sp is_numeric prefix body)))"

subsection \<open>The parser's results\<close>

definition spec_ok :: "format_spec \<Rightarrow> bool" where
  "spec_ok sp \<longleftrightarrow>
     fs_width sp \<le> MAX_FIELD \<and> pred_option (\<lambda>p. p \<le> MAX_FIELD) (fs_precision sp) \<and> pred_option is_type (fs_ty sp) \<and>
     pred_option (\<lambda>c. c = 44 \<or> c = 95) (fs_group sp) \<and> pred_option (\<lambda>c. c = 43 \<or> c = 45 \<or> c = 32) (fs_sign sp) \<and>
     (fs_align sp \<noteq> None \<or> fs_zero_pad sp \<or> fs_fill sp = 32)"

lemma bump_bound: "bump acc c what = Ok n \<Longrightarrow> n \<le> MAX_FIELD"
  by (auto simp: bump_def Let_def split: if_splits)

lemma scan_digits_bound:
  "scan_digits items what i acc saw = Ok (saw', n, j) \<Longrightarrow> acc \<le> MAX_FIELD \<Longrightarrow> n \<le> MAX_FIELD"
proof (induction items what i acc saw arbitrary: saw' n j rule: scan_digits.induct)
  case (1 items what i acc saw)
  show ?case
    using "1.prems" scan_digits.simps[of items what i acc saw]
    by (auto simp: bind_result_eq_Inr_iff split: option.splits if_splits intro: "1.IH"[OF _ _ _ _ bump_bound])
qed

lemma spec_ok_start:
  assumes "parse_fill_align items = (s0, i0, fe)"
  shows "spec_ok (fst (parse_zero items fe (parse_alt items (parse_z items (parse_sign items (s0, i0))))))"
proof -
  have d: "spec_ok spec_default" by (simp add: spec_ok_def spec_default_def code_def)
  have s0: "spec_ok s0"
    using assms by (auto simp: parse_fill_align_def Let_def spec_ok_def spec_default_def code_def split: option.splits if_splits)
  have s1: "spec_ok (fst (parse_sign items (s0, i0)))"
    using s0 by (auto simp: parse_sign_def spec_ok_def codes_def split: option.splits)
  have s2: "spec_ok (fst (parse_alt items (parse_z items st)))" if "spec_ok (fst st)" for st
    using that by (auto simp: parse_z_def parse_alt_def spec_ok_def)
  show ?thesis using s2[OF s1] by (auto simp: parse_zero_def spec_ok_def)
qed

lemma parse_nested_ok: "parse_nested items = Ok sp \<Longrightarrow> spec_ok sp"
proof -
  assume p: "parse_nested items = Ok sp"
  obtain s0 i0 fe where s0: "parse_fill_align items = (s0, i0, fe)" by (metis prod_cases3)
  let ?st = "parse_zero items fe (parse_alt items (parse_z items (parse_sign items (s0, i0))))"
  obtain s1 i1 fe1 s3 i3 fe3 s4 i4 where w: "parse_width items ?st = Ok (s1, i1, fe1)"
    and pr: "parse_precision items (fst (parse_group items (s1, i1)), snd (parse_group items (s1, i1)), fe1) = Ok (s3, i3, fe3)"
    and t: "parse_type items (s3, i3, fe3) = Ok (s4, i4)" "parse_end items (s4, i4) = Ok sp"
    using p by (fastforce simp: parse_nested_def s0 bind_result_eq_Inr_iff Let_def case_prod_beta)
  have "spec_ok s1"
    using w spec_ok_start[OF s0] scan_digits_bound[of items "''width''"]
    by (auto simp: parse_width_def bind_result_eq_Inr_iff spec_ok_def MAX_FIELD_def split: if_splits)
  then have "spec_ok (fst (parse_group items (s1, i1)))"
    by (auto simp: parse_group_def spec_ok_def codes_def split: option.splits)
  then have "spec_ok s3"
    using pr scan_digits_bound[of items "''precision''"]
    by (auto simp: parse_precision_def bind_result_eq_Inr_iff spec_ok_def MAX_FIELD_def split: if_splits)
  then have "spec_ok s4"
    using t(1) by (auto simp: parse_type_def spec_ok_def split: if_splits option.splits)
  then show ?thesis using t(2) by (auto simp: parse_end_def split: if_splits)
qed

lemma field_from_int_bound: "field_from_int v what = Ok n \<Longrightarrow> n \<le> MAX_FIELD"
  by (auto simp: field_from_int_def split: option.splits if_splits)

subsection \<open>Which renderings fail\<close>

definition fl_ok :: "'f float_fmt \<Rightarrow> bool" where
  "fl_ok fl \<longleftrightarrow>
     (\<forall>p x. f_finite fl x \<longrightarrow> (\<exists>m e. split_char 101 (f_exp fl p x) = Some (m, e) \<and> read_i32 e \<noteq> None))"

fun arg_kind :: "'f fmt_arg \<Rightarrow> scalar_kind" where
  "arg_kind (Arg_Int n) = K_Int"
| "arg_kind (Arg_Float x) = K_Float"
| "arg_kind (Arg_Str s) = K_Str"
| "arg_kind (Arg_Other s) = K_Str"

lemma code_e: "code (CHR ''e'') = 101"
  by (simp add: code_def)

lemma render_general_ok: "fl_ok fl \<Longrightarrow> \<exists>s. render_general fl x p m alt dot = Ok s"
proof (cases "f_finite fl x")
  case True
  assume "fl_ok fl"
  then obtain a e n where "split_char 101 (f_exp fl (max p 1 - 1) x) = Some (a, e)" "read_i32 e = Some n"
    using True by (fastforce simp: fl_ok_def)
  then show ?thesis using True by (simp add: render_general_def Let_def code_e)
qed (simp add: render_general_def)

lemma type_cases:
  "is_type t \<Longrightarrow> t \<in> set (codes ''dxXbo'') \<or> t \<in> set float_types"
  by (auto simp: is_type_def type_chars_def float_types_def codes_def)

lemma float_body_ok:
  assumes "fl_ok fl" "pred_option is_type (fs_ty sp)" "\<not> ty_in sp (codes ''dxXbo'')"
  shows "\<exists>s. float_body fl sp x = Ok s"
proof (cases "fs_ty sp")
  case None
  then show ?thesis using render_general_ok[OF assms(1)] by (auto simp: float_body_def split: option.splits)
next
  case (Some t)
  then have "t \<in> set float_types" using type_cases[of t] assms(2,3) by (auto simp: ty_in_def)
  then have "t \<in> set (codes ''fF'') \<or> t \<in> set (codes ''eE'') \<or> t = code (CHR ''%'') \<or> t \<in> set (codes ''gG'')"
    by (auto simp: float_types_def codes_def code_def)
  then show ?thesis
    using Some render_general_ok[OF assms(1)] by (auto simp: float_body_def render_g_def Let_def)
qed

lemma valid_float: "spec_valid_for_scalar sp K_Float = Ok () \<longleftrightarrow> \<not> ty_in sp (codes ''dxXbo'')"
  by (simp add: spec_valid_for_scalar_def)

lemma render_float_err:
  assumes "fl_ok fl" "pred_option is_type (fs_ty sp)"
  shows "render_float fl sp x = Err e \<longleftrightarrow> spec_valid_for_scalar sp K_Float = Err e"
proof (cases "spec_valid_for_scalar sp K_Float")
  case (Inr u)
  then obtain s where "float_body fl sp (f_abs fl x) = Ok s" using float_body_ok[OF assms] valid_float by auto
  then show ?thesis using Inr by (simp add: render_float_def Let_def)
qed (simp add: render_float_def)

lemma float_types_valid: "ty_in sp float_types \<Longrightarrow> spec_valid_for_scalar sp K_Float = Ok ()"
  by (auto simp: spec_valid_for_scalar_def ty_in_def float_types_def codes_def split: option.splits)

lemma render_int_err:
  assumes "fl_ok fl" "pred_option is_type (fs_ty sp)"
  shows "render_int fl sp n = Err e \<longleftrightarrow> spec_valid_for_scalar sp K_Int = Err e"
proof (cases "spec_valid_for_scalar sp K_Int")
  case (Inr u)
  have "\<not> ty_in sp float_types \<Longrightarrow> fs_ty sp = None \<or> ty_in sp (codes ''dxXbo'')"
    using assms(2) type_cases by (auto simp: ty_in_def split: option.splits)
  then show ?thesis
    using Inr render_float_err[OF assms, of "f_of_int fl (sint n)" e] float_types_valid[of sp]
    by (auto simp: render_int_def)
qed (simp add: render_int_def)

lemma bind_ok_err: "bind_result r (\<lambda>x. Ok (f x)) = Err e \<longleftrightarrow> r = Err e"
  by (cases r) auto

lemma bind_split_ok_err: "bind_result r (\<lambda>(a, b, c). Ok (f a b c)) = Err e \<longleftrightarrow> r = Err e"
  by (cases r) (auto split: prod.splits)

lemma render_base_err:
  assumes "fl_ok fl" "pred_option is_type (fs_ty sp)"
  shows "render_base fl sp arg = Err e \<longleftrightarrow> spec_valid_for_scalar sp (arg_kind arg) = Err e"
  using render_int_err[OF assms] render_float_err[OF assms]
  by (cases arg) (auto simp: render_base_def render_str_def bind_ok_err)

subsection \<open>Grouping and padding\<close>

lemma count_multiples: "length (filter (\<lambda>j. j mod g = 0) [1..<n]) = (n - 1) div g" if "0 < g"
proof (induction n)
  case (Suc n)
  show ?case
  proof (cases n)
    case (Suc m)
    then have "length (filter (\<lambda>j. j mod g = 0) [1..<Suc n]) = (n - 1) div g + (if n mod g = 0 then 1 else 0)"
      using Suc.IH by simp
    also have "\<dots> = n div g" using Suc by (simp add: div_Suc)
    finally show ?thesis by simp
  qed simp
qed simp

lemma length_concat_map: "length (concat (map f xs)) = sum_list (map (\<lambda>x. length (f x)) xs)"
  by (induction xs) auto

lemma count_twos: "sum_list (map (\<lambda>k. if Q k then 2 else 1) xs) = length xs + length (filter Q xs)"
  by (induction xs) auto

lemma length_filter_upt: "length (filter Q [a..<n]) = card {k \<in> {a..<n}. Q k}"
proof -
  have "set (filter Q [a..<n]) = {k \<in> {a..<n}. Q k}" by auto
  then show ?thesis by (metis distinct_card distinct_filter distinct_upt)
qed

lemma rev_count: "sum_list (map (\<lambda>k. if 0 < k \<and> (n - k) mod g = 0 then 2 else 1) [0..<n]) =
    n + length (filter (\<lambda>j. j mod g = 0) [1..<n])"
proof -
  have "card {k \<in> {0..<n}. 0 < k \<and> (n - k) mod g = 0} = card {j \<in> {1..<n}. j mod g = 0}"
    by (rule bij_betw_same_card[of "\<lambda>k. n - k"], rule bij_betw_byWitness[where f' = "\<lambda>k. n - k"]) auto
  then show ?thesis by (simp only: count_twos length_filter_upt length_upt)
qed

lemma length_group_digits:
  assumes "0 < g"
  shows "length (group_digits ds want sep g) = max (length ds) want + (max (length ds) want - 1) div g"
proof -
  let ?n = "max (length ds) want"
  have "length (group_digits ds want sep g) = sum_list (map (\<lambda>k. if 0 < k \<and> (?n - k) mod g = 0 then 2 else 1) [0..<?n])"
    by (auto simp: group_digits_def Let_def length_concat_map intro!: arg_cong[of _ _ sum_list])
  then show ?thesis by (simp only: rev_count count_multiples[OF assms])
qed

lemma filter_separated:
  "(\<And>k. k \<in> set ks \<Longrightarrow> f k \<noteq> sep) \<Longrightarrow>
    filter (\<lambda>c. c \<noteq> sep) (concat (map (\<lambda>k. (if P k then [sep] else []) @ [f k]) ks)) = map f ks"
  by (induction ks) auto

lemma filter_group_digits:
  assumes "sep \<notin> set ds" "sep \<noteq> 48"
  shows "filter (\<lambda>c. c \<noteq> sep) (group_digits ds want sep g) = replicate (max (length ds) want - length ds) 48 @ ds"
proof -
  let ?n = "max (length ds) want" and ?p = "max (length ds) want - length ds"
  have "filter (\<lambda>c. c \<noteq> sep) (group_digits ds want sep g) = map (\<lambda>k. if k < ?p then 48 else ds ! (k - ?p)) [0..<?n]"
  proof -
    have "ds ! (k - ?p) \<noteq> sep" if "k < ?n" "\<not> k < ?p" for k
      using assms(1) that nth_mem[of "k - ?p" ds] by (auto simp: max_def split: if_splits)
    then show ?thesis unfolding group_digits_def Let_def using assms(2) by (intro filter_separated) auto
  qed
  also have "\<dots> = replicate ?p 48 @ ds"
    by (rule nth_equalityI) (auto simp: nth_append)
  finally show ?thesis .
qed

lemma grow_want_spec:
  "want \<le> grow_want want g t \<and> t \<le> grow_want want g t + (grow_want want g t - 1) div g \<and>
   (grow_want want g t = want \<or> grow_want want g t - 1 + (grow_want want g t - 2) div g < t)"
proof (induction want g t rule: grow_want.induct)
  case (1 want g t)
  show ?case
  proof (cases "want + (want - 1) div g < t")
    case True
    then show ?thesis using 1[OF True] by (subst (1 2 3 4 5 6) grow_want.simps) (auto simp: numeral_2_eq_2)
  qed (subst (1 2 3 4 5 6) grow_want.simps, auto)
qed

lemma length_pad_out: "length (pad_out sp num p b) = max (fs_width sp) (length p + length b)"
  by (auto simp: pad_out_def Let_def split: align.splits)

lemma group_body_length:
  "length p + length (group_body sp num p b) \<le> max (fs_width sp + 1) (length p + length b + length b div 3)"
proof (cases "fs_group sp")
  case (Some sep)
  define g where "g = (if ty_in sp radix_types then 4 else 3 :: nat)"
  define dg where "dg = (if ty_in sp (codes ''xX'') then hex_digit else is_ascii_digit)"
  let ?ds = "takeWhile dg b" and ?tl = "dropWhile dg b"
  have b: "length b = length ?ds + length ?tl" by (metis length_append takeWhile_dropWhile_id)
  have g: "0 < g" "3 \<le> g" by (auto simp: g_def)
  have nat_len: "(length ?ds - 1) div g \<le> length b div 3"
  proof -
    have "(length ?ds - 1) div g \<le> length b div g" using b by (intro div_le_mono) simp
    also have "\<dots> \<le> length b div 3" using g(2) by (intro div_le_mono2) simp_all
    finally show ?thesis .
  qed
  show ?thesis
  proof (cases "?ds = []")
    case False
    let ?t = "fs_width sp - (length p + length ?tl)"
    define w where "w = (if zero_fill sp num then grow_want (length ?ds) g ?t else length ?ds)"
    have le: "length ?ds \<le> w" using grow_want_spec[of "length ?ds" g ?t] by (auto simp: w_def)
    have "group_body sp num p b = group_digits ?ds w sep g @ ?tl"
      using Some False by (simp add: group_body_def Let_def g_def dg_def w_def)
    then have len: "length (group_body sp num p b) = w + (w - 1) div g + length ?tl"
      using length_group_digits[OF g(1), of ?ds w sep] le by (simp add: max_def)
    show ?thesis
    proof (cases "w = length ?ds")
      case True
      then show ?thesis using len nat_len b by simp
    next
      case False
      then have "w - 1 + (w - 2) div g < ?t" using grow_want_spec[of "length ?ds" g ?t] by (auto simp: w_def split: if_splits)
      moreover have "(w - 1) div g \<le> (w - 2) div g + 1"
      proof -
        have "(w - 1) div g \<le> (w - 2 + g) div g" using g(1) by (intro div_le_mono) simp
        also have "\<dots> = (w - 2) div g + 1" using g(1) by (subst div_add_self2) simp_all
        finally show ?thesis .
      qed
      ultimately show ?thesis using len le False by simp
    qed
  qed (use Some in \<open>simp add: group_body_def Let_def dg_def\<close>)
qed (simp add: group_body_def)

subsection \<open>Reading a rendered integer back\<close>

fun read_radix :: "nat \<Rightarrow> code_text \<Rightarrow> nat \<Rightarrow> nat option" where
  "read_radix base [] acc = Some acc"
| "read_radix base (c # cs) acc =
     (case to_digit16 c of
        Some d \<Rightarrow> if d < base then read_radix base cs (acc * base + d) else None
      | None \<Rightarrow> None)"

text \<open>Leading spaces, a sign, the radix prefix of the alternate form and the separators are skipped.\<close>

definition read_back :: "format_spec \<Rightarrow> code_text \<Rightarrow> int option" where
  "read_back sp s =
     (let s1 = dropWhile (\<lambda>c. c = 32) s;
          neg = (s1 \<noteq> [] \<and> hd s1 = 45);
          s2 = (if s1 \<noteq> [] \<and> (hd s1 = 45 \<or> hd s1 = 43) then tl s1 else s1);
          s3 = drop (length (radix_prefix sp)) s2;
          ds = (case fs_group sp of Some sep \<Rightarrow> filter (\<lambda>c. c \<noteq> sep) s3 | None \<Rightarrow> s3)
      in map_option (\<lambda>n. if neg then - int n else int n) (read_radix (radix_of (fs_ty sp)) ds 0))"

lemma to_digit16_char: "d < 16 \<Longrightarrow> to_digit16 (digit_char u d) = Some d"
  by (auto simp: to_digit16_def digit_char_def)

lemma read_radix_append:
  "read_radix base (xs @ ys) acc = Option.bind (read_radix base xs acc) (read_radix base ys)"
  by (induction xs arbitrary: acc) (auto split: option.splits)

lemma read_radix_zeros: "0 < base \<Longrightarrow> read_radix base (replicate k 48 @ xs) 0 = read_radix base xs 0"
  by (induction k) (auto simp: to_digit16_def)

lemma read_radix_text:
  "2 \<le> base \<Longrightarrow> base \<le> 16 \<Longrightarrow> read_radix base (radix_text base u n) 0 = Some n"
proof (induction base u n rule: radix_text.induct)
  case (1 base u n)
  show ?case
  proof (cases "n < base")
    case True
    then show ?thesis using "1.prems" by (simp add: radix_text.simps to_digit16_char)
  next
    case False
    then have "read_radix base (radix_text base u (n div base)) 0 = Some (n div base)" using 1 by simp
    moreover have m: "n mod base < base" "n mod base < 16" using "1.prems" by (simp_all add: order_less_le_trans[of _ base])
    ultimately show ?thesis using False "1.prems"
      by (subst radix_text.simps) (simp add: read_radix_append to_digit16_char[OF m(2)])
  qed
qed

definition digit_of :: "nat \<Rightarrow> nat \<Rightarrow> bool" where
  "digit_of base c \<longleftrightarrow> (\<exists>u d. d < base \<and> c = digit_char u d)"

lemma radix_text_digits: "2 \<le> base \<Longrightarrow> c \<in> set (radix_text base u n) \<Longrightarrow> digit_of base c"
proof (induction base u n arbitrary: c rule: radix_text.induct)
  case (1 base u n)
  have "digit_of base (digit_char u (n mod base))"
    unfolding digit_of_def using "1.prems"(1) by (intro exI[of _ u] exI[of _ "n mod base"]) simp
  then show ?case
    using 1 by (cases "n < base") (auto simp: radix_text.simps[of base u n])
qed

lemma radix_text_nonempty: "radix_text base u n \<noteq> []"
  by (simp add: radix_text.simps)

lemma digit_of_char:
  assumes "digit_of base c" "base \<le> 16"
  shows "hex_digit c" "c \<noteq> 32" "c \<noteq> 43" "c \<noteq> 44" "c \<noteq> 45" "c \<noteq> 95" "base \<le> 10 \<Longrightarrow> is_ascii_digit c"
proof -
  obtain u d where d: "d < base" "c = digit_char u d" using assms(1) by (auto simp: digit_of_def)
  show "hex_digit c" using to_digit16_char[of d u] d assms(2) by (simp add: hex_digit_def)
  show "c \<noteq> 32" "c \<noteq> 43" "c \<noteq> 44" "c \<noteq> 45" "c \<noteq> 95" "base \<le> 10 \<Longrightarrow> is_ascii_digit c"
    using d assms(2) by (auto simp: digit_char_def is_ascii_digit_def split: if_splits)
qed

lemma radix_of_bounds: "2 \<le> radix_of t" "radix_of t \<le> 16"
  by (auto simp: radix_of_def)

lemma radix_of_small: "\<not> ty_in sp (codes ''xX'') \<Longrightarrow> radix_of (fs_ty sp) \<le> 10"
  by (auto simp: radix_of_def ty_in_def codes_def code_def split: option.splits)

text \<open>Grouping and zero fill add only separators and leading zeros to the digits of an integer.\<close>

lemma group_body_int:
  assumes "spec_ok sp" "b = radix_text (radix_of (fs_ty sp)) u n"
  shows "\<exists>k. (case fs_group sp of Some sep \<Rightarrow> filter (\<lambda>c. c \<noteq> sep) (group_body sp num p b) | None \<Rightarrow> group_body sp num p b)
    = replicate k 48 @ b"
    and "c \<in> set (group_body sp num p b) \<Longrightarrow> digit_of (radix_of (fs_ty sp)) c \<or> Some c = fs_group sp"
    and "\<exists>c cs. group_body sp num p b = c # cs \<and> digit_of (radix_of (fs_ty sp)) c"
proof -
  let ?base = "radix_of (fs_ty sp)"
  have dig: "digit_of ?base c" if "c \<in> set b" for c using radix_text_digits[OF radix_of_bounds(1)] that assms(2) by blast
  have zero: "digit_of ?base 48" unfolding digit_of_def using radix_of_bounds(1)[of "fs_ty sp"]
    by (intro exI[of _ False] exI[of _ 0]) (simp add: digit_char_def)
  have bne: "b \<noteq> []" using radix_text_nonempty assms(2) by simp
  have "(\<exists>k. (case fs_group sp of Some sep \<Rightarrow> filter (\<lambda>c. c \<noteq> sep) (group_body sp num p b) | None \<Rightarrow> group_body sp num p b)
      = replicate k 48 @ b) \<and> (\<forall>c \<in> set (group_body sp num p b). digit_of ?base c \<or> Some c = fs_group sp) \<and>
      (\<exists>c cs. group_body sp num p b = c # cs \<and> digit_of ?base c)"
  proof (cases "fs_group sp")
    case None
    then show ?thesis using bne dig by (cases b) (auto simp: group_body_def intro: exI[of _ 0])
  next
    case (Some sep)
    have sep: "sep = 44 \<or> sep = 95" using assms(1) Some by (auto simp: spec_ok_def)
    have sepb: "sep \<notin> set b" using dig digit_of_char(4,6)[OF _ radix_of_bounds(2)] sep by blast
    let ?dg = "if ty_in sp (codes ''xX'') then hex_digit else is_ascii_digit"
    have all: "\<forall>c \<in> set b. ?dg c"
      using dig digit_of_char(1,7)[OF dig radix_of_bounds(2)] radix_of_small[of sp] by auto
    then have tw: "takeWhile ?dg b = b" "dropWhile ?dg b = []" by (auto simp: takeWhile_eq_all_conv)
    obtain w g where gb: "group_body sp num p b = group_digits b w sep g"
      using Some bne tw by (auto simp: group_body_def Let_def)
    let ?n = "max (length b) w" and ?k = "max (length b) w - length b"
    have f: "filter (\<lambda>c. c \<noteq> sep) (group_body sp num p b) = replicate ?k 48 @ b"
      using filter_group_digits[OF sepb] sep by (auto simp: gb)
    have "digit_of ?base c \<or> c = sep" if "c \<in> set (group_body sp num p b)" for c
    proof (cases "c = sep")
      case False
      then have "c \<in> set (filter (\<lambda>c. c \<noteq> sep) (group_body sp num p b))" using that by simp
      then show ?thesis unfolding f using dig zero by auto
    qed simp
    moreover have "\<exists>c cs. group_body sp num p b = c # cs \<and> digit_of ?base c"
    proof -
      have n: "[0..<?n] = 0 # [1..<?n]" using upt_conv_Cons[of 0 ?n] bne by (simp add: less_max_iff_disj)
      have "digit_of ?base (if 0 < ?k then 48 else b ! (0 - ?k))" using zero dig bne by simp
      then show ?thesis unfolding gb group_digits_def Let_def n by simp
    qed
    ultimately show ?thesis using f Some by auto
  qed
  then show "\<exists>k. (case fs_group sp of Some sep \<Rightarrow> filter (\<lambda>c. c \<noteq> sep) (group_body sp num p b) | None \<Rightarrow> group_body sp num p b)
    = replicate k 48 @ b"
    "c \<in> set (group_body sp num p b) \<Longrightarrow> digit_of ?base c \<or> Some c = fs_group sp"
    "\<exists>c cs. group_body sp num p b = c # cs \<and> digit_of ?base c" by blast+
qed

lemma sign_prefix_cases:
  "sign_prefix neg sg = [] \<and> \<not> neg \<or> sign_prefix neg sg = [45] \<and> neg \<or> sign_prefix neg sg = [43] \<and> \<not> neg \<or>
   sign_prefix neg sg = [32] \<and> \<not> neg"
  by (auto simp: sign_prefix_def split: option.splits)

lemma dropWhile_spaces: "xs = [] \<or> hd xs \<noteq> 32 \<Longrightarrow> dropWhile (\<lambda>c. c = 32) (replicate k 32 @ xs) = xs"
  by (induction k) (cases xs, auto)+

lemma strip_sign:
  assumes "rest \<noteq> [] \<and> hd rest \<noteq> 32 \<and> hd rest \<noteq> 43 \<and> hd rest \<noteq> 45"
  shows "dropWhile (\<lambda>c. c = 32) (replicate i 32 @ sign_prefix neg sg @ rest) \<noteq> [] \<and>
    (hd (dropWhile (\<lambda>c. c = 32) (replicate i 32 @ sign_prefix neg sg @ rest)) = 45 \<longleftrightarrow> neg) \<and>
    (if hd (dropWhile (\<lambda>c. c = 32) (replicate i 32 @ sign_prefix neg sg @ rest)) = 45 \<or>
        hd (dropWhile (\<lambda>c. c = 32) (replicate i 32 @ sign_prefix neg sg @ rest)) = 43
     then tl (dropWhile (\<lambda>c. c = 32) (replicate i 32 @ sign_prefix neg sg @ rest))
     else dropWhile (\<lambda>c. c = 32) (replicate i 32 @ sign_prefix neg sg @ rest)) = rest"
proof -
  consider "sign_prefix neg sg = []" "\<not> neg" | "sign_prefix neg sg = [45]" "neg" | "sign_prefix neg sg = [43]" "\<not> neg" |
    "sign_prefix neg sg = [32]" "\<not> neg" using sign_prefix_cases[of neg sg] by blast
  then show ?thesis
  proof cases
    case 4
    have "replicate i 32 @ [32] @ rest = replicate (Suc i) 32 @ rest" by (simp add: replicate_app_Cons_same)
    then show ?thesis using dropWhile_spaces[of rest "Suc i"] assms 4 by metis
  qed (use dropWhile_spaces[of rest i] dropWhile_spaces[of "45 # rest" i] dropWhile_spaces[of "43 # rest" i] assms
       in simp_all)
qed

text \<open>The layout of an integer without an explicit alignment: spaces, sign, radix prefix, zeros, digits.\<close>

lemma pad_out_int:
  assumes "spec_ok sp" "fs_align sp = None"
  shows "\<exists>i j. pad_out sp True p b = replicate i 32 @ p @ replicate j 48 @ b"
proof (cases "fs_zero_pad sp")
  case True
  then show ?thesis using assms(2)
    by (intro exI[of _ 0] exI[of _ "fs_width sp - length (p @ b)"]) (simp add: pad_out_def Let_def)
next
  case False
  then have "fs_fill sp = 32" using assms by (simp add: spec_ok_def)
  then show ?thesis using False assms(2)
    by (intro exI[of _ "fs_width sp - length (p @ b)"] exI[of _ 0]) (simp add: pad_out_def Let_def)
qed

lemma read_back_layout:
  assumes "spec_ok sp" "s = replicate i 32 @ sign_prefix neg sg @ radix_prefix sp @ replicate j 48 @ body"
    and "body = c # cs" "digit_of (radix_of (fs_ty sp)) c"
    and "(case fs_group sp of Some sep \<Rightarrow> filter (\<lambda>c. c \<noteq> sep) body | None \<Rightarrow> body) = replicate k 48 @ ds"
    and "read_radix (radix_of (fs_ty sp)) ds 0 = Some n"
  shows "read_back sp s = Some (if neg then - int n else int n)"
proof -
  let ?rest = "radix_prefix sp @ replicate j 48 @ body"
  have c: "c \<noteq> 32" "c \<noteq> 43" "c \<noteq> 45" using digit_of_char[OF assms(4) radix_of_bounds(2)] by auto
  have "?rest \<noteq> [] \<and> hd ?rest \<noteq> 32 \<and> hd ?rest \<noteq> 43 \<and> hd ?rest \<noteq> 45"
    using c assms(3) by (cases j) (auto simp: radix_prefix_def)
  then have s12: "dropWhile (\<lambda>c. c = 32) s \<noteq> [] \<and> (hd (dropWhile (\<lambda>c. c = 32) s) = 45 \<longleftrightarrow> neg) \<and>
    (if hd (dropWhile (\<lambda>c. c = 32) s) = 45 \<or> hd (dropWhile (\<lambda>c. c = 32) s) = 43
     then tl (dropWhile (\<lambda>c. c = 32) s) else dropWhile (\<lambda>c. c = 32) s) = ?rest"
    unfolding assms(2) by (intro strip_sign)
  have z: "(case fs_group sp of Some sep \<Rightarrow> filter (\<lambda>c. c \<noteq> sep) (replicate j 48 @ body) | None \<Rightarrow> replicate j 48 @ body)
      = replicate (j + k) 48 @ ds"
    using assms(1,5) by (auto simp: spec_ok_def replicate_add split: option.splits)
  have "read_radix (radix_of (fs_ty sp)) (replicate (j + k) 48 @ ds) 0 = Some n"
    using read_radix_zeros[of "radix_of (fs_ty sp)"] radix_of_bounds(1)[of "fs_ty sp"] assms(6) by simp
  then show ?thesis using s12 z by (auto simp: read_back_def Let_def split: option.splits)
qed

subsection \<open>What the mini-language promises\<close>

text \<open>
  C36. Every spec the parser accepts is bounded: width and precision are at most 4096, a type character
  is one of the twelve known ones, a separator is a comma or an underscore, and a fill other than a
  space comes with an alignment or the zero flag. The value of a nested field is bounded alike.
\<close>

theorem parse_bounded:
  assumes "parse_nested items = Ok sp" "field_from_int v what = Ok n"
  shows "fs_width sp \<le> 4096 \<and> pred_option (\<lambda>p. p \<le> 4096) (fs_precision sp) \<and>
    pred_option (\<lambda>t. t \<in> set (codes ''dfFxXboeE%gG'')) (fs_ty sp) \<and>
    pred_option (\<lambda>c. c \<in> set (codes '',_'')) (fs_group sp) \<and>
    (fs_align sp \<noteq> None \<or> fs_zero_pad sp \<or> fs_fill sp = code (CHR '' '')) \<and> n \<le> 4096"
  using parse_nested_ok[OF assms(1)] field_from_int_bound[OF assms(2)]
  by (auto simp: spec_ok_def MAX_FIELD_def is_type_def type_chars_def code_def codes_def option.pred_set)

text \<open>
  C33. The compile-time check and the rendering agree: under a spec the parser accepted, rendering a
  value fails with a message exactly when the validity check of the value's kind reports that message,
  and it never panics. The float formats are assumed to print an exponent after an \<open>e\<close>, as the standard
  library does for finite values.
\<close>

theorem apply_error_iff_invalid:
  assumes "fl_ok fl" "parse_nested items = Ok sp"
  shows "(apply_spec fl sp arg = Err e \<longleftrightarrow> spec_valid_for_scalar sp (arg_kind arg) = Err e) \<and>
    apply_spec fl sp arg \<noteq> Err Panic"
proof -
  have "pred_option is_type (fs_ty sp)" using parse_nested_ok[OF assms(2)] by (simp add: spec_ok_def)
  note r = render_base_err[OF assms(1) this, of arg]
  have "message m \<noteq> Panic" "quoted m c m' \<noteq> Panic" for m c m' by (simp_all add: message_def quoted_def)
  then have "spec_valid_for_scalar sp k \<noteq> Err Panic" for k
    by (cases k) (simp_all add: spec_valid_for_scalar_def split: option.split)
  then show ?thesis using r by (simp add: apply_spec_def bind_split_ok_err)
qed

text \<open>
  A rendering fills its field and stays bounded: the text is at least as wide as the spec asks, and
  at most one character wider unless the value itself, with its separators, needs more.
\<close>

theorem apply_width:
  assumes "apply_spec fl sp arg = Ok s"
  shows "\<exists>p b num. render_base fl sp arg = Ok (p, b, num) \<and> fs_width sp \<le> length s \<and>
    length s \<le> max (fs_width sp + 1) (length p + length b + length b div 3)"
proof -
  obtain p b num where r: "render_base fl sp arg = Ok (p, b, num)" "s = pad_out sp num p (group_body sp num p b)"
    using assms by (auto simp: apply_spec_def bind_result_eq_Inr_iff)
  then show ?thesis using length_pad_out[of sp num p "group_body sp num p b"] group_body_length[of p sp num b]
    by (intro exI[of _ p] exI[of _ b] exI[of _ num]) auto
qed

text \<open>
  C20. A rendered integer reads back: under a spec without an alignment, in any radix, with any sign,
  prefix, zero fill, width and grouping, the text without leading spaces, sign, prefix and separators
  is the integer's digits, so the number is recovered, the smallest integer included.
\<close>

theorem int_format_roundtrip:
  assumes "parse_nested items = Ok sp" "fs_align sp = None" "\<not> ty_in sp float_types"
    and "apply_spec fl sp (Arg_Int n) = Ok s"
  shows "read_back sp s = Some (sint n)"
proof -
  note ok = parse_nested_ok[OF assms(1)]
  let ?b = "radix_text (radix_of (fs_ty sp)) (fs_ty sp = Some (code (CHR ''X''))) (nat \<bar>sint n\<bar>)"
  let ?p = "sign_prefix (sint n < 0) (fs_sign sp) @ radix_prefix sp"
  let ?g = "group_body sp True ?p ?b"
  have "s = pad_out sp True ?p ?g"
    using assms(3,4) by (auto simp: apply_spec_def render_base_def render_int_def bind_result_eq_Inr_iff split: if_splits)
  then obtain i j where s: "s = replicate i 32 @ ?p @ replicate j 48 @ ?g" using pad_out_int[OF ok assms(2)] by metis
  obtain k where k: "(case fs_group sp of Some sep \<Rightarrow> filter (\<lambda>c. c \<noteq> sep) ?g | None \<Rightarrow> ?g) = replicate k 48 @ ?b"
    using group_body_int(1)[OF ok refl] by blast
  obtain c cs where c: "?g = c # cs" "digit_of (radix_of (fs_ty sp)) c"
    using group_body_int(3)[OF ok refl] by blast
  have "read_back sp s = Some (if sint n < 0 then - int (nat \<bar>sint n\<bar>) else int (nat \<bar>sint n\<bar>))"
    by (rule read_back_layout[OF ok _ c k read_radix_text[OF radix_of_bounds]]) (simp add: s)
  then show ?thesis by auto
qed

text \<open>The float formats of a type with the one value zero.\<close>

definition zero_fmt :: "unit float_fmt" where
  "zero_fmt =
     \<lparr>f_nan = (\<lambda>_. False), f_finite = (\<lambda>_. True), f_negative = (\<lambda>_. False), f_nonzero = (\<lambda>_. False),
      f_abs = (\<lambda>x. x), f_times100 = (\<lambda>x. x), f_fract_zero = (\<lambda>_. True), f_of_int = (\<lambda>_. ()),
      f_fixed = (\<lambda>p _. if p = 0 then codes ''0'' else codes ''0.'' @ replicate p 48),
      f_exp = (\<lambda>p _. (if p = 0 then codes ''0'' else codes ''0.'' @ replicate p 48) @ codes ''e0''),
      f_show = (\<lambda>_. codes ''0''), f_show_exp = (\<lambda>_. codes ''0e0''), f_parses_to = (\<lambda>_ _. True)\<rparr>"

lemma split_char_append: "c \<notin> set a \<Longrightarrow> split_char c (a @ c # b) = Some (a, b)"
  by (induction a) auto

lemma zero_fmt_ok: "fl_ok zero_fmt"
proof -
  have "split_char 101 (f_exp zero_fmt p x) = Some (if p = 0 then codes ''0'' else codes ''0.'' @ replicate p 48, codes ''0'')" for p x
    using split_char_append[of 101 "if p = 0 then codes ''0'' else codes ''0.'' @ replicate p 48" "codes ''0''"]
    by (auto simp: zero_fmt_def codes_def)
  moreover have "read_i32 (codes ''0'') = Some 0" by (simp add: read_i32_def codes_def is_ascii_digit_def)
  ultimately show ?thesis by (auto simp: fl_ok_def)
qed

definition demo_spec :: format_spec where
  "demo_spec = spec_default\<lparr>fs_sign := Some 43, fs_zero_pad := True, fs_fill := 48, fs_width := 9, fs_group := Some 44\<rparr>"

lemma demo_parse: "parse_spec (codes ''+09,'') = Ok demo_spec"
  by (simp add: parse_spec_def parse_nested_def parse_fill_align_def parse_sign_def parse_z_def parse_alt_def
      parse_zero_def parse_width_def parse_group_def parse_precision_def parse_type_def parse_end_def
      scan_digits.simps bump_def sat_usize_def MAX_FIELD_def is_field_def ch_def codes_def code_def is_align_def
      is_ascii_digit_def demo_spec_def Let_def spec_default_def)

lemma demo_apply: "apply_spec zero_fmt demo_spec (Arg_Int 1000) = Ok (codes ''+0,001,000'')"
proof -
  have r: "radix_text 10 False 1000 = [49, 48, 48, 48]"
    by (simp add: radix_text.simps[of 10 False 1000] radix_text.simps[of 10 False 100] radix_text.simps[of 10 False 10]
        radix_text.simps[of 10 False "Suc 0"] digit_char_def)
  have w: "grow_want 4 3 8 = 7"
    by (simp add: grow_want.simps[of 4] grow_want.simps[of 5] grow_want.simps[of 6] grow_want.simps[of 7])
  have four: "4 = Suc (Suc (Suc (Suc 0)))" by simp
  have g: "group_digits [49, 48, 48, 48] 7 44 3 = codes ''0,001,000''"
    by (simp add: group_digits_def Let_def upt_rec[of 0 7] upt_rec[of _ 7] codes_def)
  have "render_base zero_fmt demo_spec (Arg_Int 1000) = Ok ([43], [49, 48, 48, 48], True)"
    by (simp add: render_base_def render_int_def spec_valid_for_scalar_def demo_spec_def spec_default_def ty_in_def
        radix_of_def radix_prefix_def sign_prefix_def r)
  moreover have "group_body demo_spec True [43] [49, 48, 48, 48] = codes ''0,001,000''"
    by (simp add: group_body_def demo_spec_def spec_default_def ty_in_def zero_fill_def is_ascii_digit_def Let_def w g flip: four)
  ultimately show ?thesis by (simp add: apply_spec_def pad_out_def demo_spec_def spec_default_def codes_def Let_def)
qed

theorem parse_bounded_witness:
  "fs_width demo_spec \<le> 4096 \<and> pred_option (\<lambda>p. p \<le> 4096) (fs_precision demo_spec)"
  using parse_bounded[OF demo_parse[unfolded parse_spec_def], of "Some 12" "''width''" 12]
  by (simp add: field_from_int_def MAX_FIELD_def)

theorem apply_error_iff_invalid_witness:
  "(apply_spec zero_fmt demo_spec (Arg_Str (codes ''x'')) = Err (quoted ''format spec: sign '' 43 '' not allowed on a string'')
      \<longleftrightarrow> spec_valid_for_scalar demo_spec K_Str = Err (quoted ''format spec: sign '' 43 '' not allowed on a string'')) \<and>
   spec_valid_for_scalar demo_spec K_Str = Err (quoted ''format spec: sign '' 43 '' not allowed on a string'')"
  using apply_error_iff_invalid[OF zero_fmt_ok demo_parse[unfolded parse_spec_def], of "Arg_Str (codes ''x'')"]
  by (simp add: spec_valid_for_scalar_def demo_spec_def spec_default_def)

theorem apply_width_witness:
  "\<exists>p b num. render_base zero_fmt demo_spec (Arg_Int 1000) = Ok (p, b, num) \<and>
     fs_width demo_spec \<le> length (codes ''+0,001,000'') \<and>
     length (codes ''+0,001,000'') \<le> max (fs_width demo_spec + 1) (length p + length b + length b div 3)"
  by (rule apply_width[OF demo_apply])

theorem int_format_roundtrip_witness:
  "read_back demo_spec (codes ''+0,001,000'') = Some 1000"
  using int_format_roundtrip[OF demo_parse[unfolded parse_spec_def] _ _ demo_apply]
  by (simp add: demo_spec_def spec_default_def ty_in_def)

end
