(* ===== verification/HeapObj.thy ===== *)
theory HeapObj
  imports ValueTag MapData
begin

text \<open>
  The objects of the heap as the collector sees them, \<^verbatim>\<open>src/src/vm/heap.rs\<close>: every variant of \<^verbatim>\<open>Obj\<close>
  with the values it holds, the references it traces, the bytes it owns; and the roots of an
  execution context with the run's registry of parked contexts, \<^verbatim>\<open>src/src/vm/root_registry.rs\<close>. Of a
  core behind an \<^verbatim>\<open>Arc\<close> the model has its address and what the heap reads through it.
\<close>

type_synonym gcref = u32

text \<open>A retiring vector: its items and the capacity of its block.\<close>

record 'a rvec =
  rv_items :: "'a list"
  rv_cap :: nat

subsection \<open>Struct fields\<close>

datatype struct_fields = Inline nat "value_word list" | Spill "value_word rvec"

definition fields_from_vec :: "value_word list \<Rightarrow> struct_fields" where
  "fields_from_vec v =
     (if length v \<le> 3 then Inline (length v) (map (\<lambda>i. if i < length v then v ! i else v_nil) [0..<3])
      else Spill \<lparr>rv_items = v, rv_cap = length v\<rparr>)"

fun fields_len :: "struct_fields \<Rightarrow> nat" where
  "fields_len (Inline n vals) = n"
| "fields_len (Spill s) = length (rv_items s)"

fun fields_to_vec :: "struct_fields \<Rightarrow> value_word list" where
  "fields_to_vec (Inline n vals) = take n vals"
| "fields_to_vec (Spill s) = rv_items s"

fun fields_get :: "struct_fields \<Rightarrow> nat \<Rightarrow> value_word option" where
  "fields_get (Inline n vals) i = (if i < length (take n vals) then Some (take n vals ! i) else None)"
| "fields_get (Spill s) i = (if i < length (rv_items s) then Some (rv_items s ! i) else None)"

fun fields_set :: "struct_fields \<Rightarrow> nat \<Rightarrow> value_word \<Rightarrow> struct_fields \<times> bool" where
  "fields_set (Inline n vals) i v =
     (if i < length (take n vals) then (Inline n (vals[i := v]), True) else (Inline n vals, False))"
| "fields_set (Spill s) i v =
     (if i < length (rv_items s) then (Spill (s\<lparr>rv_items := (rv_items s)[i := v]\<rparr>), True) else (Spill s, False))"

definition VALUE_BYTES :: nat where "VALUE_BYTES = 8"

fun fields_heap_bytes :: "struct_fields \<Rightarrow> nat" where
  "fields_heap_bytes (Inline n vals) = 0"
| "fields_heap_bytes (Spill s) = rv_cap s * VALUE_BYTES"

lemma fields_to_vec_from_vec: "fields_to_vec (fields_from_vec v) = v"
proof (cases "length v \<le> 3")
  case True
  have "take (length v) (map (\<lambda>i. if i < length v then v ! i else v_nil) [0..<3]) = v"
    by (rule nth_equalityI) (use True in auto)
  then show ?thesis using True by (simp add: fields_from_vec_def)
qed (simp add: fields_from_vec_def)

lemma fields_get_to_vec:
  "fields_get f i = (if i < length (fields_to_vec f) then Some (fields_to_vec f ! i) else None)"
  by (cases f) auto

lemma fields_set_to_vec:
  "fields_to_vec (fst (fields_set f i v)) =
     (if snd (fields_set f i v) then (fields_to_vec f)[i := v] else fields_to_vec f)"
  "snd (fields_set f i v) \<longleftrightarrow> i < length (fields_to_vec f)"
  by (cases f; auto simp: take_update_swap)+

subsection \<open>Contexts and their roots\<close>

datatype deferred =
    D_Call value_word "value_word list"
  | D_Method value_word string "value_word list"

definition child_gcrefs :: "value_word list \<Rightarrow> gcref list" where
  "child_gcrefs vs = List.map_filter v_child_gcref vs"

fun deferred_roots :: "deferred \<Rightarrow> gcref list" where
  "deferred_roots (D_Call callee args) = child_gcrefs (callee # args)"
| "deferred_roots (D_Method recv name args) = child_gcrefs (recv # args)"

datatype pending_call = PC_Call value_word "value_word list"

fun pending_roots :: "pending_call \<Rightarrow> gcref list" where
  "pending_roots (PC_Call callee args) = child_gcrefs (callee # args)"

record call_frame =
  f_home :: gcref
  f_closure :: "gcref option"
  f_deferred :: "deferred list"

definition EMPTY_MODULE :: u32 where "EMPTY_MODULE = - 1"

type_synonym module_table = "u32 list"

definition module_get :: "module_table \<Rightarrow> nat \<Rightarrow> gcref option" where
  "module_get t i = (if i < length t \<and> t ! i \<noteq> EMPTY_MODULE then Some (t ! i) else None)"

definition module_set :: "module_table \<Rightarrow> nat \<Rightarrow> gcref \<Rightarrow> module_table option" where
  "module_set t i h = (if i < length t then Some (t[i := h]) else None)"

definition module_iter :: "module_table \<Rightarrow> gcref list" where
  "module_iter t = List.map_filter (module_get t) [0..<length t]"

record root_view =
  r_stack :: "value_word list"
  r_frames :: "call_frame list"
  r_nurseries :: "pending_call list list"
  r_start :: "pending_call option"
  r_modules :: "module_table option"
  r_executors :: "gcref list"
  r_str_intern :: "gcref list option"

definition frame_roots :: "call_frame \<Rightarrow> gcref list" where
  "frame_roots f =
     f_home f # (case f_closure f of Some c \<Rightarrow> [c] | None \<Rightarrow> []) @ concat (map deferred_roots (f_deferred f))"

definition walk :: "root_view \<Rightarrow> gcref list" where
  "walk r =
     child_gcrefs (r_stack r) @
     concat (map frame_roots (r_frames r)) @
     concat (map (\<lambda>nursery. concat (map pending_roots nursery)) (r_nurseries r)) @
     (case r_start r of Some task \<Rightarrow> pending_roots task | None \<Rightarrow> []) @
     (case r_modules r of Some t \<Rightarrow> module_iter t | None \<Rightarrow> []) @
     r_executors r @
     (case r_str_intern r of Some hs \<Rightarrow> hs | None \<Rightarrow> [])"

record gen_ctx =
  g_frames :: "call_frame list"
  g_stack :: "value_word list"

definition gen_root_view :: "gen_ctx \<Rightarrow> root_view" where
  "gen_root_view g =
     \<lparr>r_stack = g_stack g, r_frames = g_frames g, r_nurseries = [], r_start = None, r_modules = None,
      r_executors = [], r_str_intern = None\<rparr>"

datatype gen_state = Pending "value_word list" | Suspended | Done

record generator_core =
  gen_home :: gcref
  gen_closure :: "gcref option"
  gen_parked :: "(gen_state \<times> gen_ctx) option"

definition generator_roots :: "generator_core \<Rightarrow> gcref list" where
  "generator_roots g =
     gen_home g # (case gen_closure g of Some c \<Rightarrow> [c] | None \<Rightarrow> []) @
     (case gen_parked g of
        None \<Rightarrow> []
      | Some (st, ctx) \<Rightarrow>
          (case st of Pending args \<Rightarrow> child_gcrefs args | _ \<Rightarrow> []) @ walk (gen_root_view ctx))"

text \<open>The registry of the run's parked fiber contexts: listed slots and free slots.\<close>

record registry =
  ctxs :: "root_view option list"
  reg_free :: "nat list"

definition register :: "registry \<Rightarrow> root_view \<Rightarrow> registry \<times> nat" where
  "register s ctx =
     (if reg_free s = [] then (s\<lparr>ctxs := ctxs s @ [Some ctx]\<rparr>, length (ctxs s))
      else let i = last (reg_free s)
           in (s\<lparr>ctxs := (ctxs s)[i := Some ctx], reg_free := butlast (reg_free s)\<rparr>, i))"

definition leave :: "registry \<Rightarrow> nat \<Rightarrow> registry" where
  "leave s slot = s\<lparr>ctxs := (ctxs s)[slot := None], reg_free := reg_free s @ [slot]\<rparr>"

definition registry_roots :: "registry \<Rightarrow> gcref list" where
  "registry_roots s = concat (map (\<lambda>c. case c of Some r \<Rightarrow> walk r | None \<Rightarrow> []) (ctxs s))"

subsection \<open>Objects\<close>

text \<open>A channel's state as its \<^verbatim>\<open>iter\<close> and \<^verbatim>\<open>held_bytes\<close> read it: buffer, offers and receive slots.\<close>

record chan_core =
  ch_addr :: nat
  ch_queue :: "value_word list"
  ch_queue_cap :: nat
  ch_sendq :: "value_word list"
  ch_recvq :: "value_word option list"

definition chan_iter :: "chan_core \<Rightarrow> value_word list" where
  "chan_iter c = ch_queue c @ ch_sendq c @ List.map_filter id (ch_recvq c)"

definition chan_held_bytes :: "chan_core \<Rightarrow> nat" where
  "chan_held_bytes c = (ch_queue_cap c + length (ch_sendq c) + length (ch_recvq c)) * VALUE_BYTES"

record box_core =
  box_addr :: nat
  box_value :: value_word

record executor_core =
  ex_addr :: nat
  ex_held_bytes :: nat

datatype obj =
    O_Str string
  | O_Bytes "u8 list"
  | O_ByteArray "u8 rvec"
  | O_BigInt i64
  | O_FloatBox u64
  | O_Iter "value_word rvec" nat
  | O_List "value_word rvec"
  | O_Tuple "value_word rvec"
  | O_Map "(value_word, value_word) map_data" nat nat
  | O_Set "value_word set_data" nat nat
  | O_Struct u32 struct_fields
  | O_Enum u32 "value_word rvec"
  | O_Cell value_word
  | O_Func nat gcref
  | O_Closure nat "value_word rvec" gcref
  | O_Module "value_word rvec"
  | O_Native string
  | O_Builtin nat
  | O_Cffi nat
  | O_Ptr nat
  | O_Channel chan_core
  | O_Shared box_core
  | O_RwShared box_core
  | O_Atomic box_core
  | O_AtomicInt nat
  | O_Executor executor_core
  | O_Socket nat
  | O_Listener nat
  | O_Writer nat
  | O_Reader nat
  | O_Generator generator_core

fun is_arc_core :: "obj \<Rightarrow> bool" where
  "is_arc_core (O_Cffi _) = True"
| "is_arc_core (O_Channel _) = True"
| "is_arc_core (O_Shared _) = True"
| "is_arc_core (O_RwShared _) = True"
| "is_arc_core (O_Atomic _) = True"
| "is_arc_core (O_AtomicInt _) = True"
| "is_arc_core (O_Executor _) = True"
| "is_arc_core (O_Socket _) = True"
| "is_arc_core (O_Listener _) = True"
| "is_arc_core (O_Writer _) = True"
| "is_arc_core (O_Reader _) = True"
| "is_arc_core _ = False"

text \<open>The entry and the index slot of a table: a hash and one or two values; one word.\<close>

definition MAP_ENTRY_BYTES :: nat where "MAP_ENTRY_BYTES = 24"
definition SET_ENTRY_BYTES :: nat where "SET_ENTRY_BYTES = 16"
definition INDEX_SLOT_BYTES :: nat where "INDEX_SLOT_BYTES = 8"

fun obj_bytes_shallow :: "obj \<Rightarrow> nat" where
  "obj_bytes_shallow (O_Str s) = length s"
| "obj_bytes_shallow (O_Bytes b) = length b"
| "obj_bytes_shallow (O_ByteArray b) = rv_cap b"
| "obj_bytes_shallow (O_Iter v _) = rv_cap v * VALUE_BYTES"
| "obj_bytes_shallow (O_List v) = rv_cap v * VALUE_BYTES"
| "obj_bytes_shallow (O_Tuple v) = rv_cap v * VALUE_BYTES"
| "obj_bytes_shallow (O_Struct _ fs) = fields_heap_bytes fs"
| "obj_bytes_shallow (O_Enum _ v) = rv_cap v * VALUE_BYTES"
| "obj_bytes_shallow (O_Closure _ v _) = rv_cap v * VALUE_BYTES"
| "obj_bytes_shallow (O_Module v) = rv_cap v * VALUE_BYTES"
| "obj_bytes_shallow (O_Map _ entry_cap index_cap) = entry_cap * MAP_ENTRY_BYTES + index_cap * INDEX_SLOT_BYTES"
| "obj_bytes_shallow (O_Set _ entry_cap index_cap) = entry_cap * SET_ENTRY_BYTES + index_cap * INDEX_SLOT_BYTES"
| "obj_bytes_shallow _ = 0"

text \<open>The references an object traces, \<^verbatim>\<open>Heap::children\<close>.\<close>

fun obj_children :: "obj \<Rightarrow> gcref list" where
  "obj_children (O_Iter v _) = child_gcrefs (rv_items v)"
| "obj_children (O_List v) = child_gcrefs (rv_items v)"
| "obj_children (O_Tuple v) = child_gcrefs (rv_items v)"
| "obj_children (O_Map m _ _) = child_gcrefs (concat (map (\<lambda>(_, k, v). [k, v]) (entries m)))"
| "obj_children (O_Set s _ _) = child_gcrefs (map snd (entries s))"
| "obj_children (O_Struct _ fs) = child_gcrefs (fields_to_vec fs)"
| "obj_children (O_Enum _ v) = child_gcrefs (rv_items v)"
| "obj_children (O_Cell v) = child_gcrefs [v]"
| "obj_children (O_Func _ home) = [home]"
| "obj_children (O_Closure _ v home) = child_gcrefs (rv_items v) @ [home]"
| "obj_children (O_Module v) = child_gcrefs (rv_items v)"
| "obj_children (O_Channel c) = child_gcrefs (chan_iter c)"
| "obj_children (O_Shared b) = child_gcrefs [box_value b]"
| "obj_children (O_RwShared b) = child_gcrefs [box_value b]"
| "obj_children (O_Atomic b) = child_gcrefs [box_value b]"
| "obj_children (O_Generator g) = generator_roots g"
| "obj_children _ = []"

subsection \<open>The registry lists each context once\<close>

definition registry_inv :: "registry \<Rightarrow> bool" where
  "registry_inv s \<longleftrightarrow> distinct (reg_free s) \<and> (\<forall>i. i \<in> set (reg_free s) \<longleftrightarrow> i < length (ctxs s) \<and> ctxs s ! i = None)"

lemma register_keeps:
  assumes "registry_inv s"
  shows "registry_inv (fst (register s ctx))" "ctxs (fst (register s ctx)) ! snd (register s ctx) = Some ctx"
    "snd (register s ctx) < length (ctxs (fst (register s ctx)))"
    "j < length (ctxs s) \<Longrightarrow> ctxs s ! j = Some r \<Longrightarrow>
       j \<noteq> snd (register s ctx) \<and> ctxs (fst (register s ctx)) ! j = Some r"
proof -
  have *: "registry_inv (fst (register s ctx)) \<and> ctxs (fst (register s ctx)) ! snd (register s ctx) = Some ctx \<and>
    snd (register s ctx) < length (ctxs (fst (register s ctx))) \<and>
    (\<forall>j < length (ctxs s). ctxs s ! j = Some r \<longrightarrow> j \<noteq> snd (register s ctx) \<and> ctxs (fst (register s ctx)) ! j = Some r)"
  proof (cases "reg_free s" rule: rev_cases)
    case Nil
    then show ?thesis using assms by (auto simp: register_def registry_inv_def nth_append split: if_splits)
  next
    case (snoc fs i)
    then have f: "distinct fs" "i \<notin> set fs" "i < length (ctxs s)" "ctxs s ! i = None"
      "j \<in> set fs \<longleftrightarrow> j \<noteq> i \<and> j < length (ctxs s) \<and> ctxs s ! j = None" for j
      using assms by (auto simp: registry_inv_def)
    have "register s ctx = (s\<lparr>ctxs := (ctxs s)[i := Some ctx], reg_free := fs\<rparr>, i)"
      by (simp add: register_def snoc)
    moreover have "registry_inv (s\<lparr>ctxs := (ctxs s)[i := Some ctx], reg_free := fs\<rparr>)"
      using f(1,3) by (simp add: registry_inv_def f(5) nth_list_update)
    ultimately show ?thesis using f(3,4) by (auto simp: nth_list_update)
  qed
  then show "registry_inv (fst (register s ctx))" "ctxs (fst (register s ctx)) ! snd (register s ctx) = Some ctx"
    "snd (register s ctx) < length (ctxs (fst (register s ctx)))"
    "j < length (ctxs s) \<Longrightarrow> ctxs s ! j = Some r \<Longrightarrow>
       j \<noteq> snd (register s ctx) \<and> ctxs (fst (register s ctx)) ! j = Some r" by blast+
qed

lemma leave_keeps:
  assumes "registry_inv s" "slot < length (ctxs s)" "ctxs s ! slot = Some r"
  shows "registry_inv (leave s slot)"
  using assms by (auto simp: registry_inv_def leave_def nth_list_update)

lemma registry_roots_cover:
  "i < length (ctxs s) \<Longrightarrow> ctxs s ! i = Some r \<Longrightarrow> set (walk r) \<subseteq> set (registry_roots s)"
  by (force simp: registry_roots_def in_set_conv_nth)

end
