(* ===== verification/Slab.thy ===== *)
theory Slab
  imports Prelude
begin

text \<open>
  The slot storage of the heap, \<^verbatim>\<open>src/src/vm/heap_slab.rs\<close>: a slab of geometric segments whose slots
  never move, and a bitset with one bit per slot that is segmented alike. A segment's storage is a
  list of cells, \<open>None\<close> a cell that was never written; reading such a cell, or one outside a segment,
  is the fault \<open>Undefined\<close>. Slot numbers stay below \<open>2 ^ 32\<close>, so the \<^verbatim>\<open>usize\<close> arithmetic is on naturals.
\<close>

subsection \<open>Segments\<close>

definition FIRST_BITS :: nat where "FIRST_BITS = 2"
definition SEGS :: nat where "SEGS = 33 - FIRST_BITS"
definition LOW_SLOTS :: nat where "LOW_SLOTS = 64"

fun ilog2 :: "nat \<Rightarrow> nat" where
  "ilog2 n = (if n < 2 then 0 else Suc (ilog2 (n div 2)))"

declare ilog2.simps [simp del]

definition seg_start :: "nat \<Rightarrow> nat" where
  "seg_start k = nat (push_bit k (drop_bit 1 (push_bit FIRST_BITS 1)) AND NOT (push_bit FIRST_BITS 1 - 1 :: int))"

definition seg_cap :: "nat \<Rightarrow> nat" where
  "seg_cap k = max (seg_start k) (push_bit FIRST_BITS 1)"

definition locate :: "nat \<Rightarrow> nat \<times> nat" where
  "locate i =
     (let k = ilog2 (i OR (push_bit FIRST_BITS 1 - 1)) + 1 - FIRST_BITS
      in (k, i - seg_start k))"

definition seg_len :: "nat \<Rightarrow> nat \<Rightarrow> nat" where
  "seg_len k len = min (len - seg_start k) (seg_cap k)"

definition seg_count :: "nat \<Rightarrow> nat" where
  "seg_count len = (if len = 0 then 0 else fst (locate (len - 1)) + 1)"

definition seg_words :: "nat \<Rightarrow> nat" where
  "seg_words k = (seg_cap k + 63) div 64"

subsection \<open>The slab\<close>

type_synonym 'o slot = "'o option"

record 'o slab =
  segs :: "'o slot option list option list"
  slab_len :: nat
  slab_id :: nat

datatype slab_append = SlabAppend nat

datatype slab_fault = OutOfRange nat nat | WrongToken | SlabFull nat | Undefined

definition slab_new :: "nat \<Rightarrow> 'o slab \<times> slab_append" where
  "slab_new ident =
     (\<lparr>segs = replicate SEGS None, slab_len = 0, slab_id = ident\<rparr>, SlabAppend ident)"

text \<open>The segment and the cell behind a slot number; the entry of the table is read unchecked.\<close>

definition slot_ptr :: "'o slab \<Rightarrow> nat \<Rightarrow> (nat \<times> nat, slab_fault) result" where
  "slot_ptr s i =
     (if i \<ge> slab_len s then Err (OutOfRange i (slab_len s))
      else let k = fst (locate i) in
        if k < length (segs s) \<and> segs s ! k \<noteq> None \<and> i - seg_start k < length (the (segs s ! k))
        then Ok (k, i - seg_start k) else Err Undefined)"

definition slab_get :: "'o slab \<Rightarrow> nat \<Rightarrow> ('o slot, slab_fault) result" where
  "slab_get s i =
     bind_result (slot_ptr s i) (\<lambda>(k, off).
       case the (segs s ! k) ! off of Some sl \<Rightarrow> Ok sl | None \<Rightarrow> Err Undefined)"

text \<open>A write through \<^verbatim>\<open>slot_mut\<close>.\<close>

definition slab_put :: "'o slab \<Rightarrow> nat \<Rightarrow> 'o slot \<Rightarrow> ('o slab, slab_fault) result" where
  "slab_put s i sl =
     bind_result (slot_ptr s i) (\<lambda>(k, off).
       Ok (s\<lparr>segs := (segs s)[k := Some ((the (segs s ! k))[off := Some sl])]\<rparr>))"

fun write_holes :: "nat \<Rightarrow> nat \<Rightarrow> 'o slot option list \<Rightarrow> 'o slot option list" where
  "write_holes off 0 cells = cells"
| "write_holes off (Suc n) cells = write_holes (Suc off) n (cells[off := Some None])"

definition push_holes :: "'o slab \<Rightarrow> nat \<Rightarrow> slab_append \<Rightarrow> ('o slab \<times> nat \<times> nat, slab_fault) result" where
  "push_holes s mx tok =
     (if tok \<noteq> SlabAppend (slab_id s) then Err WrongToken
      else let start = slab_len s in
        if start > 2 ^ 32 - 1 then Err (SlabFull start)
        else let (k, off) = locate start;
                 n = (if start < LOW_SLOTS then 1 else max (min mx (seg_cap k - off)) 1);
                 seg = (if off = 0 then Some (replicate (seg_cap k) None) else segs s ! k)
             in case seg of
                  None \<Rightarrow> Err Undefined
                | Some cells \<Rightarrow>
                    Ok (s\<lparr>segs := (segs s)[k := Some (write_holes off n cells)], slab_len := start + n\<rparr>,
                        start, start + n))"

text \<open>The initialized part of a segment, the iterator over all slots and the iterator over the segments.\<close>

definition seg_raw :: "'o slab \<Rightarrow> nat \<Rightarrow> 'o slot option list" where
  "seg_raw s k = take (seg_len k (slab_len s)) (case segs s ! k of Some cells \<Rightarrow> cells | None \<Rightarrow> [])"

definition slab_iter :: "'o slab \<Rightarrow> 'o slot option list" where
  "slab_iter s = concat (map (seg_raw s) [0..<seg_count (slab_len s)])"

definition segments_mut :: "'o slab \<Rightarrow> (nat \<times> 'o slot option list) list" where
  "segments_mut s = map (\<lambda>k. (seg_start k, seg_raw s k)) [0..<seg_count (slab_len s)]"

subsection \<open>The bitset\<close>

record slot_bits =
  low :: u64
  table :: "u64 list option list option"

definition bits_default :: slot_bits where
  "bits_default = \<lparr>low = 0, table = None\<rparr>"

definition table_or_alloc :: "slot_bits \<Rightarrow> u64 list option list" where
  "table_or_alloc b = (case table b of Some t \<Rightarrow> t | None \<Rightarrow> replicate SEGS None)"

definition bits_words :: "slot_bits \<Rightarrow> nat \<Rightarrow> u64 list option" where
  "bits_words b k = (case table b of None \<Rightarrow> None | Some t \<Rightarrow> t ! k)"

definition segment_words :: "slot_bits \<Rightarrow> nat \<Rightarrow> u64 list" where
  "segment_words b start =
     (if start < LOW_SLOTS then [low b]
      else case bits_words b (fst (locate start)) of Some ws \<Rightarrow> ws | None \<Rightarrow> [])"

text \<open>The word and the mask of slot \<open>i\<close>.\<close>

definition bits_word :: "slot_bits \<Rightarrow> nat \<Rightarrow> (u64 \<times> u64) option" where
  "bits_word b i =
     (if i < LOW_SLOTS then Some (low b, push_bit i 1)
      else let (k, off) = locate i in
        case bits_words b k of
          Some ws \<Rightarrow> Some (ws ! (off div 64), push_bit (off mod 64) 1)
        | None \<Rightarrow> None)"

text \<open>A store to the word of slot \<open>i\<close>.\<close>

definition store_word :: "slot_bits \<Rightarrow> nat \<Rightarrow> u64 \<Rightarrow> slot_bits" where
  "store_word b i w =
     (if i < LOW_SLOTS then b\<lparr>low := w\<rparr>
      else let (k, off) = locate i in
        case bits_words b k of
          Some ws \<Rightarrow> b\<lparr>table := Some ((table_or_alloc b)[k := Some (ws[off div 64 := w])])\<rparr>
        | None \<Rightarrow> b)"

definition alloc_words :: "slot_bits \<Rightarrow> nat \<Rightarrow> slot_bits" where
  "alloc_words b k =
     (let t = table_or_alloc b
      in b\<lparr>table := Some (if t ! k = None then t[k := Some (replicate (seg_words k) 0)] else t)\<rparr>)"

definition word_or_alloc :: "slot_bits \<Rightarrow> nat \<Rightarrow> slot_bits \<times> u64 \<times> u64" where
  "word_or_alloc b i =
     (case bits_word b i of
        Some w \<Rightarrow> (b, w)
      | None \<Rightarrow> let (k, off) = locate i; b' = alloc_words b k
                in (b', the (bits_words b' k) ! (off div 64), push_bit (off mod 64) 1))"

definition bits_get :: "slot_bits \<Rightarrow> nat \<Rightarrow> bool" where
  "bits_get b i = (case bits_word b i of Some (w, m) \<Rightarrow> w AND m \<noteq> 0 | None \<Rightarrow> False)"

definition bits_clear :: "slot_bits \<Rightarrow> nat \<Rightarrow> slot_bits" where
  "bits_clear b i = (case bits_word b i of Some (w, m) \<Rightarrow> store_word b i (w AND NOT m) | None \<Rightarrow> b)"

definition set_owned :: "slot_bits \<Rightarrow> nat \<Rightarrow> slot_bits \<times> bool" where
  "set_owned b i = (let (b', w, m) = word_or_alloc b i in (store_word b' i (w OR m), w AND m = 0))"

subsection \<open>The place of a slot\<close>

lemma ilog2_bounds: "0 < n \<Longrightarrow> 2 ^ ilog2 n \<le> n \<and> n < 2 ^ Suc (ilog2 n)"
proof (induction n rule: ilog2.induct)
  case (1 n)
  show ?case
  proof (cases "n < 2")
    case False
    then have "2 ^ ilog2 (n div 2) \<le> n div 2 \<and> n div 2 < 2 ^ Suc (ilog2 (n div 2))"
      using 1 by simp
    then show ?thesis using False by (subst ilog2.simps, subst (2) ilog2.simps) (auto simp: ilog2.simps[of n])
  qed (use 1 in \<open>auto simp: ilog2.simps[of n]\<close>)
qed

lemma ilog2_unique: "2 ^ m \<le> n \<Longrightarrow> n < 2 ^ Suc m \<Longrightarrow> ilog2 n = m"
proof -
  assume a: "2 ^ m \<le> n" "n < 2 ^ Suc m"
  then have "0 < n" by (meson less_le_trans zero_less_numeral zero_less_power)
  note b = ilog2_bounds[OF this]
  have "(2 :: nat) ^ m < 2 ^ Suc (ilog2 n)" "(2 :: nat) ^ ilog2 n < 2 ^ Suc m"
    using a b by linarith+
  then show "ilog2 n = m" by (simp add: power_strict_increasing_iff[of 2, simplified] del: power_Suc)
qed

lemma or_mask2: "i OR 3 = 4 * (i div 4) + (3 :: nat)"
proof -
  have "i OR mask 2 = push_bit 2 (drop_bit 2 i) OR mask 2"
    by (rule bit_eqI) (auto simp: bit_simps le_add_diff_inverse not_less simp del: add_2_eq_Suc add_2_eq_Suc')
  also have "\<dots> = push_bit 2 (drop_bit 2 i) + mask 2"
    by (rule disjunctive_add[symmetric]) (auto simp: bit_simps)
  finally show ?thesis by (simp add: mask_eq_exp_minus_1 push_bit_eq_mult drop_bit_eq_div)
qed

lemma and_not_mask: "x AND NOT (mask n) = push_bit n (drop_bit n (x :: int))"
  by (rule bit_eqI) (auto simp: bit_simps)

lemma seg_start_simps [simp]: "seg_start 0 = 0" "seg_start (Suc k) = 2 ^ (k + 2)"
proof -
  have m: "push_bit FIRST_BITS 1 - 1 = (mask 2 :: int)" by (simp add: FIRST_BITS_def mask_eq_exp_minus_1)
  show "seg_start 0 = 0" by (simp add: seg_start_def FIRST_BITS_def)
  have "push_bit (Suc k) (drop_bit 1 (push_bit FIRST_BITS 1)) = (2 ^ (k + 2) :: int)"
    by (simp add: FIRST_BITS_def push_bit_eq_mult drop_bit_eq_div power_add)
  then have "seg_start (Suc k) = nat (2 ^ (k + 2) AND NOT (mask 2))" unfolding seg_start_def m by (rule arg_cong)
  then show "seg_start (Suc k) = 2 ^ (k + 2)"
    by (simp add: and_not_mask push_bit_eq_mult drop_bit_eq_div power_add nat_mult_distrib nat_power_eq)
qed

lemma seg_cap_simps [simp]: "seg_cap 0 = 4" "seg_cap (Suc k) = 2 ^ (k + 2)"
  by (simp_all add: seg_cap_def FIRST_BITS_def)

lemma seg_end: "seg_start k + seg_cap k = 2 ^ (k + 2)"
  by (cases k) simp_all

lemma seg_start_mono: "j < k \<Longrightarrow> seg_start j + seg_cap j \<le> seg_start k"
  by (cases k) (simp_all add: seg_end)

lemma locate_alt: "locate i = (ilog2 (4 * (i div 4) + 3) - 1, i - seg_start (ilog2 (4 * (i div 4) + 3) - 1))"
  by (simp add: locate_def FIRST_BITS_def or_mask2 Let_def)

lemma locate_seg: "off < seg_cap k \<Longrightarrow> locate (seg_start k + off) = (k, off)"
proof -
  assume off: "off < seg_cap k"
  let ?i = "seg_start k + off"
  have "2 ^ Suc k \<le> 4 * (?i div 4) + 3 \<and> 4 * (?i div 4) + 3 < 2 ^ Suc (Suc k)"
  proof (cases k)
    case (Suc j)
    have "?i div 4 = 2 ^ j + off div 4" using Suc by (simp add: power_add)
    moreover have "off div 4 < 2 ^ j" using off Suc by (simp add: power_add less_mult_imp_div_less)
    ultimately show ?thesis using Suc by simp
  qed (use off in auto)
  then have "ilog2 (4 * (?i div 4) + 3) = Suc k" by (intro ilog2_unique) auto
  then show ?thesis by (simp add: locate_alt)
qed

lemma locate_spec:
  assumes "locate i = (k, off)"
  shows "i = seg_start k + off" "off < seg_cap k"
proof -
  let ?m = "ilog2 (4 * (i div 4) + 3)"
  have b: "2 ^ ?m \<le> 4 * (i div 4) + 3" "4 * (i div 4) + 3 < 2 ^ Suc ?m"
    using ilog2_bounds[of "4 * (i div 4) + 3"] by auto
  have "?m \<noteq> 0" using b(2) by (intro notI) simp
  then have k: "?m = Suc k" using assms by (auto simp: locate_alt)
  have "seg_start k \<le> i \<and> i < seg_start k + seg_cap k"
  proof (cases k)
    case (Suc j)
    have "4 * 2 ^ j \<le> 4 * (i div 4) + 3" using b(1) k Suc by simp
    then have "2 ^ j \<le> i div 4" by linarith
    then have "2 ^ j * 4 \<le> i" by (meson dual_order.trans mult_le_mono1 div_times_less_eq_dividend)
    moreover have "4 * (i div 4) + 3 < 8 * 2 ^ j" using b(2) k Suc by simp
    then have "i < 8 * 2 ^ j" by linarith
    ultimately show ?thesis using Suc by (simp add: power_add)
  next
    case 0
    then show ?thesis using b(2) k by simp
  qed
  then show "i = seg_start k + off" "off < seg_cap k"
    using assms k by (auto simp: locate_alt)
qed

lemma locate_bound: "i < 2 ^ 32 \<Longrightarrow> fst (locate i) < SEGS"
proof (rule ccontr)
  assume a: "i < 2 ^ 32" "\<not> fst (locate i) < SEGS"
  obtain k off where l: "locate i = (k, off)" by fastforce
  have "30 < k" using a(2) l by (simp add: SEGS_def FIRST_BITS_def)
  then have "seg_start 30 + seg_cap 30 \<le> seg_start k" by (rule seg_start_mono)
  then have "2 ^ 32 \<le> seg_start k" by (simp only: seg_end) simp
  then show False using locate_spec(1)[OF l] a(1) by simp
qed

subsection \<open>The slab is a growing list of slots\<close>

definition seg_ok :: "'o slab \<Rightarrow> nat \<Rightarrow> bool" where
  "seg_ok s k =
     (case segs s ! k of
        None \<Rightarrow> slab_len s \<le> seg_start k
      | Some cells \<Rightarrow> seg_start k < slab_len s \<and> length cells = seg_cap k \<and>
          (\<forall>off < seg_cap k. cells ! off \<noteq> None \<longleftrightarrow> seg_start k + off < slab_len s))"

definition slab_inv :: "'o slab \<Rightarrow> bool" where
  "slab_inv s \<longleftrightarrow> length (segs s) = SEGS \<and> slab_len s \<le> 2 ^ 32 \<and> (\<forall>k < SEGS. seg_ok s k)"

definition slab_view :: "'o slab \<Rightarrow> 'o slot list" where
  "slab_view s = map (\<lambda>i. case slab_get s i of Inr sl \<Rightarrow> sl | Inl _ \<Rightarrow> None) [0..<slab_len s]"

lemma slab_view_length [simp]: "length (slab_view s) = slab_len s"
  by (simp add: slab_view_def)

lemma seg_cap_pos [simp]: "0 < seg_cap k"
  by (cases k) simp_all

lemma slab_inv_new: "slab_inv (fst (slab_new ident))" "slab_view (fst (slab_new ident)) = []"
  by (auto simp: slab_new_def slab_inv_def seg_ok_def slab_view_def)

lemma slab_cell:
  assumes "slab_inv s" "i < slab_len s" "locate i = (k, off)"
  shows "k < SEGS" "\<exists>cells sl. segs s ! k = Some cells \<and> length cells = seg_cap k \<and> cells ! off = Some sl"
    "slot_ptr s i = Ok (k, off)"
proof -
  have i: "i = seg_start k + off" "off < seg_cap k" using locate_spec[OF assms(3)] by auto
  have "i < 2 ^ 32" using assms(1,2) by (simp add: slab_inv_def)
  then show k: "k < SEGS" using locate_bound assms(3) by fastforce
  then have "seg_ok s k" using assms(1) by (simp add: slab_inv_def)
  then show c: "\<exists>cells sl. segs s ! k = Some cells \<and> length cells = seg_cap k \<and> cells ! off = Some sl"
    using i assms(2) by (fastforce simp: seg_ok_def split: option.splits)
  show "slot_ptr s i = Ok (k, off)"
    using c i k assms by (auto simp: slot_ptr_def Let_def slab_inv_def)
qed

lemma slab_get_view:
  "slab_inv s \<Longrightarrow> slab_get s i = (if i < slab_len s then Ok (slab_view s ! i) else Err (OutOfRange i (slab_len s)))"
proof (cases "i < slab_len s")
  case True
  assume inv: "slab_inv s"
  obtain k off where l: "locate i = (k, off)" by fastforce
  obtain sl where "slab_get s i = Ok sl"
    using slab_cell(2,3)[OF inv True l] by (auto simp: slab_get_def)
  then show ?thesis using True by (simp add: slab_view_def)
qed (simp add: slab_get_def slot_ptr_def)

text \<open>Cell by cell: a change of one segment keeps the invariant and the rest of the view.\<close>

lemma slab_get_cell:
  assumes "slab_inv s" "off < seg_cap k" "seg_start k + off < slab_len s"
  shows "slab_view s ! (seg_start k + off) = the (the (segs s ! k) ! off)"
proof -
  have l: "locate (seg_start k + off) = (k, off)" using assms(2) by (rule locate_seg)
  show ?thesis
    using slab_cell[OF assms(1,3) l] slab_get_view[OF assms(1), of "seg_start k + off"] assms(3)
    by (auto simp: slab_get_def)
qed

lemma slab_view_eqI:
  assumes "slab_inv s" "length xs = slab_len s"
    and "\<And>k off. off < seg_cap k \<Longrightarrow> seg_start k + off < slab_len s \<Longrightarrow>
      the (the (segs s ! k) ! off) = xs ! (seg_start k + off)"
  shows "slab_view s = xs"
proof (rule nth_equalityI)
  fix i assume i: "i < length (slab_view s)"
  obtain k off where "locate i = (k, off)" by fastforce
  from locate_spec[OF this] show "slab_view s ! i = xs ! i"
    using slab_get_cell[OF assms(1), of off k] assms(3)[of off k] i by simp
qed (use assms in simp)

lemma seg_index_inj:
  assumes "off < seg_cap k" "off' < seg_cap k'" "seg_start k + off = seg_start k' + off'"
  shows "k = k' \<and> off = off'"
  using locate_seg[OF assms(1)] locate_seg[OF assms(2)] unfolding assms(3) by auto

lemma slab_put_view:
  assumes "slab_inv s" "i < slab_len s"
  shows "\<exists>s'. slab_put s i sl = Ok s' \<and> slab_inv s' \<and> slab_view s' = (slab_view s)[i := sl] \<and>
    slab_len s' = slab_len s \<and> slab_id s' = slab_id s"
proof -
  obtain k off where l: "locate i = (k, off)" by fastforce
  note i = locate_spec[OF l]
  obtain cells where c: "k < SEGS" "segs s ! k = Some cells" "length cells = seg_cap k" "slot_ptr s i = Ok (k, off)"
    using slab_cell[OF assms l] by blast
  let ?s = "s\<lparr>segs := (segs s)[k := Some (cells[off := Some sl])]\<rparr>"
  have ok: "seg_ok ?s j" if "j < SEGS" for j
    using assms that c(1-3) i by (cases "j = k") (auto simp: slab_inv_def seg_ok_def nth_list_update split: option.splits)
  then have inv: "slab_inv ?s" using assms(1) by (simp add: slab_inv_def)
  have "slab_view ?s = (slab_view s)[i := sl]"
  proof (rule slab_view_eqI[OF inv])
    fix k' off' assume a: "off' < seg_cap k'" "seg_start k' + off' < slab_len ?s"
    have "k' < SEGS" using slab_cell(1)[OF assms(1)] a locate_seg[OF a(1)] by auto
    moreover have "length (segs s) = SEGS" using assms(1) by (simp add: slab_inv_def)
    ultimately show "the (the (segs ?s ! k') ! off') = (slab_view s)[i := sl] ! (seg_start k' + off')"
      using a c(1-3) i assms slab_get_cell[OF assms(1) a(1)] seg_index_inj[OF a(1) i(2)]
      by (cases "k' = k") (auto simp: nth_list_update)
  qed simp
  then show ?thesis using c inv by (simp add: slab_put_def)
qed

lemma write_holes_length [simp]: "length (write_holes off n cells) = length cells"
  by (induction n arbitrary: off cells) auto

lemma write_holes_nth:
  "j < length cells \<Longrightarrow> write_holes off n cells ! j = (if off \<le> j \<and> j < off + n then Some None else cells ! j)"
  by (induction n arbitrary: off cells) (auto simp: nth_list_update)

lemma push_holes_view:
  assumes "slab_inv s" "slab_len s < 2 ^ 32"
  shows "\<exists>s' n. push_holes s mx (SlabAppend (slab_id s)) = Ok (s', slab_len s, slab_len s + n) \<and> 1 \<le> n \<and>
     n \<le> max mx 1 \<and> slab_inv s' \<and> slab_view s' = slab_view s @ replicate n None \<and>
     slab_len s' = slab_len s + n \<and> slab_id s' = slab_id s"
proof -
  let ?len = "slab_len s"
  obtain k off where l: "locate ?len = (k, off)" by fastforce
  note i = locate_spec[OF l]
  have k: "k < SEGS" "length (segs s) = SEGS" using locate_bound[OF assms(2)] l assms(1) by (auto simp: slab_inv_def)
  have segok: "\<And>j. j < SEGS \<Longrightarrow> seg_ok s j" using assms(1) by (simp add: slab_inv_def)
  define n where "n = (if ?len < LOW_SLOTS then 1 else max (min mx (seg_cap k - off)) 1)"
  have n: "1 \<le> n" "n \<le> max mx 1" "off + n \<le> seg_cap k" using i(2) by (auto simp: n_def)
  define cells where "cells = (if off = 0 then replicate (seg_cap k) None else the (segs s ! k))"
  have cells: "(if off = 0 then Some (replicate (seg_cap k) None) else segs s ! k) = Some cells"
    "length cells = seg_cap k" "\<And>j. j < off \<Longrightarrow> cells ! j \<noteq> None \<and> segs s ! k = Some cells" "\<And>j. off \<le> j \<Longrightarrow> j < seg_cap k \<Longrightarrow> cells ! j = None"
    using segok[OF k(1)] i by (auto simp: cells_def seg_ok_def split: option.splits if_splits)
  let ?s = "s\<lparr>segs := (segs s)[k := Some (write_holes off n cells)], slab_len := ?len + n\<rparr>"
  have res: "push_holes s mx (SlabAppend (slab_id s)) = Ok (?s, ?len, ?len + n)"
    using assms(2) cells(1) unfolding push_holes_def by (simp add: l Let_def n_def)
  have end_le: "?len + n \<le> seg_start k + seg_cap k" using i(1) n(3) by simp
  have ok: "seg_ok ?s j" if j: "j < SEGS" for j
  proof (cases j k rule: linorder_cases)
    case less
    then have "seg_start j + seg_cap j \<le> ?len" using seg_start_mono[of j k] i(1) by simp
    then show ?thesis using segok[OF j] less k seg_cap_pos[of j]
      by (auto simp: seg_ok_def simp del: seg_cap_pos split: option.splits)
  next
    case equal
    then show ?thesis using cells(2-4) i n k by (auto simp: seg_ok_def write_holes_nth not_less)
  next
    case greater
    then have "?len + n \<le> seg_start j" using seg_start_mono[of k j] end_le by simp
    then show ?thesis using segok[OF j] greater k by (auto simp: seg_ok_def split: option.splits)
  qed
  have "seg_start k + seg_cap k \<le> 2 ^ 32"
    unfolding seg_end using k(1) by (intro power_increasing) (simp_all add: SEGS_def FIRST_BITS_def)
  then have inv: "slab_inv ?s" using ok k end_le by (simp add: slab_inv_def)
  have "slab_view ?s = slab_view s @ replicate n None"
  proof (rule slab_view_eqI[OF inv])
    fix k' off' assume a: "off' < seg_cap k'" "seg_start k' + off' < slab_len ?s"
    have k': "k' < SEGS" using slab_cell(1)[OF inv] a locate_seg[OF a(1)] by auto
    show "the (the (segs ?s ! k') ! off') = (slab_view s @ replicate n None) ! (seg_start k' + off')"
    proof (cases "seg_start k' + off' < ?len")
      case True
      have "the (segs ?s ! k') ! off' = the (segs s ! k') ! off'"
        using True k k' i cells(2,3) a(1) by (cases "k' = k") (auto simp: write_holes_nth)
      then show ?thesis using True slab_get_cell[OF assms(1) a(1) True] by (simp add: nth_append)
    next
      case False
      have "k' = k"
      proof (cases k' k rule: linorder_cases)
        case less
        then show ?thesis using seg_start_mono[of k' k] False a(1) i(1) by simp
      next
        case greater
        then show ?thesis using seg_start_mono[of k k'] a(2) end_le by simp
      qed
      then show ?thesis using False a k cells(2) i by (auto simp: write_holes_nth nth_append)
    qed
  qed simp
  then show ?thesis using res n inv by (intro exI[of _ ?s] exI[of _ n]) simp
qed

lemma seg_raw_view:
  assumes "slab_inv s" "seg_start k < slab_len s"
  shows "seg_raw s k = map Some (take (seg_cap k) (drop (seg_start k) (slab_view s)))"
proof (rule nth_equalityI)
  obtain cells where c: "segs s ! k = Some cells" "length cells = seg_cap k"
    using slab_cell(2)[OF assms(1), of "seg_start k" k 0] locate_seg[OF seg_cap_pos, of k] assms(2) by auto
  show len: "length (seg_raw s k) = length (map Some (take (seg_cap k) (drop (seg_start k) (slab_view s))))"
    using c by (simp add: seg_raw_def seg_len_def)
  fix off assume a: "off < length (seg_raw s k)"
  then have off: "off < seg_cap k" "seg_start k + off < slab_len s" using c by (auto simp: seg_raw_def seg_len_def)
  have "cells ! off \<noteq> None"
    using slab_cell(2)[OF assms(1) off(2) locate_seg[OF off(1)]] c by auto
  then show "seg_raw s k ! off = map Some (take (seg_cap k) (drop (seg_start k) (slab_view s))) ! off"
    using slab_get_cell[OF assms(1) off] off c by (simp add: seg_raw_def seg_len_def)
qed

lemma seg_count_covers: "slab_len s \<le> seg_start (seg_count (slab_len s))"
proof (cases "slab_len s")
  case (Suc n)
  obtain k off where l: "locate n = (k, off)" by fastforce
  from locate_spec[OF l] show ?thesis using Suc l seg_start_mono[of k "Suc k"] by (simp add: seg_count_def)
qed simp

lemma seg_count_started: "k < seg_count len \<Longrightarrow> seg_start k < len"
proof -
  assume k: "k < seg_count len"
  then obtain m off where l: "locate (len - 1) = (m, off)" "k \<le> m" "0 < len"
    by (cases "locate (len - 1)") (auto simp: seg_count_def split: if_splits)
  have "seg_start k \<le> seg_start m" using seg_start_mono[of k m] l(2) by (cases "k = m") auto
  then show ?thesis using locate_spec(1)[OF l(1)] l(3) by simp
qed

lemma slab_iter_view: "slab_inv s \<Longrightarrow> slab_iter s = map Some (slab_view s)"
proof -
  assume inv: "slab_inv s"
  have "concat (map (seg_raw s) [0..<m]) = map Some (take (seg_start m) (slab_view s))"
    if "m \<le> seg_count (slab_len s)" for m
    using that
  proof (induction m)
    case (Suc m)
    have "seg_start (Suc m) = seg_start m + seg_cap m" by (simp add: seg_end)
    then show ?case using Suc seg_raw_view[OF inv seg_count_started[of m]] by (simp add: take_add)
  qed simp
  then show ?thesis using seg_count_covers[of s] by (simp add: slab_iter_def)
qed

subsection \<open>The bitset is a set of slots\<close>

definition bits_inv :: "slot_bits \<Rightarrow> bool" where
  "bits_inv b =
     (case table b of
        None \<Rightarrow> True
      | Some t \<Rightarrow> length t = SEGS \<and> (\<forall>k < SEGS. \<forall>ws. t ! k = Some ws \<longrightarrow> length ws = seg_words k))"

definition bit_set :: "slot_bits \<Rightarrow> nat set" where
  "bit_set b = {i. i < 2 ^ 32 \<and> bits_get b i}"

text \<open>The word a slot's bit is in: its address, and the load from it.\<close>

definition word_addr :: "nat \<Rightarrow> (nat \<times> nat) option" where
  "word_addr i = (if i < 64 then None else Some (fst (locate i), snd (locate i) div 64))"

definition bits_load :: "slot_bits \<Rightarrow> nat \<Rightarrow> u64 option" where
  "bits_load b i =
     (case word_addr i of
        None \<Rightarrow> Some (low b)
      | Some (k, m) \<Rightarrow> map_option (\<lambda>ws. ws ! m) (bits_words b k))"

lemma seg_aligned:
  assumes "64 \<le> i" "locate i = (k, off)"
  shows "64 dvd seg_start k" "off div 64 < seg_words k" "off mod 64 = i mod 64"
    "off div 64 = i div 64 - seg_start k div 64"
proof -
  note i = locate_spec[OF assms(2)]
  have "\<not> k < 5"
  proof
    assume "k < 5"
    then have "seg_start k + seg_cap k \<le> seg_start 5" by (rule seg_start_mono)
    then show False using assms(1) i by (simp add: numeral_eq_Suc)
  qed
  then have "k = Suc (k - 5 + 4)" by simp
  then obtain m where m: "k = Suc (m + 4)" by blast
  then have c: "seg_start k = 64 * 2 ^ m" "seg_cap k = 64 * 2 ^ m"
    by (simp_all only: seg_start_simps seg_cap_simps) (simp_all add: power_add)
  show "64 dvd seg_start k" by (simp add: c)
  show "off mod 64 = i mod 64" "off div 64 = i div 64 - seg_start k div 64" by (simp_all add: i(1) c)
  have "off div 64 < 2 ^ m" using i(2) by (simp add: c less_mult_imp_div_less mult.commute)
  moreover have "seg_words k = 2 ^ m" by (simp add: seg_words_def c)
  ultimately show "off div 64 < seg_words k" by simp
qed

lemma bits_word_load: "bits_word b i = map_option (\<lambda>w. (w, push_bit (i mod 64) 1)) (bits_load b i)"
proof (cases "i < 64")
  case False
  obtain k off where l: "locate i = (k, off)" by fastforce
  then show ?thesis using False seg_aligned(3)[OF _ l]
    by (auto simp: bits_word_def bits_load_def word_addr_def LOW_SLOTS_def split: option.splits)
qed (simp add: bits_word_def bits_load_def word_addr_def LOW_SLOTS_def)

lemma and_bit_mask: "(w :: u64) AND 2 ^ n = 0 \<longleftrightarrow> \<not> bit w n"
  using bit_iff_and_push_bit_not_eq_0[of w n] by simp

lemma bits_get_load: "bits_get b i \<longleftrightarrow> (\<exists>w. bits_load b i = Some w \<and> bit w (i mod 64))"
  by (auto simp: bits_get_def bits_word_load and_bit_mask split: option.splits)

lemma word_addr_inj: "word_addr i = word_addr j \<Longrightarrow> i mod 64 = j mod 64 \<Longrightarrow> i = j"
proof (cases "i < 64")
  case False
  assume a: "word_addr i = word_addr j" "i mod 64 = j mod 64"
  then have j: "\<not> j < 64" using False by (auto simp: word_addr_def split: if_splits)
  obtain k off k' off' where l: "locate i = (k, off)" "locate j = (k', off')" by (cases "locate i"; cases "locate j")
  have k: "k = k'" "off div 64 = off' div 64" using a False j l by (auto simp: word_addr_def)
  have "off mod 64 = off' mod 64" using seg_aligned(3)[OF _ l(1)] seg_aligned(3)[OF _ l(2)] False j a(2) by simp
  then have "off = off'" using k(2) by (metis div_mult_mod_eq)
  then show "i = j" using locate_spec(1)[OF l(1)] locate_spec(1)[OF l(2)] k by simp
qed (auto simp: word_addr_def split: if_splits)

lemma bits_words_bound:
  assumes "bits_inv b" "bits_words b k = Some ws" "k < SEGS"
  shows "length ws = seg_words k" "\<exists>t. table b = Some t \<and> length t = SEGS \<and> t ! k = Some ws"
  using assms by (auto simp: bits_inv_def bits_words_def split: option.splits)

lemma slot_addr:
  assumes "i < 2 ^ 32" "word_addr i = Some (k, m)"
  shows "k < SEGS" "m < seg_words k"
proof -
  obtain j off where l: "locate i = (j, off)" by fastforce
  have "64 \<le> i" using assms(2) by (simp add: word_addr_def split: if_splits)
  then show "k < SEGS" "m < seg_words k"
    using locate_bound[OF assms(1)] seg_aligned(2)[OF _ l] assms(2) l by (auto simp: word_addr_def)
qed

lemma store_word_load:
  assumes "bits_inv b" "i < 2 ^ 32" "bits_load b i = Some v"
  shows "bits_inv (store_word b i w)"
    "bits_load (store_word b i w) j = (if word_addr j = word_addr i then Some w else bits_load b j)"
proof -
  have "bits_inv (store_word b i w) \<and>
    bits_load (store_word b i w) j = (if word_addr j = word_addr i then Some w else bits_load b j)"
  proof (cases "word_addr i")
    case None
    then show ?thesis using assms(1)
      by (auto simp: store_word_def word_addr_def bits_load_def bits_inv_def bits_words_def LOW_SLOTS_def
          split: if_splits option.splits)
  next
    case (Some km)
    obtain k m where km: "km = (k, m)" by fastforce
    have i: "\<not> i < 64" "fst (locate i) = k" "snd (locate i) div 64 = m"
      using Some by (auto simp: km word_addr_def split: if_splits)
    note kb = slot_addr[OF assms(2) Some[unfolded km]]
    obtain ws where ws: "bits_words b k = Some ws" using assms(3) by (auto simp: bits_load_def Some km)
    obtain t where t: "table b = Some t" "length t = SEGS" "t ! k = Some ws" "length ws = seg_words k"
      using bits_words_bound[OF assms(1) ws kb(1)] by blast
    have st: "store_word b i w = b\<lparr>table := Some (t[k := Some (ws[m := w])])\<rparr>"
      using i ws t(1) by (auto simp: store_word_def LOW_SLOTS_def table_or_alloc_def split: prod.splits)
    show ?thesis
      using assms(1) t kb ws Some
      by (auto simp: st km bits_load_def bits_inv_def bits_words_def nth_list_update split: option.splits)
  qed
  then show "bits_inv (store_word b i w)"
    "bits_load (store_word b i w) j = (if word_addr j = word_addr i then Some w else bits_load b j)" by blast+
qed

lemma alloc_words_load:
  assumes "bits_inv b" "k < SEGS" "bits_words b k = None"
  shows "bits_inv (alloc_words b k)" "bits_words (alloc_words b k) k = Some (replicate (seg_words k) 0)"
    "j \<noteq> k \<Longrightarrow> j < SEGS \<Longrightarrow> bits_words (alloc_words b k) j = bits_words b j" "low (alloc_words b k) = low b"
  using assms
  by (auto simp: alloc_words_def table_or_alloc_def bits_inv_def bits_words_def Let_def nth_list_update
      split: option.splits)

lemma word_or_alloc_load:
  assumes "bits_inv b" "i < 2 ^ 32"
  obtains b' w where "word_or_alloc b i = (b', w, push_bit (i mod 64) 1)" "bits_inv b'" "bits_load b' i = Some w"
    "\<And>j. j < 2 ^ 32 \<Longrightarrow> bits_get b' j = bits_get b j"
proof (cases "bits_load b i")
  case (Some w)
  then show ?thesis using that[of b w] assms by (simp add: word_or_alloc_def bits_word_load)
next
  case None
  obtain k off where l: "locate i = (k, off)" by fastforce
  have i: "\<not> i < 64" using None by (auto simp: bits_load_def word_addr_def)
  have k: "k < SEGS" using locate_bound[OF assms(2)] l by simp
  have n: "bits_words b k = None" using None i l by (auto simp: bits_load_def word_addr_def)
  have off: "off div 64 < seg_words k" "off mod 64 = i mod 64" using seg_aligned[OF _ l] i by auto
  let ?b = "alloc_words b k"
  note a = alloc_words_load[OF assms(1) k n]
  show ?thesis
  proof (rule that[of ?b 0])
    show "word_or_alloc b i = (?b, 0, push_bit (i mod 64) 1)"
      using None l a(2) off by (simp add: word_or_alloc_def bits_word_load)
    show "bits_load ?b i = Some 0" using i l a(2) off by (simp add: bits_load_def word_addr_def)
    show "bits_get ?b j = bits_get b j" if j: "j < 2 ^ 32" for j
    proof (cases "word_addr j")
      case None
      then show ?thesis using a(4) by (simp add: bits_get_load bits_load_def)
    next
      case (Some km)
      obtain k' m where km: "km = (k', m)" by fastforce
      note kb = slot_addr[OF j Some[unfolded km]]
      show ?thesis
        using a(2) a(3)[of k'] n kb Some by (cases "k' = k") (auto simp: bits_get_load bits_load_def km)
    qed
  qed (use a in simp)
qed

lemma set_owned_get:
  assumes "bits_inv b" "i < 2 ^ 32"
  shows "bits_inv (fst (set_owned b i))" "snd (set_owned b i) \<longleftrightarrow> \<not> bits_get b i"
    "j < 2 ^ 32 \<Longrightarrow> bits_get (fst (set_owned b i)) j \<longleftrightarrow> j = i \<or> bits_get b j"
proof -
  obtain b' w where w: "word_or_alloc b i = (b', w, push_bit (i mod 64) 1)" "bits_inv b'" "bits_load b' i = Some w"
    "\<And>j. j < 2 ^ 32 \<Longrightarrow> bits_get b' j = bits_get b j" using word_or_alloc_load[OF assms] by metis
  note st = store_word_load[OF w(2) assms(2) w(3)]
  show "bits_inv (fst (set_owned b i))" using st(1) by (simp add: set_owned_def w(1))
  show "snd (set_owned b i) \<longleftrightarrow> \<not> bits_get b i"
    using w(3) w(4)[OF assms(2)] by (auto simp: and_bit_mask set_owned_def w(1) bits_get_load)
  show "bits_get (fst (set_owned b i)) j \<longleftrightarrow> j = i \<or> bits_get b j" if "j < 2 ^ 32"
  proof (cases "word_addr j = word_addr i")
    case True
    then have "bits_load b' j = Some w" using w(3) by (simp add: bits_load_def)
    moreover have "i mod 64 < 64" by simp
    ultimately show ?thesis
      using True word_addr_inj[of j i] st(2)[of _ j] w(4)[OF that, symmetric]
      by (auto simp: set_owned_def w(1) bits_get_load bit_or_iff bit_exp_iff)
  next
    case False
    then show ?thesis using st(2)[of _ j] w(4)[OF that] by (auto simp: set_owned_def w(1) bits_get_load)
  qed
qed

lemma bits_clear_get:
  assumes "bits_inv b" "i < 2 ^ 32"
  shows "bits_inv (bits_clear b i)" "bits_get (bits_clear b i) j \<longleftrightarrow> j \<noteq> i \<and> bits_get b j"
proof -
  have "bits_inv (bits_clear b i) \<and> (bits_get (bits_clear b i) j \<longleftrightarrow> j \<noteq> i \<and> bits_get b j)"
  proof (cases "bits_load b i")
    case None
    then show ?thesis using assms by (auto simp: bits_clear_def bits_word_load bits_get_load)
  next
    case (Some w)
    note st = store_word_load[OF assms Some]
    have j: "bits_load b j = Some w" if "word_addr j = word_addr i" using that Some by (simp add: bits_load_def)
    have "j mod 64 < 64" by simp
    then show ?thesis using Some st(1) st(2)[of _ j] word_addr_inj[of j i] j
      by (cases "word_addr j = word_addr i")
         (auto simp: bits_clear_def bits_word_load bits_get_load bit_and_iff bit_not_iff bit_exp_iff)
  qed
  then show "bits_inv (bits_clear b i)" "bits_get (bits_clear b i) j \<longleftrightarrow> j \<noteq> i \<and> bits_get b j" by blast+
qed

text \<open>The sweep reads the bits of a segment by word and bit number instead.\<close>

lemma segment_words_get:
  assumes "bits_inv b" "idx = seg_start k + off" "off < seg_cap k" "idx < 2 ^ 32"
  shows "bits_get b idx \<longleftrightarrow>
    (let ws = segment_words b (seg_start k); m = idx div 64 - seg_start k div 64
     in m < length ws \<and> ws ! m AND push_bit (idx mod 64) 1 \<noteq> 0)"
proof -
  have l: "locate idx = (k, off)" "locate (seg_start k) = (k, 0)"
    using locate_seg[OF assms(3)] locate_seg[of 0 k] assms(2) by auto
  show ?thesis
  proof (cases "seg_start k < 64")
    case True
    then have "seg_start k + seg_cap k \<le> 64"
    proof (cases "k \<le> 4")
      case True
      then have "(2 :: nat) ^ (k + 2) \<le> 2 ^ 6" by (intro power_increasing) auto
      then show ?thesis by (simp add: seg_end)
    next
      case False
      then have "seg_start 4 + seg_cap 4 \<le> seg_start k" by (intro seg_start_mono) simp
      then show ?thesis using True by (simp add: seg_end)
    qed
    then show ?thesis using True assms(2,3)
      by (simp add: and_bit_mask bits_get_load bits_load_def word_addr_def segment_words_def LOW_SLOTS_def)
  next
    case False
    then have idx: "64 \<le> idx" using assms(2) by simp
    note al = seg_aligned[OF idx l(1)]
    have k: "k < SEGS" using locate_bound[OF assms(4)] l by simp
    have ld: "bits_load b idx = map_option (\<lambda>ws. ws ! (off div 64)) (bits_words b k)"
      using idx l by (simp add: bits_load_def word_addr_def)
    have sw: "segment_words b (seg_start k) = (case bits_words b k of Some ws \<Rightarrow> ws | None \<Rightarrow> [])"
      using False l by (simp add: segment_words_def LOW_SLOTS_def)
    show ?thesis using al bits_words_bound(1)[OF assms(1) _ k]
      by (auto simp: and_bit_mask bits_get_load ld sw Let_def split: option.splits)
  qed
qed

lemma bits_default_empty: "bits_inv bits_default" "bit_set bits_default = {}"
  by (auto simp: bits_inv_def bit_set_def bits_default_def bits_get_load bits_load_def bits_words_def
      split: option.splits)

subsection \<open>What the heap relies on\<close>

text \<open>
  A store of slots, seen as a list: a lookup answers the list's entry or refuses a number past the
  end, a store changes one entry, an append adds empty entries at the end.
\<close>

locale slot_store =
  fixes inv :: "'s \<Rightarrow> bool"
    and view :: "'s \<Rightarrow> 'o option list"
    and fetch :: "'s \<Rightarrow> nat \<Rightarrow> ('o option, slab_fault) result"
    and put :: "'s \<Rightarrow> nat \<Rightarrow> 'o option \<Rightarrow> ('s, slab_fault) result"
    and grow :: "'s \<Rightarrow> nat \<Rightarrow> ('s \<times> nat \<times> nat, slab_fault) result"
    and room :: nat
  assumes fetch_view: "inv s \<Longrightarrow>
      fetch s i = (if i < length (view s) then Ok (view s ! i) else Err (OutOfRange i (length (view s))))"
    and put_view: "inv s \<Longrightarrow> i < length (view s) \<Longrightarrow>
      \<exists>s'. put s i sl = Ok s' \<and> inv s' \<and> view s' = (view s)[i := sl]"
    and grow_view: "inv s \<Longrightarrow> length (view s) < room \<Longrightarrow>
      \<exists>s' n. grow s mx = Ok (s', length (view s), length (view s) + n) \<and> 1 \<le> n \<and> n \<le> max mx 1 \<and> inv s' \<and>
        view s' = view s @ replicate n None"
    and room_bound: "inv s \<Longrightarrow> length (view s) \<le> room"
begin

lemma put_ok:
  assumes "inv s" "i < length (view s)" "put s i sl = Ok s'"
  shows "inv s'" "view s' = (view s)[i := sl]"
  using put_view[OF assms(1,2), of sl] assms(3) by auto

lemma fetch_put_same:
  assumes "inv s" "i < length (view s)" "put s i sl = Ok s'"
  shows "fetch s' i = Ok sl"
  using put_ok[OF assms] assms(2) by (simp add: fetch_view)

lemma fetch_put_other:
  assumes "inv s" "i < length (view s)" "put s i sl = Ok s'" "j \<noteq> i"
  shows "fetch s' j = fetch s j"
  using put_ok[OF assms(1-3)] assms(1,4) by (simp add: fetch_view)

lemma grow_keeps:
  assumes "inv s" "grow s mx = Ok (s', a, b)" "length (view s) < room"
  shows "inv s'" "a = length (view s)" "a < b" "b - a \<le> max mx 1" "view s' = view s @ replicate (b - a) None"
  using grow_view[OF assms(1,3), of mx] assms(2) by auto

end

text \<open>A plane of bits, seen as a set of slot numbers below a bound.\<close>

locale bit_plane =
  fixes binv :: "'b \<Rightarrow> bool"
    and members :: "'b \<Rightarrow> nat set"
    and getb :: "'b \<Rightarrow> nat \<Rightarrow> bool"
    and setb :: "'b \<Rightarrow> nat \<Rightarrow> 'b \<times> bool"
    and clearb :: "'b \<Rightarrow> nat \<Rightarrow> 'b"
    and bound :: nat
  assumes members_iff: "i \<in> members b \<longleftrightarrow> i < bound \<and> getb b i"
    and setb_law: "binv b \<Longrightarrow> i < bound \<Longrightarrow> binv (fst (setb b i)) \<and> (snd (setb b i) \<longleftrightarrow> \<not> getb b i) \<and>
      (\<forall>j < bound. getb (fst (setb b i)) j \<longleftrightarrow> j = i \<or> getb b j)"
    and clearb_law: "binv b \<Longrightarrow> i < bound \<Longrightarrow> binv (clearb b i) \<and> (\<forall>j < bound. getb (clearb b i) j \<longleftrightarrow> j \<noteq> i \<and> getb b j)"
begin

lemma set_members:
  assumes "binv b" "i < bound"
  shows "members (fst (setb b i)) = insert i (members b)" "snd (setb b i) \<longleftrightarrow> i \<notin> members b" "binv (fst (setb b i))"
  using setb_law[OF assms] assms(2) by (auto simp: members_iff)

lemma clear_members:
  assumes "binv b" "i < bound"
  shows "members (clearb b i) = members b - {i}" "binv (clearb b i)"
  using clearb_law[OF assms] by (auto simp: members_iff)

text \<open>Setting a fresh bit leaves fewer bits to set, which is why a marking loop ends.\<close>

lemma set_fresh_decreases:
  assumes "binv b" "i < bound" "snd (setb b i)"
  shows "card ({..<bound} - members (fst (setb b i))) < card ({..<bound} - members b)"
proof (rule psubset_card_mono)
  show "{..<bound} - members (fst (setb b i)) \<subset> {..<bound} - members b"
    using set_members[OF assms(1,2)] assms(2,3) by auto
qed simp

end

interpretation slab_store:
  slot_store slab_inv slab_view slab_get slab_put "\<lambda>s mx. push_holes s mx (SlabAppend (slab_id s))" "2 ^ 32"
proof
  fix s :: "'o slab" and i mx and sl :: "'o slot"
  assume inv: "slab_inv s"
  show "slab_get s i = (if i < length (slab_view s) then Ok (slab_view s ! i) else Err (OutOfRange i (length (slab_view s))))"
    using slab_get_view[OF inv] by simp
  show "\<exists>s'. slab_put s i sl = Ok s' \<and> slab_inv s' \<and> slab_view s' = (slab_view s)[i := sl]"
    if "i < length (slab_view s)"
    using slab_put_view[OF inv] that by (metis slab_view_length)
  show "\<exists>s' n. push_holes s mx (SlabAppend (slab_id s)) = Ok (s', length (slab_view s), length (slab_view s) + n) \<and>
      1 \<le> n \<and> n \<le> max mx 1 \<and> slab_inv s' \<and> slab_view s' = slab_view s @ replicate n None"
    if "length (slab_view s) < 2 ^ 32"
    using push_holes_view[OF inv, of mx] that by (metis slab_view_length)
  show "length (slab_view s) \<le> 2 ^ 32" using inv by (simp add: slab_inv_def)
qed

interpretation marks_plane: bit_plane bits_inv bit_set bits_get set_owned bits_clear "2 ^ 32"
  by unfold_locales (simp_all add: bit_set_def set_owned_get bits_clear_get)

text \<open>
  C14. The segmented slab is a list that only grows at its end: a slot number finds the slot the list
  has at that position and a number past the end is refused, a store changes that one slot, appended
  slots come after all earlier ones and leave them where they are, and the iterator lists every slot
  once, in order. No operation reads a cell that was never written.
\<close>

theorem slab_refines_list:
  assumes "slab_inv s" "i < slab_len s" "slab_len s < 2 ^ 32"
  shows "slab_get s i = Ok (slab_view s ! i) \<and> slab_get s (slab_len s + j) = Err (OutOfRange (slab_len s + j) (slab_len s)) \<and>
    slab_iter s = map Some (slab_view s) \<and>
    (\<exists>s'. slab_put s i sl = Ok s' \<and> slab_inv s' \<and> slab_view s' = (slab_view s)[i := sl]) \<and>
    (\<exists>s' n. push_holes s mx (SlabAppend (slab_id s)) = Ok (s', slab_len s, slab_len s + n) \<and>
       1 \<le> n \<and> n \<le> max mx 1 \<and> slab_inv s' \<and> slab_view s' = slab_view s @ replicate n None)"
  using slab_store.fetch_view[OF assms(1)] slab_store.put_view[OF assms(1), of i sl]
    slab_store.grow_view[OF assms(1), of mx] assms slab_iter_view[OF assms(1)]
  by simp

definition one_hole :: "nat slab" where
  "one_hole = (case push_holes (fst (slab_new 7)) 64 (SlabAppend 7) of Inr (s, _) \<Rightarrow> s | Inl _ \<Rightarrow> fst (slab_new 7))"

lemma one_hole_facts:
  "slab_inv one_hole" "slab_len one_hole = 1" "slab_id one_hole = 7" "slab_view one_hole = [None]"
proof -
  let ?s = "fst (slab_new 7) :: nat slab"
  have new: "slab_id ?s = 7" "slab_len ?s = 0" by (simp_all add: slab_new_def)
  have inv: "slab_inv ?s" "slab_view ?s = []" by (rule slab_inv_new)+
  obtain s' n where p: "push_holes ?s 64 (SlabAppend 7) = Ok (s', 0, n)" "slab_inv s'"
    "slab_view s' = replicate n None" "slab_len s' = n" "slab_id s' = 7"
    using push_holes_view[OF inv(1), of 64] new inv(2) by auto
  have o: "one_hole = s'" by (simp add: one_hole_def p(1))
  have "n = 1" using p(1) by (auto simp: push_holes_def new Let_def LOW_SLOTS_def split: prod.splits if_splits option.splits)
  then show "slab_inv one_hole" "slab_len one_hole = 1" "slab_id one_hole = 7" "slab_view one_hole = [None]"
    using p by (simp_all add: o)
qed

theorem slab_refines_list_witness:
  "(\<exists>s'. slab_put one_hole 0 (Some 5) = Ok s' \<and> slab_inv s' \<and> slab_view s' = [Some 5]) \<and>
   (\<exists>s' n. push_holes one_hole 64 (SlabAppend 7) = Ok (s', 1, 1 + n) \<and> slab_view s' = None # replicate n None)"
proof -
  have "0 < slab_len one_hole" "slab_len one_hole < 2 ^ 32" by (simp_all add: one_hole_facts)
  from slab_refines_list[OF one_hole_facts(1) this, of 0 "Some 5" 64]
  show ?thesis by (auto simp: one_hole_facts)
qed

text \<open>
  The segmented bitset is a set of slot numbers: setting a bit adds its slot and tells whether it
  was absent, clearing removes that slot alone, whatever words and segments are allocated meanwhile,
  and the word-by-word view of one segment that the sweep reads shows the same bits.
\<close>

theorem slot_bits_refine_set:
  assumes "bits_inv b" "i < 2 ^ 32" "i = seg_start k + off" "off < seg_cap k"
  shows "bit_set (fst (set_owned b i)) = insert i (bit_set b) \<and> bits_inv (fst (set_owned b i)) \<and>
    (snd (set_owned b i) \<longleftrightarrow> i \<notin> bit_set b) \<and>
    bit_set (bits_clear b i) = bit_set b - {i} \<and> bits_inv (bits_clear b i) \<and> (bits_get b i \<longleftrightarrow> i \<in> bit_set b) \<and>
    (i \<in> bit_set b \<longleftrightarrow>
      (let ws = segment_words b (seg_start k); m = i div 64 - seg_start k div 64
       in m < length ws \<and> ws ! m AND push_bit (i mod 64) 1 \<noteq> 0))"
  using marks_plane.set_members[OF assms(1,2)] marks_plane.clear_members[OF assms(1,2)]
    segment_words_get[OF assms(1,3,4,2)] marks_plane.members_iff[of i b] assms(2)
  by simp

theorem slot_bits_refine_set_witness:
  "bit_set (fst (set_owned bits_default 1000)) = {1000} \<and> snd (set_owned bits_default 1000)"
proof -
  have k: "1000 = seg_start (Suc 7) + 488" "488 < seg_cap (Suc 7)" "(1000 :: nat) < 2 ^ 32"
    unfolding seg_start_simps seg_cap_simps by simp_all
  note r = slot_bits_refine_set[OF bits_default_empty(1) k(3,1,2), unfolded bits_default_empty(2)]
  show ?thesis using r[THEN conjunct1] r[THEN conjunct2, THEN conjunct2, THEN conjunct1] by blast
qed

end
