(* ===== verification/Heap.thy ===== *)
theory Heap
  imports HeapObj Slab
begin

text \<open>
  The heap of a run: the core that all handles share, \<^verbatim>\<open>src/src/vm/heap_core.rs\<close>, the handle of one
  virtual machine, \<^verbatim>\<open>src/src/vm/heap.rs\<close>, and the mark-sweep collection, \<^verbatim>\<open>Vm::collect_from\<close> in
  \<^verbatim>\<open>src/src/vm/frames.rs\<close>. A vector used as a stack has its top at the end of the list. A reference is
  its slot number. What a panic or an assertion stops is an error value.
\<close>

subsection \<open>The shared core\<close>

record span =
  sp_line :: u32
  sp_col :: u32
  sp_file :: u32

datatype heap_fault = Slab_Fault slab_fault | Dangling nat

definition MIN_GC_THRESHOLD :: nat where "MIN_GC_THRESHOLD = 256"
definition FREE_BATCH :: nat where "FREE_BATCH = 64"
definition FLUSH_EVERY :: nat where "FLUSH_EVERY = 256"
definition FLUSH_BYTES :: nat where "FLUSH_BYTES = 256 * 1024"
definition MIN_RETIRED_GOAL :: nat where "MIN_RETIRED_GOAL = 2 ^ 20"
definition USIZE_MAX :: nat where "USIZE_MAX = 2 ^ 64 - 1"

definition wrapping :: "nat \<Rightarrow> nat" where "wrapping n = n mod 2 ^ 64"
definition saturating :: "nat \<Rightarrow> nat" where "saturating n = min n USIZE_MAX"

text \<open>A retire list: the sizes of its blocks.\<close>

type_synonym retire_list = "nat list"

record heap_core =
  slots :: "obj slab"
  free :: "nat list"
  append_token :: slab_append
  marks :: slot_bits
  next_gc :: nat
  allocs :: nat
  charged :: nat
  peak_live_bytes :: nat
  mem_cap :: nat
  over_cap :: bool
  last_live_bytes :: nat
  err_spans :: "nat \<rightharpoonup> span"
  retired :: retire_list

definition core_default :: "nat \<Rightarrow> heap_core" where
  "core_default ident =
     (let (s, tok) = slab_new ident in
      \<lparr>slots = s, free = [], append_token = tok, marks = bits_default, next_gc = MIN_GC_THRESHOLD,
       allocs = 0, charged = 0, peak_live_bytes = 0, mem_cap = 0, over_cap = False, last_live_bytes = 0,
       err_spans = (\<lambda>_. None), retired = []\<rparr>)"

definition slab_op :: "('a, slab_fault) result \<Rightarrow> ('a, heap_fault) result" where
  "slab_op r = (case r of Inl e \<Rightarrow> Err (Slab_Fault e) | Inr x \<Rightarrow> Ok x)"

lemma slab_op_simps [simp]: "slab_op (Inl e) = Err (Slab_Fault e)" "slab_op (Inr x) = Ok x"
  by (simp_all add: slab_op_def)

definition reuse :: "heap_core \<Rightarrow> nat \<Rightarrow> obj \<Rightarrow> (heap_core \<times> nat, heap_fault) result" where
  "reuse c idx ob =
     bind_result (slab_op (slab_put (slots c) idx (Some ob))) (\<lambda>s.
       Ok (c\<lparr>slots := s,
             marks := (if bits_get (marks c) idx then bits_clear (marks c) idx else marks c)\<rparr>, idx))"

definition alloc_slot :: "heap_core \<Rightarrow> nat list \<Rightarrow> obj \<Rightarrow> (heap_core \<times> nat list \<times> nat, heap_fault) result" where
  "alloc_slot c cache ob =
     bind_result
       (if free c \<noteq> [] then
          (let idx = last (free c); rest = butlast (free c); from = length rest - (FREE_BATCH - 1)
           in Ok (c\<lparr>free := take from rest\<rparr>, cache @ drop from rest, idx))
        else
          bind_result (slab_op (push_holes (slots c) FREE_BATCH (append_token c))) (\<lambda>(s, start, stop).
            Ok (c\<lparr>slots := s\<rparr>, cache @ rev [start + 1..<stop], start)))
       (\<lambda>(c', cache', idx). bind_result (reuse c' idx ob) (\<lambda>(c'', h). Ok (c'', cache', h)))"

definition give_back :: "heap_core \<Rightarrow> nat list \<Rightarrow> heap_core" where
  "give_back c cache = (if cache \<noteq> [] then c\<lparr>free := free c @ cache\<rparr> else c)"

definition flush_allocs :: "heap_core \<Rightarrow> nat \<Rightarrow> heap_core \<times> nat" where
  "flush_allocs c n =
     (if n = 0 then (c, allocs c) else (c\<lparr>allocs := wrapping (allocs c + n)\<rparr>, wrapping (allocs c + n)))"

definition flush_bytes :: "heap_core \<Rightarrow> nat \<Rightarrow> heap_core \<times> nat" where
  "flush_bytes c n =
     (if n = 0 then (c, charged c) else (c\<lparr>charged := wrapping (charged c + n)\<rparr>, saturating (charged c + n)))"

definition core_mark :: "heap_core \<Rightarrow> nat \<Rightarrow> heap_core \<times> bool" where
  "core_mark c i = (let (b, fresh) = set_owned (marks c) i in (c\<lparr>marks := b\<rparr>, fresh))"

definition set_err_span :: "heap_core \<Rightarrow> nat \<Rightarrow> span \<Rightarrow> heap_core" where
  "set_err_span c r sp = c\<lparr>err_spans := (err_spans c)(r \<mapsto> sp)\<rparr>"

definition adopt_retired :: "heap_core \<Rightarrow> retire_list \<Rightarrow> heap_core" where
  "adopt_retired c blocks = c\<lparr>retired := retired c @ blocks\<rparr>"

definition record_live_bytes :: "heap_core \<Rightarrow> nat \<Rightarrow> heap_core" where
  "record_live_bytes c lb =
     c\<lparr>last_live_bytes := lb, peak_live_bytes := max (peak_live_bytes c) lb,
       over_cap := (mem_cap c \<noteq> 0 \<and> lb > mem_cap c)\<rparr>"

definition core_set_mem_cap :: "heap_core \<Rightarrow> nat \<Rightarrow> heap_core" where
  "core_set_mem_cap c cap = c\<lparr>mem_cap := cap, over_cap := False\<rparr>"

definition clear_over_cap :: "heap_core \<Rightarrow> heap_core" where
  "clear_over_cap c = c\<lparr>over_cap := False\<rparr>"

text \<open>
  The sweep: per slot of a segment, an empty one is skipped, a marked one is unmarked and counted,
  an unmarked one is emptied, pushed on the free list and loses its error span. The state is the
  core, the survivors so far and the graveyard.
\<close>

type_synonym sweep_state = "heap_core \<times> nat \<times> obj list"

fun sweep_slot :: "nat \<Rightarrow> nat \<times> obj slot option \<Rightarrow> sweep_state \<Rightarrow> (sweep_state, heap_fault) result" where
  "sweep_slot start (idx, None) (c, live, grave) = Err (Slab_Fault Undefined)"
| "sweep_slot start (idx, Some None) (c, live, grave) = Ok (c, live, grave)"
| "sweep_slot start (idx, Some (Some ob)) (c, live, grave) =
     (let ws = segment_words (marks c) start; m = idx div 64 - start div 64; b = push_bit (idx mod 64) 1
      in if m < length ws \<and> ws ! m AND b \<noteq> 0
         then Ok (c\<lparr>marks := store_word (marks c) idx (ws ! m AND NOT b)\<rparr>, live + 1, grave)
         else bind_result (slab_op (slab_put (slots c) idx None)) (\<lambda>s.
           Ok (c\<lparr>slots := s, free := free c @ [idx], err_spans := (err_spans c)(idx := None)\<rparr>, live,
               if is_arc_core ob then grave @ [ob] else grave)))"

fun sweep_cells :: "nat \<Rightarrow> (nat \<times> obj slot option) list \<Rightarrow> sweep_state \<Rightarrow> (sweep_state, heap_fault) result" where
  "sweep_cells start [] st = Ok st"
| "sweep_cells start (x # xs) st = bind_result (sweep_slot start x st) (sweep_cells start xs)"

fun sweep_segments :: "(nat \<times> obj slot option list) list \<Rightarrow> sweep_state \<Rightarrow> (sweep_state, heap_fault) result" where
  "sweep_segments [] st = Ok st"
| "sweep_segments ((start, seg) # rest) st =
     bind_result (sweep_cells start (zip [start..<start + length seg] seg) st) (sweep_segments rest)"

definition sweep_slots :: "heap_core \<Rightarrow> obj list \<Rightarrow> (heap_core \<times> obj list, heap_fault) result" where
  "sweep_slots c grave =
     bind_result (sweep_segments (segments_mut (slots c)) (c, 0, grave)) (\<lambda>(c', live, grave').
       Ok (c'\<lparr>retired := [], next_gc := max (live * 2) MIN_GC_THRESHOLD, allocs := 0, charged := 0\<rparr>, grave'))"

subsection \<open>A handle\<close>

record heap_handle =
  cache :: "nat list"
  since_gc :: nat
  gc_check_at :: nat
  since_gc_bytes :: nat
  pending_mut :: "(nat \<times> nat) option"
  graveyard :: "obj list"
  own_retired :: retire_list

definition fresh_handle :: heap_handle where
  "fresh_handle =
     \<lparr>cache = [], since_gc = 0, gc_check_at = 0, since_gc_bytes = 0, pending_mut = None, graveyard = [],
      own_retired = []\<rparr>"

definition drop_handle :: "heap_handle \<Rightarrow> heap_core \<Rightarrow> heap_core" where
  "drop_handle h c =
     (let c1 = fst (flush_allocs c (since_gc h));
          c2 = fst (flush_bytes c1 (since_gc_bytes h));
          c3 = give_back c2 (cache h)
      in adopt_retired c3 (own_retired h))"

definition heap_get :: "heap_core \<Rightarrow> nat \<Rightarrow> (obj, heap_fault) result" where
  "heap_get c h =
     bind_result (slab_op (slab_get (slots c) h)) (\<lambda>sl.
       case sl of Some ob \<Rightarrow> Ok ob | None \<Rightarrow> Err (Dangling h))"

definition charge_own :: "heap_handle \<Rightarrow> nat \<Rightarrow> heap_handle" where
  "charge_own h n =
     (let held = saturating (since_gc_bytes h + n)
      in h\<lparr>since_gc_bytes := held, gc_check_at := (if held \<ge> FLUSH_BYTES then 0 else gc_check_at h)\<rparr>)"

definition charge_bytes :: "heap_handle \<Rightarrow> nat \<Rightarrow> heap_handle" where
  "charge_bytes h n = h\<lparr>since_gc_bytes := saturating (since_gc_bytes h + n)\<rparr>"

definition alloc :: "heap_handle \<Rightarrow> heap_core \<Rightarrow> obj \<Rightarrow> (heap_handle \<times> heap_core \<times> nat, heap_fault) result" where
  "alloc h c ob =
     (let h1 = charge_own (h\<lparr>since_gc := since_gc h + 1\<rparr>) (obj_bytes_shallow ob)
      in if cache h1 \<noteq> []
         then bind_result (reuse c (last (cache h1)) ob) (\<lambda>(c', r).
                Ok (h1\<lparr>cache := butlast (cache h1)\<rparr>, c', r))
         else bind_result (alloc_slot c (cache h1) ob) (\<lambda>(c', cache', r). Ok (h1\<lparr>cache := cache'\<rparr>, c', r)))"

definition settle_knowing ::
  "heap_handle \<Rightarrow> heap_core \<Rightarrow> (nat \<times> nat) option \<Rightarrow> (heap_handle, heap_fault) result" where
  "settle_knowing h c known =
     (case pending_mut h of
        None \<Rightarrow> Ok h
      | Some (r, before) \<Rightarrow>
          bind_result
            (case known of
               Some (k, bytes) \<Rightarrow>
                 if k = r then Ok bytes else bind_result (heap_get c r) (\<lambda>ob. Ok (obj_bytes_shallow ob))
             | None \<Rightarrow> bind_result (heap_get c r) (\<lambda>ob. Ok (obj_bytes_shallow ob)))
            (\<lambda>now. Ok (charge_own (h\<lparr>pending_mut := None\<rparr>) (now - before))))"

definition heap_write :: "heap_handle \<Rightarrow> heap_core \<Rightarrow> nat \<Rightarrow> (heap_handle, heap_fault) result" where
  "heap_write h c r =
     bind_result (heap_get c r) (\<lambda>ob.
       let bytes = obj_bytes_shallow ob
       in bind_result (settle_knowing h c (Some (r, bytes))) (\<lambda>h'. Ok (h'\<lparr>pending_mut := Some (r, bytes)\<rparr>)))"

definition bytes_gc_threshold :: "heap_core \<Rightarrow> nat" where
  "bytes_gc_threshold c =
     (if mem_cap c = 0 then max (last_live_bytes c) (16 * 2 ^ 20) else max (mem_cap c div 4) (64 * 1024))"

definition retired_gc_threshold :: "heap_core \<Rightarrow> nat" where
  "retired_gc_threshold c = max (last_live_bytes c) MIN_RETIRED_GOAL"

definition retired_bytes :: "heap_handle \<Rightarrow> heap_core \<Rightarrow> nat" where
  "retired_bytes h c = sum_list (own_retired h) + sum_list (retired c)"

definition should_collect_slow ::
  "heap_handle \<Rightarrow> heap_core \<Rightarrow> (heap_handle \<times> heap_core \<times> bool, heap_fault) result" where
  "should_collect_slow h c =
     (let (c1, n) = flush_allocs c (since_gc h); h1 = h\<lparr>since_gc := 0\<rparr>
      in bind_result (settle_knowing h1 c1 None) (\<lambda>h2.
           let (c2, bytes) = flush_bytes c1 (since_gc_bytes h2); h3 = h2\<lparr>since_gc_bytes := 0\<rparr>
           in if n \<ge> next_gc c2 \<or> bytes \<ge> bytes_gc_threshold c2 \<or> retired_bytes h3 c2 \<ge> retired_gc_threshold c2
              then Ok (h3\<lparr>gc_check_at := 0\<rparr>, c2, True)
              else Ok (if mem_cap c2 = 0 then h3\<lparr>gc_check_at := min (next_gc c2 - n) FLUSH_EVERY\<rparr> else h3, c2, False)))"

definition should_collect ::
  "heap_handle \<Rightarrow> heap_core \<Rightarrow> (heap_handle \<times> heap_core \<times> bool, heap_fault) result" where
  "should_collect h c = (if since_gc h < gc_check_at h then Ok (h, c, False) else should_collect_slow h c)"

definition observe_collection :: "heap_handle \<Rightarrow> heap_handle" where
  "observe_collection h = h\<lparr>since_gc := 0, gc_check_at := 0, since_gc_bytes := 0, pending_mut := None\<rparr>"

definition set_mem_cap :: "heap_handle \<Rightarrow> heap_core \<Rightarrow> nat \<Rightarrow> heap_handle \<times> heap_core" where
  "set_mem_cap h c cap = (h\<lparr>gc_check_at := 0, pending_mut := None\<rparr>, core_set_mem_cap c cap)"

definition run_bytes_estimate :: "heap_handle \<Rightarrow> heap_core \<Rightarrow> nat" where
  "run_bytes_estimate h c =
     saturating (saturating (last_live_bytes c + charged c) + since_gc_bytes h)"

text \<open>The live bytes: one slot per object and its backing; a core's own bytes once per core.\<close>

definition OBJ_BYTES :: nat where "OBJ_BYTES = 40"

fun live_bytes_step :: "nat list \<times> nat \<Rightarrow> obj slot option \<Rightarrow> nat list \<times> nat" where
  "live_bytes_step (cores, tot) (Some (Some ob)) =
     (case ob of
        O_Channel core \<Rightarrow>
          if ch_addr core \<in> set cores then (cores, tot + OBJ_BYTES + obj_bytes_shallow ob)
          else (ch_addr core # cores, tot + OBJ_BYTES + chan_held_bytes core)
      | O_Executor core \<Rightarrow>
          if ex_addr core \<in> set cores then (cores, tot + OBJ_BYTES + obj_bytes_shallow ob)
          else (ex_addr core # cores, tot + OBJ_BYTES + ex_held_bytes core)
      | _ \<Rightarrow> (cores, tot + OBJ_BYTES + obj_bytes_shallow ob))"
| "live_bytes_step (cores, tot) _ = (cores, tot)"

definition live_bytes :: "heap_core \<Rightarrow> nat" where
  "live_bytes c = snd (foldl live_bytes_step ([], 0) (slab_iter (slots c)))"

definition heap_children :: "heap_core \<Rightarrow> nat \<Rightarrow> (nat list, heap_fault) result" where
  "heap_children c h = bind_result (heap_get c h) (\<lambda>ob. Ok (map unat (obj_children ob)))"

definition heap_sweep :: "heap_handle \<Rightarrow> heap_core \<Rightarrow> (heap_handle \<times> heap_core, heap_fault) result" where
  "heap_sweep h c =
     (let c1 = adopt_retired (give_back c (cache h)) (own_retired h)
      in bind_result (sweep_slots c1 (graveyard h)) (\<lambda>(c2, grave).
           Ok (h\<lparr>cache := [], own_retired := [], graveyard := grave, since_gc := 0, gc_check_at := 0,
                 since_gc_bytes := 0, pending_mut := None\<rparr>,
               record_live_bytes c2 (live_bytes c2))))"

subsection \<open>The collection\<close>

text \<open>The marking loop; not returning would be \<open>None\<close>.\<close>

partial_function (option) mark_loop :: "heap_core \<Rightarrow> nat list \<Rightarrow> (heap_core, heap_fault) result option" where
  [code]: "mark_loop c work =
     (if work = [] then Some (Ok c)
      else
        let (c', fresh) = core_mark c (last work) in
        if fresh then
          (case heap_children c' (last work) of
             Inl e \<Rightarrow> Some (Err e)
           | Inr cs \<Rightarrow> mark_loop c' (butlast work @ cs))
        else mark_loop c' (butlast work))"

definition collect_from ::
  "heap_handle \<Rightarrow> heap_core \<Rightarrow> registry \<Rightarrow> nat list \<Rightarrow> (heap_handle \<times> heap_core, heap_fault) result option" where
  "collect_from h c reg work =
     map_option (\<lambda>r. bind_result r (heap_sweep h)) (mark_loop c (work @ map unat (registry_roots reg)))"

end
