(* ===== verification/HeapCorrect.thy ===== *)
theory HeapCorrect
  imports Heap "HOL-Library.Multiset"
begin

text \<open>
  Correctness of the heap: no slot is lost and none is handed out twice, whatever handles allocate,
  come, go and collect; and a collection keeps exactly the objects the roots reach, unchanged.
\<close>

subsection \<open>The heap as a partial map, and its invariant\<close>

definition heap_map :: "heap_core \<Rightarrow> nat \<rightharpoonup> obj" where
  "heap_map c i = (if i < slab_len (slots c) then slab_view (slots c) ! i else None)"

definition core_wf :: "heap_core \<Rightarrow> bool" where
  "core_wf c \<longleftrightarrow> slab_inv (slots c) \<and> bits_inv (marks c) \<and> append_token c = SlabAppend (slab_id (slots c))"

text \<open>No live object is marked between collections.\<close>

definition unmarked :: "heap_core \<Rightarrow> bool" where
  "unmarked c \<longleftrightarrow> bit_set (marks c) \<inter> dom (heap_map c) = {}"

text \<open>The free slots are in exactly one list: the core's, or the cache of one handle.\<close>

definition lists_ok :: "heap_core \<Rightarrow> nat list list \<Rightarrow> bool" where
  "lists_ok c caches \<longleftrightarrow>
     distinct (free c @ concat caches) \<and>
     set (free c @ concat caches) = {i. i < slab_len (slots c) \<and> heap_map c i = None}"

definition heap_ok :: "heap_core \<Rightarrow> nat list list \<Rightarrow> bool" where
  "heap_ok c caches \<longleftrightarrow> core_wf c \<and> unmarked c \<and> lists_ok c caches"

lemma core_len: "core_wf c \<Longrightarrow> slab_len (slots c) \<le> 2 ^ 32"
  by (simp add: core_wf_def slab_inv_def)

lemma heap_map_dom: "i \<in> dom (heap_map c) \<Longrightarrow> i < slab_len (slots c)"
  by (auto simp: heap_map_def split: if_splits)

lemma heap_get_map:
  assumes "core_wf c"
  shows "heap_get c i = (case heap_map c i of
      Some ob \<Rightarrow> Ok ob
    | None \<Rightarrow> Err (if i < slab_len (slots c) then Dangling i else Slab_Fault (OutOfRange i (slab_len (slots c)))))"
  using assms slab_get_view[of "slots c" i]
  by (simp add: heap_get_def heap_map_def core_wf_def)

lemma heap_ok_default: "heap_ok (core_default ident) []"
proof -
  have "slab_inv (fst (slab_new ident) :: obj slab)" by (rule slab_inv_new)
  then show ?thesis using bits_default_empty
    by (simp add: heap_ok_def core_default_def core_wf_def unmarked_def lists_ok_def heap_map_def slab_new_def)
qed

subsection \<open>Allocation\<close>

lemma reuse_ok:
  assumes "core_wf c" "i < slab_len (slots c)"
  shows "\<exists>c'. reuse c i ob = Ok (c', i) \<and> core_wf c' \<and> heap_map c' = (heap_map c)(i \<mapsto> ob) \<and>
    bit_set (marks c') = bit_set (marks c) - {i} \<and> free c' = free c \<and>
    slab_len (slots c') = slab_len (slots c) \<and> err_spans c' = err_spans c"
proof -
  have inv: "slab_inv (slots c)" "bits_inv (marks c)" "i < 2 ^ 32" using assms core_len[OF assms(1)] by (auto simp: core_wf_def)
  obtain s where s: "slab_put (slots c) i (Some ob) = Ok s" "slab_inv s" "slab_view s = (slab_view (slots c))[i := Some ob]"
    "slab_len s = slab_len (slots c)" "slab_id s = slab_id (slots c)"
    using slab_put_view[OF inv(1) assms(2)] by blast
  let ?m = "if bits_get (marks c) i then bits_clear (marks c) i else marks c"
  have m: "bits_inv ?m" "bit_set ?m = bit_set (marks c) - {i}"
    using marks_plane.clear_members[OF inv(2,3)] inv(2) by (auto simp: bit_set_def)
  let ?c = "c\<lparr>slots := s, marks := ?m\<rparr>"
  have "heap_map ?c = (heap_map c)(i \<mapsto> ob)"
    using assms(2) s by (auto simp: heap_map_def fun_eq_iff nth_list_update)
  then show ?thesis using s m assms(1)
    by (intro exI[of _ ?c]) (simp add: reuse_def core_wf_def)
qed

text \<open>Taking a slot off a list and putting an object in it keeps the lists exact.\<close>

lemma reuse_lists:
  assumes "core_wf c" "unmarked c"
    and "distinct (i # free c @ concat caches)"
    and "set (i # free c @ concat caches) = {j. j < slab_len (slots c) \<and> heap_map c j = None}"
  shows "\<exists>c'. reuse c i ob = Ok (c', i) \<and> heap_ok c' caches \<and> heap_map c' = (heap_map c)(i \<mapsto> ob)"
proof -
  have i: "i < slab_len (slots c)" using assms(4) by auto
  obtain c' where c: "reuse c i ob = Ok (c', i)" "core_wf c'" "heap_map c' = (heap_map c)(i \<mapsto> ob)"
    "bit_set (marks c') = bit_set (marks c) - {i}" "free c' = free c" "slab_len (slots c') = slab_len (slots c)"
    using reuse_ok[OF assms(1) i] by blast
  have "unmarked c'" using assms(2) by (auto simp: unmarked_def c(3,4))
  moreover have "lists_ok c' caches"
    using assms(3,4) by (auto simp: lists_ok_def c(3,5,6))
  ultimately show ?thesis using c by (auto simp: heap_ok_def)
qed

lemma split_last: "xs \<noteq> [] \<Longrightarrow> set xs = insert (last xs) (set (butlast xs))"
  by (metis Un_insert_right append_butlast_last_id boolean_algebra.disj_zero_right list.set(2) list.simps(15) set_append set_empty)

lemma alloc_slot_ok:
  assumes "heap_ok c ([] # others)" "free c \<noteq> [] \<or> slab_len (slots c) < 2 ^ 32"
  shows "\<exists>c' cs r. alloc_slot c [] ob = Ok (c', cs, r) \<and> heap_ok c' (cs # others) \<and>
    heap_map c r = None \<and> r \<notin> set (concat others) \<and> heap_map c' = (heap_map c)(r \<mapsto> ob)"
proof (cases "free c = []")
  case False
  let ?rest = "butlast (free c)" and ?i = "last (free c)"
  define cut where "cut = length ?rest - (FREE_BATCH - 1)"
  let ?c = "c\<lparr>free := take cut ?rest\<rparr>"
  have fr: "free c = take cut ?rest @ drop cut ?rest @ [?i]"
    using append_butlast_last_id[OF False] by (metis append.assoc append_take_drop_id)
  have d: "distinct (?i # free ?c @ concat (drop cut ?rest # others))"
    using assms(1) unfolding heap_ok_def lists_ok_def by (subst (asm) (1) fr) auto
  have hm: "heap_map ?c = heap_map c" by (simp add: heap_map_def fun_eq_iff)
  have "set (take cut ?rest) \<union> set (drop cut ?rest) = set ?rest"
    by (simp only: set_append[symmetric] append_take_drop_id)
  then have "set (?i # free ?c @ concat (drop cut ?rest # others)) = set (free c @ concat others)"
    using split_last[OF False] by auto
  then have e: "set (?i # free ?c @ concat (drop cut ?rest # others)) = {j. j < slab_len (slots ?c) \<and> heap_map ?c j = None}"
    using assms(1) by (simp only: heap_ok_def lists_ok_def hm) simp
  have "core_wf ?c" "unmarked ?c" using assms(1) by (simp_all add: heap_ok_def core_wf_def unmarked_def hm)
  from reuse_lists[OF this d e, of ob] obtain c' where
    c: "reuse ?c ?i ob = Ok (c', ?i)" "heap_ok c' (drop cut ?rest # others)" "heap_map c' = (heap_map c)(?i \<mapsto> ob)"
    by (auto simp: hm)
  have "alloc_slot c [] ob = Ok (c', drop cut ?rest, ?i)"
    using False c(1) by (simp add: alloc_slot_def Let_def cut_def)
  moreover have "heap_map c ?i = None" "?i \<notin> set (concat others)" using d e hm by auto
  ultimately show ?thesis using c by blast
next
  case True
  then have len: "slab_len (slots c) < 2 ^ 32" using assms(2) by simp
  have inv: "slab_inv (slots c)" "append_token c = SlabAppend (slab_id (slots c))"
    using assms(1) by (auto simp: heap_ok_def core_wf_def)
  let ?n = "slab_len (slots c)"
  obtain s n where s: "push_holes (slots c) FREE_BATCH (append_token c) = Ok (s, ?n, ?n + n)" "1 \<le> n" "slab_inv s"
    "slab_view s = slab_view (slots c) @ replicate n None" "slab_len s = ?n + n" "slab_id s = slab_id (slots c)"
    using push_holes_view[OF inv(1) len, of FREE_BATCH] inv(2) by auto
  let ?c = "c\<lparr>slots := s\<rparr>" and ?cs = "rev [?n + 1..<?n + n]"
  have hm: "heap_map ?c = heap_map c" using s(4,5) by (auto simp: heap_map_def fun_eq_iff nth_append)
  have out: "heap_map c j = None" if "?n \<le> j" for j using that by (simp add: heap_map_def)
  have d: "distinct (?n # free ?c @ concat (?cs # others))"
    using assms(1) True by (auto simp: heap_ok_def lists_ok_def)
  have e: "set (?n # free ?c @ concat (?cs # others)) = {j. j < slab_len (slots ?c) \<and> heap_map ?c j = None}"
    using assms(1) True s(2,5) out by (auto simp: heap_ok_def lists_ok_def hm)
  have "core_wf ?c" "unmarked ?c" using assms(1) s(3,6) by (simp_all add: heap_ok_def core_wf_def unmarked_def hm)
  from reuse_lists[OF this d e, of ob] obtain c' where
    c: "reuse ?c ?n ob = Ok (c', ?n)" "heap_ok c' (?cs # others)" "heap_map c' = (heap_map c)(?n \<mapsto> ob)"
    by (auto simp: hm)
  have "alloc_slot c [] ob = Ok (c', ?cs, ?n)"
    using True c(1) s(1) by (simp add: alloc_slot_def)
  moreover have "?n \<notin> set (concat others)" using d by auto
  ultimately show ?thesis using c out[of ?n] by blast
qed

lemma charge_own_cache [simp]: "cache (charge_own h n) = cache h"
  by (simp add: charge_own_def Let_def)

lemma alloc_ok:
  assumes "heap_ok c (cache h # others)" "cache h \<noteq> [] \<or> free c \<noteq> [] \<or> slab_len (slots c) < 2 ^ 32"
  shows "\<exists>h' c' r. alloc h c ob = Ok (h', c', r) \<and> heap_ok c' (cache h' # others) \<and>
    heap_map c r = None \<and> r \<notin> set (concat others) \<and> heap_map c' = (heap_map c)(r \<mapsto> ob)"
proof (cases "cache h = []")
  case False
  have fr: "cache h = butlast (cache h) @ [last (cache h)]" using False by simp
  have d: "distinct (last (cache h) # free c @ concat (butlast (cache h) # others))"
    using assms(1) unfolding heap_ok_def lists_ok_def by (subst (asm) (1) fr) auto
  have e: "set (last (cache h) # free c @ concat (butlast (cache h) # others)) = {j. j < slab_len (slots c) \<and> heap_map c j = None}"
    using assms(1) split_last[OF False] by (auto simp: heap_ok_def lists_ok_def)
  have "core_wf c" "unmarked c" using assms(1) by (simp_all add: heap_ok_def)
  from reuse_lists[OF this d e, of ob] obtain c' where
    c: "reuse c (last (cache h)) ob = Ok (c', last (cache h))" "heap_ok c' (butlast (cache h) # others)"
      "heap_map c' = (heap_map c)(last (cache h) \<mapsto> ob)" by auto
  have "heap_map c (last (cache h)) = None" "last (cache h) \<notin> set (concat others)" using d e by auto
  then show ?thesis using False c by (auto simp: alloc_def Let_def)
next
  case True
  then show ?thesis using alloc_slot_ok[of c others ob] assms by (auto simp: alloc_def Let_def)
qed

subsection \<open>Marking\<close>

inductive_set reachable :: "(nat \<rightharpoonup> obj) \<Rightarrow> nat set \<Rightarrow> nat set" for m roots where
  root: "r \<in> roots \<Longrightarrow> r \<in> reachable m roots"
| child: "x \<in> reachable m roots \<Longrightarrow> m x = Some ob \<Longrightarrow> y \<in> set (obj_children ob) \<Longrightarrow>
    unat y \<in> reachable m roots"

definition child_set :: "(nat \<rightharpoonup> obj) \<Rightarrow> nat \<Rightarrow> nat set" where
  "child_set m x = (case m x of Some ob \<Rightarrow> unat ` set (obj_children ob) | None \<Rightarrow> {})"

lemma reachable_child: "x \<in> reachable m roots \<Longrightarrow> child_set m x \<subseteq> reachable m roots"
  by (auto simp: child_set_def intro: reachable.child split: option.splits)

lemma reachable_least:
  assumes "roots \<subseteq> S" "\<And>x. x \<in> S \<Longrightarrow> child_set m x \<subseteq> S"
  shows "reachable m roots \<subseteq> S"
proof
  fix x assume "x \<in> reachable m roots"
  then show "x \<in> S" using assms by (induction) (force simp: child_set_def)+
qed

text \<open>Marked objects are reachable, and what they refer to is marked or waits on the stack.\<close>

definition mark_inv :: "(nat \<rightharpoonup> obj) \<Rightarrow> nat set \<Rightarrow> nat set \<Rightarrow> nat list \<Rightarrow> bool" where
  "mark_inv m roots M work \<longleftrightarrow>
     set work \<subseteq> reachable m roots \<and> M \<inter> dom m \<subseteq> reachable m roots \<and> roots \<subseteq> M \<union> set work \<and>
     (\<forall>x \<in> M \<inter> dom m. child_set m x \<subseteq> M \<union> set work)"

lemma core_mark_ok:
  assumes "core_wf c" "i < 2 ^ 32"
  obtains b where "core_mark c i = (c\<lparr>marks := b\<rparr>, i \<notin> bit_set (marks c))" "bits_inv b"
    "bit_set b = insert i (bit_set (marks c))" "snd (set_owned (marks c) i) \<longleftrightarrow> i \<notin> bit_set (marks c)"
    "b = fst (set_owned (marks c) i)"
proof -
  have "bits_inv (marks c)" using assms(1) by (simp add: core_wf_def)
  from marks_plane.set_members[OF this assms(2)] show ?thesis
    by (intro that[of "fst (set_owned (marks c) i)"]) (auto simp: core_mark_def split: prod.splits)
qed

lemma heap_map_marks [simp]: "heap_map (c\<lparr>marks := b\<rparr>) = heap_map c"
  by (simp add: heap_map_def fun_eq_iff)

lemma core_wf_marks: "core_wf c \<Longrightarrow> bits_inv b \<Longrightarrow> core_wf (c\<lparr>marks := b\<rparr>)"
  by (simp add: core_wf_def)

lemma butlast_last_set: "xs \<noteq> [] \<Longrightarrow> set xs = set (butlast xs) \<union> {last xs}"
  using split_last[of xs] by auto

lemma mark_loop_ok:
  assumes "core_wf c" "reachable (heap_map c) roots \<subseteq> dom (heap_map c)"
    and "mark_inv (heap_map c) roots (bit_set (marks c)) work"
  shows "\<exists>b. mark_loop c work = Some (Ok (c\<lparr>marks := b\<rparr>)) \<and> bits_inv b \<and>
    bit_set b \<inter> dom (heap_map c) = reachable (heap_map c) roots"
  using assms
proof (induction "(card ({..<2 ^ 32} - bit_set (marks c)), length work)" arbitrary: c work
    rule: wf_induct_rule[OF wf_lex_prod[OF wf_less_than wf_less_than]])
  case (1 c work)
  let ?m = "heap_map c" and ?M = "bit_set (marks c)" and ?R = "reachable (heap_map c) roots"
  show ?case
  proof (cases "work = []")
    case True
    have inv: "?M \<inter> dom ?m \<subseteq> ?R" "roots \<subseteq> ?M" "\<And>x. x \<in> ?M \<inter> dom ?m \<Longrightarrow> child_set ?m x \<subseteq> ?M"
      using "1.prems"(3) True by (auto simp: mark_inv_def)
    have "roots \<subseteq> ?R" using reachable.root[of _ roots] by blast
    moreover have "child_set ?m x \<subseteq> ?R" if "x \<in> ?M \<inter> dom ?m" for x using reachable_child inv(1) that by blast
    ultimately have "?R \<subseteq> ?M \<inter> dom ?m"
      using inv(2,3) "1.prems"(2) by (intro reachable_least) blast+
    then have "?M \<inter> dom ?m = ?R" using "1.prems"(3) by (auto simp: mark_inv_def)
    then show ?thesis using True "1.prems"(1) by (intro exI[of _ "marks c"]) (simp add: mark_loop.simps core_wf_def)
  next
    case False
    let ?x = "last work" and ?rest = "butlast work"
    have x: "?x \<in> ?R" "set work = set ?rest \<union> {?x}" using False "1.prems"(3) butlast_last_set[OF False]
      by (auto simp: mark_inv_def)
    then have dx: "?x \<in> dom ?m" using "1.prems"(2) by blast
    then have lt: "?x < 2 ^ 32" using heap_map_dom[OF dx] core_len[OF "1.prems"(1)] by simp
    obtain b where b: "core_mark c ?x = (c\<lparr>marks := b\<rparr>, ?x \<notin> ?M)" "bits_inv b" "bit_set b = insert ?x ?M"
      "snd (set_owned (marks c) ?x) \<longleftrightarrow> ?x \<notin> ?M" "b = fst (set_owned (marks c) ?x)"
      using core_mark_ok[OF "1.prems"(1) lt] by metis
    have wf: "core_wf (c\<lparr>marks := b\<rparr>)" using "1.prems"(1) b(2) by (rule core_wf_marks)
    show ?thesis
    proof (cases "?x \<in> ?M")
      case True
      have "mark_inv ?m roots (bit_set b) ?rest"
        using "1.prems"(3) x True by (auto simp: mark_inv_def b(3) insert_absorb)
      moreover have "bit_set b = ?M" using b(3) True by auto
      ultimately have "\<exists>b'. mark_loop (c\<lparr>marks := b\<rparr>) ?rest = Some (Ok (c\<lparr>marks := b'\<rparr>)) \<and> bits_inv b' \<and>
          bit_set b' \<inter> dom ?m = ?R"
        using "1.hyps"[of "c\<lparr>marks := b\<rparr>" ?rest] wf "1.prems"(2) False by simp
      then show ?thesis using False True b(1) by (subst mark_loop.simps) simp
    next
      case fresh: False
      obtain ob where ob: "?m ?x = Some ob" using dx by blast
      let ?cs = "map unat (obj_children ob)"
      have ch: "heap_children (c\<lparr>marks := b\<rparr>) ?x = Ok ?cs" by (simp add: heap_children_def heap_get_map[OF wf] ob)
      have cs: "set ?cs = child_set ?m ?x" by (simp add: child_set_def ob)
      have "mark_inv ?m roots (bit_set b) (?rest @ ?cs)"
        using "1.prems"(3) x cs reachable_child[OF x(1)] by (auto simp: mark_inv_def b(3))
      moreover have "card ({..<2 ^ 32} - bit_set b) < card ({..<2 ^ 32} - ?M)"
        using marks_plane.set_fresh_decreases[of "marks c" ?x] "1.prems"(1) lt b(4,5) fresh by (simp add: core_wf_def)
      ultimately have "\<exists>b'. mark_loop (c\<lparr>marks := b\<rparr>) (?rest @ ?cs) = Some (Ok (c\<lparr>marks := b'\<rparr>)) \<and> bits_inv b' \<and>
          bit_set b' \<inter> dom ?m = ?R"
        using "1.hyps"[of "c\<lparr>marks := b\<rparr>" "?rest @ ?cs"] wf "1.prems"(2) by simp
      then show ?thesis using False fresh b(1) ch by (subst mark_loop.simps) simp
    qed
  qed
qed

subsection \<open>Sweeping\<close>

definition dead_slot :: "heap_core \<Rightarrow> nat \<Rightarrow> bool" where
  "dead_slot c i \<longleftrightarrow> heap_map c i \<noteq> None \<and> i \<notin> bit_set (marks c)"

definition live_slot :: "heap_core \<Rightarrow> nat \<Rightarrow> bool" where
  "live_slot c i \<longleftrightarrow> heap_map c i \<noteq> None \<and> i \<in> bit_set (marks c)"

text \<open>The state of a sweep of \<open>c0\<close> when the slots below \<open>n\<close> are done.\<close>

definition swept :: "heap_core \<Rightarrow> obj list \<Rightarrow> nat \<Rightarrow> sweep_state \<Rightarrow> bool" where
  "swept c0 grave0 n st \<longleftrightarrow>
     (\<exists>s b. st = (c0\<lparr>slots := s, marks := b, free := free c0 @ filter (dead_slot c0) [0..<n],
                   err_spans := (\<lambda>i. if i < n \<and> dead_slot c0 i then None else err_spans c0 i)\<rparr>,
                 length (filter (live_slot c0) [0..<n]),
                 grave0 @ filter is_arc_core (map (the \<circ> heap_map c0) (filter (dead_slot c0) [0..<n]))) \<and>
       slab_inv s \<and> bits_inv b \<and> slab_len s = slab_len (slots c0) \<and> slab_id s = slab_id (slots c0) \<and>
       (\<forall>i < slab_len s. slab_view s ! i = (if i < n \<and> dead_slot c0 i then None else slab_view (slots c0) ! i)) \<and>
       bit_set b = bit_set (marks c0) - {i. i < n \<and> live_slot c0 i})"

lemma swept_start: "core_wf c0 \<Longrightarrow> swept c0 grave0 0 (c0, 0, grave0)"
  unfolding swept_def core_wf_def by (intro exI[of _ "slots c0"] exI[of _ "marks c0"]) simp

lemma store_clear:
  assumes "bits_inv b" "idx = seg_start k + off" "off < seg_cap k" "idx < 2 ^ 32" "idx \<in> bit_set b"
  shows "(let ws = segment_words b (seg_start k); m = idx div 64 - seg_start k div 64
     in store_word b idx (ws ! m AND NOT (push_bit (idx mod 64) 1))) = bits_clear b idx"
proof -
  have l: "locate idx = (k, off)" "locate (seg_start k) = (k, 0)"
    using locate_seg[OF assms(3)] locate_seg[of 0 k] assms(2) by auto
  have "bits_get b idx" using assms(5) by (simp add: bit_set_def)
  then obtain w where w: "bits_load b idx = Some w" by (auto simp: bits_get_load)
  have "segment_words b (seg_start k) ! (idx div 64 - seg_start k div 64) = w"
  proof (cases "idx < 64")
    case True
    then have "seg_start k < 64" using assms(2) by simp
    then show ?thesis using True w by (simp add: segment_words_def LOW_SLOTS_def bits_load_def word_addr_def)
  next
    case False
    then have al: "64 \<le> idx" by simp
    note a = seg_aligned[OF al l(1)]
    have "64 \<le> seg_start k"
    proof (rule ccontr)
      assume "\<not> 64 \<le> seg_start k"
      then have "seg_start k = 0" using a(1) by (auto elim!: dvdE)
      then have "k = 0" by (cases k) auto
      then show False using al assms(2,3) by simp
    qed
    then show ?thesis using al w a(4) l
      by (auto simp: segment_words_def LOW_SLOTS_def bits_load_def word_addr_def)
  qed
  then show ?thesis using w by (simp add: bits_clear_def bits_word_load Let_def)
qed

lemma sweep_slot_ok:
  assumes "core_wf c0" "swept c0 g n st" "n = seg_start k + off" "off < seg_cap k" "n < slab_len (slots c0)"
  shows "\<exists>st'. sweep_slot (seg_start k) (n, Some (slab_view (slots c0) ! n)) st = Ok st' \<and> swept c0 g (Suc n) st'"
proof -
  obtain s b where st: "st = (c0\<lparr>slots := s, marks := b, free := free c0 @ filter (dead_slot c0) [0..<n],
                   err_spans := (\<lambda>i. if i < n \<and> dead_slot c0 i then None else err_spans c0 i)\<rparr>,
                 length (filter (live_slot c0) [0..<n]),
                 g @ filter is_arc_core (map (the \<circ> heap_map c0) (filter (dead_slot c0) [0..<n])))"
    and inv: "slab_inv s" "bits_inv b" "slab_len s = slab_len (slots c0)" "slab_id s = slab_id (slots c0)"
      "\<forall>i < slab_len s. slab_view s ! i = (if i < n \<and> dead_slot c0 i then None else slab_view (slots c0) ! i)"
      "bit_set b = bit_set (marks c0) - {i. i < n \<and> live_slot c0 i}"
    using assms(2) unfolding swept_def by blast
  have lt: "n < 2 ^ 32" using assms(5) core_len[OF assms(1)] by simp
  have hm: "heap_map c0 n = slab_view (slots c0) ! n" using assms(5) by (simp add: heap_map_def)
  have mem: "n \<in> bit_set b \<longleftrightarrow> n \<in> bit_set (marks c0)" using inv(6) by auto
  show ?thesis
  proof (cases "slab_view (slots c0) ! n")
    case None
    then have "\<not> dead_slot c0 n" "\<not> live_slot c0 n" by (simp_all add: dead_slot_def live_slot_def hm)
    then have "swept c0 g (Suc n) st" using inv unfolding swept_def st by (intro exI[of _ s] exI[of _ b]) (auto simp: less_Suc_eq fun_eq_iff)
    then show ?thesis by (simp add: None st)
  next
    case (Some ob)
    let ?ws = "segment_words b (seg_start k)" and ?m = "n div 64 - seg_start k div 64"
    have bit: "n \<in> bit_set b \<longleftrightarrow> ?m < length ?ws \<and> ?ws ! ?m AND push_bit (n mod 64) 1 \<noteq> 0"
      using segment_words_get[OF inv(2) assms(3,4) lt] lt by (simp add: bit_set_def Let_def)
    show ?thesis
    proof (cases "n \<in> bit_set b")
      case True
      then have l: "live_slot c0 n" "\<not> dead_slot c0 n" using Some mem by (simp_all add: dead_slot_def live_slot_def hm)
      have cl: "store_word b n (?ws ! ?m AND NOT (push_bit (n mod 64) 1)) = bits_clear b n"
        using store_clear[OF inv(2) assms(3,4) lt True] by (simp add: Let_def)
      note bc = marks_plane.clear_members[OF inv(2) lt]
      let ?st = "(fst st\<lparr>marks := bits_clear b n\<rparr>, Suc (fst (snd st)), snd (snd st))"
      have "swept c0 g (Suc n) ?st" unfolding swept_def st
        using inv bc l by (intro exI[of _ s] exI[of _ "bits_clear b n"]) (auto simp: less_Suc_eq fun_eq_iff)
      moreover have "sweep_slot (seg_start k) (n, Some (slab_view (slots c0) ! n)) st = Ok ?st"
        using bit[THEN iffD1, OF True] cl unfolding st Some by (simp del: push_bit_of_1 add: Let_def)
      ultimately show ?thesis by blast
    next
      case False
      then have d: "dead_slot c0 n" "\<not> live_slot c0 n" using Some mem by (simp_all add: dead_slot_def live_slot_def hm)
      obtain s' where s': "slab_put s n None = Ok s'" "slab_inv s'" "slab_view s' = (slab_view s)[n := None]"
        "slab_len s' = slab_len s" "slab_id s' = slab_id s"
        using slab_put_view[OF inv(1), of n None] assms(5) inv(3) by auto
      let ?c = "fst st"
      let ?st = "(?c\<lparr>slots := s', free := free ?c @ [n], err_spans := (err_spans ?c)(n := None)\<rparr>, fst (snd st),
         if is_arc_core ob then snd (snd st) @ [ob] else snd (snd st))"
      have "the (heap_map c0 n) = ob" using Some hm by simp
      moreover have "slab_view s' ! i = (if i < Suc n \<and> dead_slot c0 i then None else slab_view (slots c0) ! i)"
        if "i < slab_len s'" for i
        using that inv(3,5) s'(3,4) d by (cases "i = n") (auto simp: less_Suc_eq)
      ultimately have "swept c0 g (Suc n) ?st" unfolding swept_def st
        using inv s' d by (intro exI[of _ s'] exI[of _ b]) (auto simp: less_Suc_eq fun_eq_iff)
      moreover have "sweep_slot (seg_start k) (n, Some (slab_view (slots c0) ! n)) st = Ok ?st"
        using bit False s'(1) unfolding st Some by (simp del: push_bit_of_1 add: Let_def)
      ultimately show ?thesis by blast
    qed
  qed
qed

lemma sweep_cells_ok:
  assumes "core_wf c0"
  shows "swept c0 g n st \<Longrightarrow> seg_start k \<le> n \<Longrightarrow> n + length xs \<le> seg_start k + seg_cap k \<Longrightarrow>
    n + length xs \<le> slab_len (slots c0) \<Longrightarrow> xs = map Some (take (length xs) (drop n (slab_view (slots c0)))) \<Longrightarrow>
    \<exists>st'. sweep_cells (seg_start k) (zip [n..<n + length xs] xs) st = Ok st' \<and> swept c0 g (n + length xs) st'"
proof (induction xs arbitrary: n st)
  case (Cons x xs)
  have n: "n < slab_len (slots c0)" using Cons.prems(4) by simp
  have off: "n - seg_start k < seg_cap k" using Cons.prems(2,3) by simp
  have dr: "drop n (slab_view (slots c0)) = slab_view (slots c0) ! n # drop (Suc n) (slab_view (slots c0))"
    using n by (simp add: Cons_nth_drop_Suc)
  have x: "x = Some (slab_view (slots c0) ! n)" "xs = map Some (take (length xs) (drop (Suc n) (slab_view (slots c0))))"
    using Cons.prems(5) by (simp_all add: dr)
  obtain st1 where st1: "sweep_slot (seg_start k) (n, x) st = Ok st1" "swept c0 g (Suc n) st1"
    using sweep_slot_ok[OF assms Cons.prems(1) _ off n] Cons.prems(2) x(1) by auto
  obtain st2 where st2: "sweep_cells (seg_start k) (zip [Suc n..<Suc n + length xs] xs) st1 = Ok st2"
    "swept c0 g (Suc n + length xs) st2"
    using Cons.IH[OF st1(2)] Cons.prems x(2) by auto
  have "[n..<n + length (x # xs)] = n # [Suc n..<Suc n + length xs]"
    by (subst upt_conv_Cons) (simp_all del: upt_Suc)
  then have "zip [n..<n + length (x # xs)] (x # xs) = (n, x) # zip [Suc n..<Suc n + length xs] xs"
    by (simp del: upt_Suc)
  then show ?case using st1(1) st2 by simp
qed simp

lemma sweep_segments_ok:
  assumes "core_wf c0"
  shows "j + k = seg_count (slab_len (slots c0)) \<Longrightarrow> swept c0 g (min (seg_start k) (slab_len (slots c0))) st \<Longrightarrow>
    \<exists>st'. sweep_segments (map (\<lambda>k. (seg_start k, seg_raw (slots c0) k)) [k..<j + k]) st = Ok st' \<and>
      swept c0 g (slab_len (slots c0)) st'"
proof (induction j arbitrary: k st)
  case 0
  then show ?case using seg_count_covers[of "slots c0"] by (simp add: min_def split: if_splits)
next
  case (Suc j)
  let ?s = "slots c0" and ?n = "seg_start k" and ?xs = "seg_raw (slots c0) k"
  have inv: "slab_inv ?s" using assms by (simp add: core_wf_def)
  have n: "?n < slab_len ?s" using seg_count_started[of k "slab_len ?s"] Suc.prems(1) by simp
  have xs: "?xs = map Some (take (seg_cap k) (drop ?n (slab_view ?s)))" using seg_raw_view[OF inv n] .
  then have len: "length ?xs = min (slab_len ?s - ?n) (seg_cap k)" by simp
  have take: "?xs = map Some (take (length ?xs) (drop ?n (slab_view ?s)))" using xs len by (simp add: min_def)
  have bounds: "?n + length ?xs \<le> ?n + seg_cap k" "?n + length ?xs \<le> slab_len ?s" using len n by auto
  have "swept c0 g ?n st" using Suc.prems(2) n by (simp add: min_def)
  then obtain st1 where st1: "sweep_cells ?n (zip [?n..<?n + length ?xs] ?xs) st = Ok st1" "swept c0 g (?n + length ?xs) st1"
    using sweep_cells_ok[OF assms _ order_refl bounds take] by blast
  have e: "?n + length ?xs = min (seg_start (Suc k)) (slab_len ?s)"
    using len n seg_end[of k] by (auto simp: min_def)
  obtain st2 where "sweep_segments (map (\<lambda>k. (seg_start k, seg_raw ?s k)) [Suc k..<j + Suc k]) st1 = Ok st2"
    "swept c0 g (slab_len ?s) st2" using Suc.IH[of "Suc k" st1] Suc.prems(1) st1(2) e by auto
  moreover have "[k..<Suc j + k] = k # [Suc k..<j + Suc k]" by (subst upt_conv_Cons) simp_all
  ultimately show ?case using st1(1) by (simp del: upt_Suc)
qed

lemma sweep_slots_ok:
  assumes "core_wf c"
  obtains s b where "sweep_slots c g =
      Ok (c\<lparr>slots := s, marks := b, free := free c @ filter (dead_slot c) [0..<slab_len (slots c)],
            err_spans := (\<lambda>i. if dead_slot c i then None else err_spans c i), retired := [],
            next_gc := max (length (filter (live_slot c) [0..<slab_len (slots c)]) * 2) MIN_GC_THRESHOLD,
            allocs := 0, charged := 0\<rparr>,
          g @ filter is_arc_core (map (the \<circ> heap_map c) (filter (dead_slot c) [0..<slab_len (slots c)])))"
    "slab_inv s" "bits_inv b" "slab_len s = slab_len (slots c)" "slab_id s = slab_id (slots c)"
    "\<forall>i < slab_len s. slab_view s ! i = (if dead_slot c i then None else slab_view (slots c) ! i)"
    "bit_set b = bit_set (marks c) - {i. live_slot c i}"
proof -
  have lt: "i < slab_len (slots c)" if "dead_slot c i \<or> live_slot c i" for i
    using that heap_map_dom[of i c] by (auto simp: dead_slot_def live_slot_def)
  have "\<exists>st. sweep_segments (segments_mut (slots c)) (c, 0, g) = Ok st \<and> swept c g (slab_len (slots c)) st"
    using sweep_segments_ok[OF assms, of "seg_count (slab_len (slots c))" 0 g "(c, 0, g)"] swept_start[OF assms, of g]
    by (simp add: segments_mut_def)
  then obtain st where st: "sweep_segments (segments_mut (slots c)) (c, 0, g) = Ok st" "swept c g (slab_len (slots c)) st"
    by blast
  then obtain s b where sb: "st = (c\<lparr>slots := s, marks := b, free := free c @ filter (dead_slot c) [0..<slab_len (slots c)],
                   err_spans := (\<lambda>i. if i < slab_len (slots c) \<and> dead_slot c i then None else err_spans c i)\<rparr>,
                 length (filter (live_slot c) [0..<slab_len (slots c)]),
                 g @ filter is_arc_core (map (the \<circ> heap_map c) (filter (dead_slot c) [0..<slab_len (slots c)])))"
    and inv: "slab_inv s" "bits_inv b" "slab_len s = slab_len (slots c)" "slab_id s = slab_id (slots c)"
       "\<forall>i < slab_len s. slab_view s ! i = (if i < slab_len (slots c) \<and> dead_slot c i then None else slab_view (slots c) ! i)"
       "bit_set b = bit_set (marks c) - {i. i < slab_len (slots c) \<and> live_slot c i}"
    unfolding swept_def by blast
  have "(\<lambda>i. if i < slab_len (slots c) \<and> dead_slot c i then None else err_spans c i) = (\<lambda>i. if dead_slot c i then None else err_spans c i)"
    using lt by (auto simp: fun_eq_iff)
  then show ?thesis
    using st(1) sb inv lt by (intro that[of b s]) (auto simp: sweep_slots_def)
qed

subsection \<open>A collection\<close>

lemma card_filter_upt: "(\<And>i. P i \<Longrightarrow> i < n) \<Longrightarrow> length (filter P [0..<n]) = card {i. P i}"
proof -
  assume lt: "\<And>i. P i \<Longrightarrow> i < n"
  have "set (filter P [0..<n]) = {i. P i}" using lt by auto
  then show ?thesis by (metis distinct_card distinct_filter distinct_upt)
qed

lemma heap_sweep_ok:
  assumes "core_wf c" "lists_ok c (cache h # others)"
  shows "\<exists>h' c'. heap_sweep h c = Ok (h', c') \<and>
    heap_map c' = heap_map c |` bit_set (marks c) \<and> heap_ok c' ([] # others) \<and> cache h' = [] \<and>
    next_gc c' = max (card (bit_set (marks c) \<inter> dom (heap_map c)) * 2) MIN_GC_THRESHOLD \<and>
    allocs c' = 0 \<and> err_spans c' = err_spans c |` (bit_set (marks c) \<union> - dom (heap_map c)) \<and>
    graveyard h' = graveyard h @ filter is_arc_core (map (the \<circ> heap_map c) (filter (dead_slot c) [0..<slab_len (slots c)]))"
proof -
  let ?c = "adopt_retired (give_back c (cache h)) (own_retired h)"
  have same: "slots ?c = slots c" "marks ?c = marks c" "free ?c = free c @ cache h" "err_spans ?c = err_spans c"
    "heap_map ?c = heap_map c" "dead_slot ?c = dead_slot c" "live_slot ?c = live_slot c" "append_token ?c = append_token c"
    by (auto simp: adopt_retired_def give_back_def heap_map_def dead_slot_def live_slot_def fun_eq_iff)
  have wf: "core_wf ?c" using assms(1) by (simp add: core_wf_def same)
  obtain s b where sw: "sweep_slots ?c (graveyard h) =
      Ok (?c\<lparr>slots := s, marks := b, free := free ?c @ filter (dead_slot c) [0..<slab_len (slots c)],
            err_spans := (\<lambda>i. if dead_slot c i then None else err_spans c i), retired := [],
            next_gc := max (length (filter (live_slot c) [0..<slab_len (slots c)]) * 2) MIN_GC_THRESHOLD,
            allocs := 0, charged := 0\<rparr>,
          graveyard h @ filter is_arc_core (map (the \<circ> heap_map c) (filter (dead_slot c) [0..<slab_len (slots c)])))"
    and inv: "slab_inv s" "bits_inv b" "slab_len s = slab_len (slots c)" "slab_id s = slab_id (slots c)"
    "\<forall>i < slab_len s. slab_view s ! i = (if dead_slot c i then None else slab_view (slots c) ! i)"
    "bit_set b = bit_set (marks c) - {i. live_slot c i}"
    by (rule sweep_slots_ok[OF wf, of "graveyard h", unfolded same(1,2,4-8)]) (rule that; assumption)
  define c2 where "c2 = (?c\<lparr>slots := s, marks := b, free := free ?c @ filter (dead_slot c) [0..<slab_len (slots c)],
            err_spans := (\<lambda>i. if dead_slot c i then None else err_spans c i), retired := [],
            next_gc := max (length (filter (live_slot c) [0..<slab_len (slots c)]) * 2) MIN_GC_THRESHOLD,
            allocs := 0, charged := 0\<rparr>)"
  let ?c' = "record_live_bytes c2 (live_bytes c2)"
  have f: "slots ?c' = s" "marks ?c' = b" "free ?c' = free c @ cache h @ filter (dead_slot c) [0..<slab_len (slots c)]"
    "append_token ?c' = append_token c" "allocs ?c' = 0" "err_spans ?c' = (\<lambda>i. if dead_slot c i then None else err_spans c i)"
    "next_gc ?c' = max (length (filter (live_slot c) [0..<slab_len (slots c)]) * 2) MIN_GC_THRESHOLD"
    by (simp_all add: record_live_bytes_def c2_def same)
  have hm: "heap_map ?c' = heap_map c |` bit_set (marks c)"
    using inv(3,5) by (auto simp: heap_map_def f(1) fun_eq_iff restrict_map_def dead_slot_def)
  have lt: "i < slab_len (slots c)" if "heap_map c i \<noteq> None" for i using that heap_map_dom[of i c] by auto
  have "core_wf ?c'" using inv assms(1) by (simp add: core_wf_def f)
  moreover have "unmarked ?c'" by (auto simp: unmarked_def hm f(2) inv(6) live_slot_def)
  moreover have "lists_ok ?c' ([] # others)"
  proof -
    let ?E = "{i. i < slab_len (slots c) \<and> heap_map c i = None}" and ?D = "filter (dead_slot c) [0..<slab_len (slots c)]"
    have old: "distinct (free c @ cache h @ concat others)" "set (free c @ cache h @ concat others) = ?E"
      using assms(2) by (auto simp: lists_ok_def)
    have D: "set ?D = {i. dead_slot c i}" using lt by (auto simp: dead_slot_def)
    then have "set ?D \<inter> set (free c @ cache h @ concat others) = {}" unfolding old(2) by (auto simp: dead_slot_def)
    then have "distinct (free c @ cache h @ ?D @ concat others)" using old(1) by auto
    moreover have "set (free c @ cache h @ ?D @ concat others) = ?E \<union> set ?D" unfolding old(2)[symmetric] by auto
    moreover have "?E \<union> set ?D = {i. i < slab_len s \<and> heap_map ?c' i = None}"
      using lt unfolding D hm inv(3) by (auto simp: dead_slot_def restrict_map_def)
    ultimately show ?thesis by (simp only: lists_ok_def f(1,3)) simp
  qed
  moreover have "{i. live_slot c i} = bit_set (marks c) \<inter> dom (heap_map c)" by (auto simp: live_slot_def)
  then have "length (filter (live_slot c) [0..<slab_len (slots c)]) = card (bit_set (marks c) \<inter> dom (heap_map c))"
    using card_filter_upt[of "live_slot c"] lt by (simp add: live_slot_def)
  moreover have "err_spans ?c' = err_spans c |` (bit_set (marks c) \<union> - dom (heap_map c))"
    by (auto simp: f(6) fun_eq_iff restrict_map_def dead_slot_def)
  ultimately show ?thesis
    using sw hm f(5,7) unfolding c2_def[symmetric] by (auto simp: heap_sweep_def Let_def heap_ok_def)
qed

lemma collect_body:
  assumes "heap_ok c (cache h # others)"
    and "R = reachable (heap_map c) (set work \<union> unat ` set (registry_roots reg))"
    and "R \<subseteq> dom (heap_map c)"
  shows "\<exists>h' c'. collect_from h c reg work = Some (Ok (h', c')) \<and> heap_map c' = heap_map c |` R \<and>
    heap_ok c' ([] # others) \<and> cache h' = [] \<and> next_gc c' = max (card R * 2) MIN_GC_THRESHOLD \<and>
    err_spans c' = err_spans c |` (R \<union> - dom (heap_map c))"
proof -
  let ?roots = "set work \<union> unat ` set (registry_roots reg)"
  have wf: "core_wf c" "lists_ok c (cache h # others)" using assms(1) by (auto simp: heap_ok_def)
  have "?roots \<subseteq> R" unfolding assms(2) by (auto intro: reachable.root)
  then have "mark_inv (heap_map c) ?roots (bit_set (marks c)) (work @ map unat (registry_roots reg))"
    using assms(1,2) by (auto simp: mark_inv_def heap_ok_def unmarked_def)
  from mark_loop_ok[OF wf(1) _ this] obtain b where
    b: "mark_loop c (work @ map unat (registry_roots reg)) = Some (Ok (c\<lparr>marks := b\<rparr>))" "bits_inv b"
      "bit_set b \<inter> dom (heap_map c) = R"
    using assms(2,3) by auto
  have "core_wf (c\<lparr>marks := b\<rparr>)" "lists_ok (c\<lparr>marks := b\<rparr>) (cache h # others)"
    using wf b(2) by (simp_all add: core_wf_marks lists_ok_def)
  from heap_sweep_ok[OF this] obtain h' c' where
    r: "heap_sweep h (c\<lparr>marks := b\<rparr>) = Ok (h', c')" "heap_map c' = heap_map c |` bit_set b" "heap_ok c' ([] # others)"
      "cache h' = []" "next_gc c' = max (card R * 2) MIN_GC_THRESHOLD"
      "err_spans c' = err_spans c |` (bit_set b \<union> - dom (heap_map c))"
    using b(3) by auto
  have "heap_map c |` bit_set b = heap_map c |` R" using b(3) by (auto simp: restrict_map_def fun_eq_iff)
  moreover have "bit_set b \<union> - dom (heap_map c) = R \<union> - dom (heap_map c)" using b(3) by auto
  ultimately show ?thesis using r b(1) by (simp add: collect_from_def)
qed

subsection \<open>Many handles on one core\<close>

text \<open>
  A run of the heap: the handles allocate, store into live objects, pace, stamp error spans, come
  and go, and one of them collects while the others wait and then observe it. A collection is given
  roots that reach no freed slot.
\<close>

inductive heap_step :: "heap_core \<times> heap_handle list \<Rightarrow> heap_core \<times> heap_handle list \<Rightarrow> bool" where
  hs_alloc: "j < length hs \<Longrightarrow> alloc (hs ! j) c ob = Ok (h', c', r) \<Longrightarrow> heap_step (c, hs) (c', hs[j := h'])"
| hs_store: "heap_map c i = Some old \<Longrightarrow> slab_put (slots c) i (Some ob) = Ok s \<Longrightarrow>
    heap_step (c, hs) (c\<lparr>slots := s\<rparr>, hs)"
| hs_write: "j < length hs \<Longrightarrow> heap_write (hs ! j) c i = Ok h' \<Longrightarrow> heap_step (c, hs) (c, hs[j := h'])"
| hs_pace: "j < length hs \<Longrightarrow> should_collect (hs ! j) c = Ok (h', c', answer) \<Longrightarrow>
    heap_step (c, hs) (c', hs[j := h'])"
| hs_span: "heap_step (c, hs) (set_err_span c i sp, hs)"
| hs_attach: "heap_step (c, hs) (c, hs @ [fresh_handle])"
| hs_drop: "j < length hs \<Longrightarrow> heap_step (c, hs) (drop_handle (hs ! j) c, take j hs @ drop (Suc j) hs)"
| hs_collect: "j < length hs \<Longrightarrow>
    reachable (heap_map c) (set work \<union> unat ` set (registry_roots reg)) \<subseteq> dom (heap_map c) \<Longrightarrow>
    collect_from (hs ! j) c reg work = Some (Ok (h', c')) \<Longrightarrow>
    heap_step (c, hs) (c', (map observe_collection hs)[j := h'])"

definition heap_start :: "heap_core \<times> heap_handle list \<Rightarrow> bool" where
  "heap_start st \<longleftrightarrow> (\<exists>ident. st = (core_default ident, [fresh_handle]))"

definition state_ok :: "heap_core \<times> heap_handle list \<Rightarrow> bool" where
  "state_ok st \<longleftrightarrow> heap_ok (fst st) (map cache (snd st))"

text \<open>The order of the caches does not matter, so the acting handle can come first.\<close>

lemma heap_ok_mset:
  assumes "mset (concat xs) = mset (concat ys)"
  shows "heap_ok c xs \<longleftrightarrow> heap_ok c ys"
proof -
  have "mset (free c @ concat xs) = mset (free c @ concat ys)" using assms by simp
  then have "distinct (free c @ concat xs) = distinct (free c @ concat ys)"
    "set (free c @ concat xs) = set (free c @ concat ys)"
    by (rule mset_eq_imp_distinct_iff, rule mset_eq_setD)
  then show ?thesis unfolding heap_ok_def lists_ok_def by simp
qed

lemma heap_ok_front:
  assumes "j < length hs"
  shows "heap_ok c (map cache (hs[j := h])) \<longleftrightarrow> heap_ok c (cache h # map cache (take j hs @ drop (Suc j) hs))"
  by (rule heap_ok_mset) (simp add: upd_conv_take_nth_drop[OF assms])

lemma heap_ok_at:
  assumes "j < length hs"
  shows "heap_ok c (map cache hs) \<longleftrightarrow> heap_ok c (cache (hs ! j) # map cache (take j hs @ drop (Suc j) hs))"
  using heap_ok_front[OF assms, of c "hs ! j"] by simp

lemma settle_cache: "settle_knowing h c known = Ok h' \<Longrightarrow> cache h' = cache h"
  by (auto simp: settle_knowing_def bind_result_eq_Inr_iff split: option.splits prod.splits)

lemma heap_write_cache: "heap_write h c r = Ok h' \<Longrightarrow> cache h' = cache h"
  by (auto simp: heap_write_def bind_result_eq_Inr_iff Let_def dest: settle_cache)

lemma flush_allocs_fields:
  "slots (fst (flush_allocs c n)) = slots c" "free (fst (flush_allocs c n)) = free c"
  "append_token (fst (flush_allocs c n)) = append_token c" "marks (fst (flush_allocs c n)) = marks c"
  by (simp_all add: flush_allocs_def)

lemma flush_bytes_fields:
  "slots (fst (flush_bytes c n)) = slots c" "free (fst (flush_bytes c n)) = free c"
  "append_token (fst (flush_bytes c n)) = append_token c" "marks (fst (flush_bytes c n)) = marks c"
  by (simp_all add: flush_bytes_def)

lemmas flush_fields = flush_allocs_fields flush_bytes_fields

lemma heap_map_slots: "slots c' = slots c \<Longrightarrow> heap_map c' = heap_map c"
  by (simp add: heap_map_def fun_eq_iff)

lemma heap_ok_fields:
  "slots c' = slots c \<Longrightarrow> free c' = free c \<Longrightarrow> append_token c' = append_token c \<Longrightarrow> marks c' = marks c \<Longrightarrow>
    heap_ok c' xs \<longleftrightarrow> heap_ok c xs"
  using heap_map_slots[of c' c] by (simp add: heap_ok_def core_wf_def unmarked_def lists_ok_def)

lemma should_collect_fields:
  assumes "should_collect h c = Ok (h', c', answer)"
  shows "cache h' = cache h \<and> slots c' = slots c \<and> free c' = free c \<and> append_token c' = append_token c \<and> marks c' = marks c"
proof (cases "since_gc h < gc_check_at h")
  case False
  obtain c1 n where f1: "flush_allocs c (since_gc h) = (c1, n)" by fastforce
  have c1: "slots c1 = slots c" "free c1 = free c" "append_token c1 = append_token c" "marks c1 = marks c"
    using flush_allocs_fields[of c "since_gc h"] f1 by simp_all
  obtain h2 where h2: "settle_knowing (h\<lparr>since_gc := 0\<rparr>) c1 None = Ok h2"
    using assms False f1 by (auto simp: should_collect_def should_collect_slow_def bind_result_eq_Inr_iff)
  obtain c2 m where f2: "flush_bytes c1 (since_gc_bytes h2) = (c2, m)" by fastforce
  have c2: "slots c2 = slots c1" "free c2 = free c1" "append_token c2 = append_token c1" "marks c2 = marks c1"
    using flush_bytes_fields[of c1 "since_gc_bytes h2"] f2 by simp_all
  show ?thesis using assms False settle_cache[OF h2] c1 c2
    by (auto simp: should_collect_def should_collect_slow_def f1 h2 f2 Let_def split: if_splits)
qed (use assms in \<open>simp add: should_collect_def\<close>)

lemma drop_ok:
  assumes "heap_ok c (cache h # others)"
  shows "heap_ok (drop_handle h c) others"
proof -
  let ?c = "drop_handle h c"
  have f: "slots ?c = slots c" "append_token ?c = append_token c" "marks ?c = marks c" "free ?c = free c @ cache h"
    by (auto simp: drop_handle_def Let_def adopt_retired_def give_back_def flush_fields)
  show ?thesis using assms heap_map_slots[OF f(1)]
    by (simp add: heap_ok_def core_wf_def unmarked_def lists_ok_def f Un_assoc Int_Un_distrib2)
qed

lemma store_ok:
  assumes "heap_ok c xs" "heap_map c i = Some old" "slab_put (slots c) i (Some ob) = Ok s"
  shows "heap_ok (c\<lparr>slots := s\<rparr>) xs"
proof -
  have i: "i < slab_len (slots c)" using assms(2) heap_map_dom by blast
  have inv: "slab_inv (slots c)" using assms(1) by (simp add: heap_ok_def core_wf_def)
  have s: "slab_inv s" "slab_view s = (slab_view (slots c))[i := Some ob]" "slab_len s = slab_len (slots c)" "slab_id s = slab_id (slots c)"
    using slab_put_view[OF inv i, of "Some ob"] assms(3) by auto
  have hm: "heap_map (c\<lparr>slots := s\<rparr>) = (heap_map c)(i \<mapsto> ob)"
    using i s(2,3) by (auto simp: heap_map_def fun_eq_iff nth_list_update)
  have "unmarked (c\<lparr>slots := s\<rparr>)" using assms(1,2) by (auto simp: heap_ok_def unmarked_def hm)
  moreover have "{j. j < slab_len s \<and> ((heap_map c)(i \<mapsto> ob)) j = None} = {j. j < slab_len (slots c) \<and> heap_map c j = None}"
    using assms(2) s(3) by auto
  then have "lists_ok (c\<lparr>slots := s\<rparr>) xs" using assms(1) by (simp add: heap_ok_def lists_ok_def hm)
  ultimately show ?thesis using assms(1) s by (simp add: heap_ok_def core_wf_def)
qed

lemma alloc_step_ok:
  assumes "heap_ok c (cache h # others)" "alloc h c ob = Ok (h', c', r)"
  shows "heap_ok c' (cache h' # others)"
proof (cases "cache h \<noteq> [] \<or> free c \<noteq> [] \<or> slab_len (slots c) < 2 ^ 32")
  case True
  then show ?thesis using alloc_ok[OF assms(1) True, of ob] assms(2) by auto
next
  case False
  then have "alloc h c ob = Err (Slab_Fault (SlabFull (slab_len (slots c))))"
    using assms(1) by (simp add: alloc_def alloc_slot_def push_holes_def heap_ok_def core_wf_def)
  then show ?thesis using assms(2) by simp
qed

lemma observe_cache: "map cache (map observe_collection hs) = map cache hs"
  by (simp add: observe_collection_def)

lemma heap_step_ok: "heap_step s t \<Longrightarrow> state_ok s \<Longrightarrow> state_ok t"
proof (induction rule: heap_step.induct)
  case (hs_alloc j hs c ob h' c' r)
  then show ?case using alloc_step_ok heap_ok_at[of j hs c] heap_ok_front[of j hs c' h'] by (auto simp: state_ok_def)
next
  case (hs_store c i old ob s hs)
  then show ?case using store_ok by (auto simp: state_ok_def)
next
  case (hs_write j hs c i h')
  then show ?case using heap_ok_at[of j hs c] heap_ok_front[of j hs c h'] heap_write_cache by (auto simp: state_ok_def)
next
  case (hs_pace j hs c h' c' answer)
  then show ?case
    using heap_ok_at[of j hs c] heap_ok_front[of j hs c' h'] should_collect_fields[of "hs ! j" c h' c' answer]
      heap_ok_fields[of c' c]
    by (auto simp: state_ok_def)
next
  case (hs_span c hs i sp)
  then show ?case using heap_ok_fields[of "set_err_span c i sp" c] by (simp add: state_ok_def set_err_span_def)
next
  case (hs_attach c hs)
  then show ?case using heap_ok_mset[of "map cache hs" "map cache hs @ [[]]" c] by (simp add: state_ok_def fresh_handle_def)
next
  case (hs_drop j hs c)
  then show ?case using heap_ok_at[of j hs c] drop_ok by (auto simp: state_ok_def)
next
  case (hs_collect j hs c work reg h' c')
  let ?others = "map cache (take j hs @ drop (Suc j) hs)"
  have "heap_ok c (cache (hs ! j) # ?others)" using hs_collect heap_ok_at[of j hs c] by (simp add: state_ok_def)
  from collect_body[OF this refl hs_collect(2)] have "heap_ok c' ([] # ?others)" "cache h' = []"
    using hs_collect(3) by auto
  moreover have "map cache (take j (map observe_collection hs) @ drop (Suc j) (map observe_collection hs)) = ?others"
    using observe_cache by (metis drop_map map_append take_map)
  ultimately show ?case
    using heap_ok_front[of j "map observe_collection hs" c' h'] hs_collect(1) by (simp add: state_ok_def)
qed

interpretation heap_run: invariant_system heap_start heap_step state_ok
proof
  fix s assume "heap_start s"
  then show "state_ok s" using heap_ok_default heap_ok_mset[of "[]" "[[]]"]
    by (auto simp: heap_start_def state_ok_def fresh_handle_def)
qed (rule heap_step_ok)


text \<open>
  C2. A collection keeps exactly what the roots reach: it ends without a fault, every object reachable
  from the roots of the attached threads and of the registered fiber contexts stays in its slot,
  unchanged, every other object is gone and its slot is free, survivors are unmarked, error spans of
  freed slots are gone, and the next threshold is twice the survivors, at least 256.
\<close>

theorem collect_exact:
  assumes "heap_ok c (cache h # others)"
    and "R = reachable (heap_map c) (set work \<union> unat ` set (registry_roots reg))"
    and "R \<subseteq> dom (heap_map c)"
  shows "\<exists>h' c'. collect_from h c reg work = Some (Ok (h', c')) \<and> heap_map c' = heap_map c |` R \<and>
    heap_ok c' ([] # others) \<and> cache h' = [] \<and> next_gc c' = max (card R * 2) MIN_GC_THRESHOLD \<and>
    err_spans c' = err_spans c |` (R \<union> - dom (heap_map c))"
  using assms by (rule collect_body)

subsection \<open>What a run of the heap guarantees\<close>

text \<open>
  C10. In every state a run of the heap can reach, whatever the handles of the run allocate, store,
  drop and collect: each empty slot is on the core's free list or in the cache of one handle, once,
  and no slot with an object is on any list; and no object carries a mark between collections.
\<close>

theorem heap_lists_exact:
  assumes "heap_start s" "heap_step\<^sup>*\<^sup>* s (c, hs)"
  shows "distinct (free c @ concat (map cache hs)) \<and>
    set (free c @ concat (map cache hs)) = {i. i < slab_len (slots c) \<and> heap_map c i = None} \<and>
    bit_set (marks c) \<inter> dom (heap_map c) = {}"
  using heap_run.reachable_inv[OF assms] by (simp add: state_ok_def heap_ok_def lists_ok_def unmarked_def)

text \<open>
  An allocation gives out a slot nobody else has: in every reachable state the allocation of a
  handle succeeds unless \<open>2 ^ 32\<close> slots exist and none of them is free for it, the slot it returns held
  no object and is in no other handle's cache nor left on the free list, it now holds the object, and
  every other object is as it was.
\<close>

theorem heap_alloc_fresh:
  assumes "heap_start s" "heap_step\<^sup>*\<^sup>* s (c, hs)" "j < length hs"
    and "cache (hs ! j) \<noteq> [] \<or> free c \<noteq> [] \<or> slab_len (slots c) < 2 ^ 32"
  shows "\<exists>h' c' r. alloc (hs ! j) c ob = Ok (h', c', r) \<and> heap_map c r = None \<and>
    r \<notin> set (concat (map cache (take j hs @ drop (Suc j) hs))) \<and> r \<notin> set (free c') \<and> r \<notin> set (cache h') \<and>
    heap_map c' = (heap_map c)(r \<mapsto> ob) \<and> heap_get c' r = Ok ob"
proof -
  have "heap_ok c (cache (hs ! j) # map cache (take j hs @ drop (Suc j) hs))"
    using heap_run.reachable_inv[OF assms(1,2)] heap_ok_at[OF assms(3)] by (simp add: state_ok_def)
  from alloc_ok[OF this assms(4), of ob] obtain h' c' r where
    a: "alloc (hs ! j) c ob = Ok (h', c', r)" "heap_ok c' (cache h' # map cache (take j hs @ drop (Suc j) hs))"
      "heap_map c r = None" "r \<notin> set (concat (map cache (take j hs @ drop (Suc j) hs)))" "heap_map c' = (heap_map c)(r \<mapsto> ob)"
    by blast
  have "heap_map c' r = Some ob" using a(5) by simp
  moreover have "set (free c') \<union> set (cache h') \<subseteq> {i. heap_map c' i = None}" "core_wf c'"
    using a(2) unfolding heap_ok_def lists_ok_def by auto
  ultimately have "r \<notin> set (free c')" "r \<notin> set (cache h')" "heap_get c' r = Ok ob"
    by (auto simp: heap_get_map)
  then show ?thesis using a by blast
qed

text \<open>A concrete run: one handle allocates two boxed integers.\<close>

definition demo1 :: "heap_handle \<times> heap_core \<times> nat" where
  "demo1 = (case alloc fresh_handle (core_default 0) (O_BigInt 7) of Inr x \<Rightarrow> x | Inl _ \<Rightarrow> (fresh_handle, core_default 0, 0))"

definition demo2 :: "heap_handle \<times> heap_core \<times> nat" where
  "demo2 = (case alloc (fst demo1) (fst (snd demo1)) (O_BigInt 8) of Inr x \<Rightarrow> x | Inl _ \<Rightarrow> demo1)"

lemma sole_handle_room:
  assumes "heap_ok c [cs]" "finite (dom (heap_map c))" "card (dom (heap_map c)) < 2 ^ 32"
  shows "cs \<noteq> [] \<or> free c \<noteq> [] \<or> slab_len (slots c) < 2 ^ 32"
proof (rule ccontr)
  assume a: "\<not> ?thesis"
  then have "{i. i < slab_len (slots c) \<and> heap_map c i = None} = {}" using assms(1) by (auto simp: heap_ok_def lists_ok_def)
  then have "{..<slab_len (slots c)} \<subseteq> dom (heap_map c)" by auto
  from card_mono[OF assms(2) this] have "slab_len (slots c) \<le> card (dom (heap_map c))" by simp
  then show False using a assms(3) by linarith
qed

lemma demo1_facts:
  "alloc fresh_handle (core_default 0) (O_BigInt 7) = Ok demo1" "heap_ok (fst (snd demo1)) [cache (fst demo1)]"
  "heap_map (fst (snd demo1)) = [snd (snd demo1) \<mapsto> O_BigInt 7]"
proof -
  have ok: "heap_ok (core_default 0) [cache fresh_handle]"
    using heap_ok_default[of 0] heap_ok_mset[of "[]" "[[]]"] by (simp add: fresh_handle_def)
  have m: "heap_map (core_default 0) = Map.empty"
    by (simp add: heap_map_def core_default_def slab_new_def fun_eq_iff)
  have room: "cache fresh_handle \<noteq> [] \<or> free (core_default 0) \<noteq> [] \<or> slab_len (slots (core_default 0)) < 2 ^ 32"
    using sole_handle_room[OF ok] by (simp add: m)
  from alloc_ok[OF ok room, of "O_BigInt 7"] obtain h' c' r where
    a: "alloc fresh_handle (core_default 0) (O_BigInt 7) = Ok (h', c', r)" "heap_ok c' [cache h']"
      "heap_map c' = [r \<mapsto> O_BigInt 7]" unfolding m by blast
  have d: "demo1 = (h', c', r)" unfolding demo1_def a(1) by simp
  show
    "alloc fresh_handle (core_default 0) (O_BigInt 7) = Ok demo1" "heap_ok (fst (snd demo1)) [cache (fst demo1)]"
    "heap_map (fst (snd demo1)) = [snd (snd demo1) \<mapsto> O_BigInt 7]"
    unfolding d using a by simp_all
qed

lemma demo1_room: "cache (fst demo1) \<noteq> [] \<or> free (fst (snd demo1)) \<noteq> [] \<or> slab_len (slots (fst (snd demo1))) < 2 ^ 32"
  by (rule sole_handle_room[OF demo1_facts(2)]) (simp_all add: demo1_facts(3))

lemma demo2_facts:
  "heap_ok (fst (snd demo2)) [cache (fst demo2)]" "snd (snd demo2) \<noteq> snd (snd demo1)"
  "heap_map (fst (snd demo2)) = [snd (snd demo1) \<mapsto> O_BigInt 7, snd (snd demo2) \<mapsto> O_BigInt 8]"
proof -
  from alloc_ok[OF demo1_facts(2) demo1_room, of "O_BigInt 8"] obtain h' c' r where
    a: "alloc (fst demo1) (fst (snd demo1)) (O_BigInt 8) = Ok (h', c', r)" "heap_ok c' [cache h']"
      "heap_map (fst (snd demo1)) r = None" "heap_map c' = (heap_map (fst (snd demo1)))(r \<mapsto> O_BigInt 8)" by blast
  have d: "demo2 = (h', c', r)" unfolding demo2_def a(1) by simp
  show "heap_ok (fst (snd demo2)) [cache (fst demo2)]" "snd (snd demo2) \<noteq> snd (snd demo1)"
    "heap_map (fst (snd demo2)) = [snd (snd demo1) \<mapsto> O_BigInt 7, snd (snd demo2) \<mapsto> O_BigInt 8]"
    unfolding d using a by (auto simp: demo1_facts(3))
qed

lemma demo_step: "heap_step (core_default 0, [fresh_handle]) (fst (snd demo1), [fst demo1])"
  using hs_alloc[of 0 "[fresh_handle]" "core_default 0" "O_BigInt 7" "fst demo1" "fst (snd demo1)" "snd (snd demo1)"] demo1_facts(1)
  by simp

lemma demo_start: "heap_start (core_default 0, [fresh_handle])"
  unfolding heap_start_def by blast

theorem collect_exact_witness:
  "\<exists>h' c'. collect_from (fst demo2) (fst (snd demo2)) \<lparr>ctxs = [], reg_free = []\<rparr> [snd (snd demo2)] = Some (Ok (h', c')) \<and>
    heap_map c' = [snd (snd demo2) \<mapsto> O_BigInt 8] \<and> next_gc c' = 256"
proof -
  let ?m = "heap_map (fst (snd demo2))" and ?r = "snd (snd demo2)"
  have reg: "registry_roots \<lparr>ctxs = [], reg_free = []\<rparr> = []" by (simp add: registry_roots_def)
  have "reachable ?m {?r} \<subseteq> {?r}"
    by (rule reachable_least) (auto simp: child_set_def demo2_facts(3))
  then have R: "reachable ?m {?r} = {?r}" by (auto intro: reachable.root)
  have e: "{?r} = reachable ?m (set [?r] \<union> unat ` set (registry_roots \<lparr>ctxs = [], reg_free = []\<rparr>))"
    by (simp add: reg R)
  have sub: "{?r} \<subseteq> dom ?m" by (simp add: demo2_facts(3))
  have "?m |` {?r} = [?r \<mapsto> O_BigInt 8]" by (auto simp: demo2_facts(3) restrict_map_def fun_eq_iff)
  moreover have "max (card {?r} * 2) MIN_GC_THRESHOLD = 256" by (simp add: MIN_GC_THRESHOLD_def)
  ultimately show ?thesis using collect_exact[OF demo2_facts(1) e sub] by metis
qed

theorem heap_lists_exact_witness:
  "distinct (free (fst (snd demo1)) @ concat (map cache [fst demo1])) \<and>
    set (free (fst (snd demo1)) @ concat (map cache [fst demo1])) =
      {i. i < slab_len (slots (fst (snd demo1))) \<and> heap_map (fst (snd demo1)) i = None}"
  using heap_lists_exact[OF demo_start r_into_rtranclp[of heap_step, OF demo_step]] by blast

theorem heap_alloc_fresh_witness:
  "\<exists>h' c' r. alloc (fst demo1) (fst (snd demo1)) (O_BigInt 8) = Ok (h', c', r) \<and> r \<noteq> snd (snd demo1) \<and>
    heap_get c' r = Ok (O_BigInt 8)"
proof -
  let ?c = "fst (snd demo1)"
  have "cache ([fst demo1] ! 0) \<noteq> [] \<or> free ?c \<noteq> [] \<or> slab_len (slots ?c) < 2 ^ 32" using demo1_room by simp
  from heap_alloc_fresh[OF demo_start r_into_rtranclp[of heap_step, OF demo_step] _ this, of "O_BigInt 8"]
  obtain h' c' r where "alloc (fst demo1) ?c (O_BigInt 8) = Ok (h', c', r)" "heap_map ?c r = None" "heap_get c' r = Ok (O_BigInt 8)"
    by auto
  moreover from this(2) have "r \<noteq> snd (snd demo1)" by (auto simp: demo1_facts(3))
  ultimately show ?thesis by blast
qed

end
