(* ===== verification/Lexer.thy ===== *)
theory Lexer
  imports Text Consteval
begin

text \<open>
  The lexer, \<^verbatim>\<open>src/src/lexer/mod.rs\<close>: source text to a list of tokens with their positions, the offside
  rule (Indent and Dedent tokens), brackets that suspend it, and string literals whose interpolation
  holes are lexed in place. A source is a list of code points. A vector used as a stack has its top at
  the head of the list. A scanner step returns the lexer it leaves behind with its result, since an error
  is inspected together with the state. The steps that lex a hole take the token step of the level
  below as an argument; \<open>None\<close> stands for a loop that was not given enough rounds.
\<close>

subsection \<open>Tokens\<close>

datatype keyword_token =
    K_Fn | K_Return | K_If | K_Else | K_Elif | K_For | K_While | K_In | K_Break | K_Continue | K_Pass
  | K_Struct | K_Enum | K_Protocol | K_Type | K_Match | K_Recover | K_Defer | K_Assert | K_Test | K_Spawn
  | K_Parallel | K_Wait | K_Yield | K_Import | K_Extern | K_Native | K_From | K_As | K_Const | K_And | K_Or
  | K_Not | K_True | K_False | K_None | K_Where

datatype operator =
    P_Plus | P_Minus | P_Star | P_Slash | P_Percent | P_Assign | P_Walrus | P_EqEq | P_NotEq | P_Lt | P_LtEq
  | P_Gt | P_GtEq | P_PlusEq | P_MinusEq | P_StarEq | P_SlashEq | P_PercentEq | P_AmpEq | P_PipeEq
  | P_CaretEq | P_ShlEq | P_ShrEq | P_Arrow | P_Pipe | P_Question | P_QuestionDot | P_QuestionQuestion
  | P_Bang | P_Amp | P_Caret | P_BitOr | P_Shl | P_Shr

datatype delimiter =
    D_LParen | D_RParen | D_LBracket | D_RBracket | D_LBrace | D_RBrace | D_Comma | D_Colon | D_Dot
  | D_DotDot | D_DotDotEq | D_DotDotDot

text \<open>A literal holds its parts and its length in the source; a hole its tokens, its spec and where the spec starts.\<close>

datatype token =
    T_Int i64
  | T_IntMinMagnitude
  | T_Float u64
  | T_Str "str_part list" nat
  | T_Bytes "u8 list"
  | T_RawStr "nat list"
  | T_Ident "nat list"
  | T_Kw keyword_token
  | T_Op operator
  | T_Delim delimiter
  | Newline
  | Indent
  | Dedent
  | Eof
and tok = Tok (tok_kind: token) (tok_span: span) (tok_indent: "u32 option")
and str_part = SText "nat list" | SHole str_hole
and str_hole = Hole (hole_toks: "tok list") (hole_spec: "spec_part list option") (hole_spec_at: span)
and spec_part = SpText "nat list" | SpField "tok list"

type_synonym doc_comment = "nat \<times> nat list"

record lex_error =
  e_line :: nat
  e_col :: nat
  e_message :: "nat list"

text \<open>
  What the lexer takes from the standard library's tables: the Unicode classes of a character beyond
  ASCII, the \<^verbatim>\<open>{:?}\<close> form of one, and the parser of \<^verbatim>\<open>f64\<close>.
\<close>

record unicode =
  wide_alphabetic :: "nat \<Rightarrow> bool"
  wide_numeric :: "nat \<Rightarrow> bool"
  wide_whitespace :: "nat \<Rightarrow> bool"
  debug_char :: "nat \<Rightarrow> nat list"
  parse_f64 :: "nat list \<Rightarrow> (u64, nat list) result"

text \<open>Code points.\<close>

abbreviation (input) "c_tab \<equiv> (9::nat)"
abbreviation (input) "c_nl \<equiv> (10::nat)"
abbreviation (input) "c_cr \<equiv> (13::nat)"
abbreviation (input) "c_space \<equiv> (32::nat)"
abbreviation (input) "c_bang \<equiv> (33::nat)"
abbreviation (input) "c_quote2 \<equiv> (34::nat)"
abbreviation (input) "c_hash \<equiv> (35::nat)"
abbreviation (input) "c_percent \<equiv> (37::nat)"
abbreviation (input) "c_amp \<equiv> (38::nat)"
abbreviation (input) "c_quote1 \<equiv> (39::nat)"
abbreviation (input) "c_lparen \<equiv> (40::nat)"
abbreviation (input) "c_rparen \<equiv> (41::nat)"
abbreviation (input) "c_star \<equiv> (42::nat)"
abbreviation (input) "c_plus \<equiv> (43::nat)"
abbreviation (input) "c_comma \<equiv> (44::nat)"
abbreviation (input) "c_minus \<equiv> (45::nat)"
abbreviation (input) "c_dot \<equiv> (46::nat)"
abbreviation (input) "c_slash \<equiv> (47::nat)"
abbreviation (input) "c_0 \<equiv> (48::nat)"
abbreviation (input) "c_colon \<equiv> (58::nat)"
abbreviation (input) "c_lt \<equiv> (60::nat)"
abbreviation (input) "c_eq \<equiv> (61::nat)"
abbreviation (input) "c_gt \<equiv> (62::nat)"
abbreviation (input) "c_question \<equiv> (63::nat)"
abbreviation (input) "c_B \<equiv> (66::nat)"
abbreviation (input) "c_E \<equiv> (69::nat)"
abbreviation (input) "c_O \<equiv> (79::nat)"
abbreviation (input) "c_R \<equiv> (82::nat)"
abbreviation (input) "c_X \<equiv> (88::nat)"
abbreviation (input) "c_lbracket \<equiv> (91::nat)"
abbreviation (input) "c_backslash \<equiv> (92::nat)"
abbreviation (input) "c_rbracket \<equiv> (93::nat)"
abbreviation (input) "c_caret \<equiv> (94::nat)"
abbreviation (input) "c_underscore \<equiv> (95::nat)"
abbreviation (input) "c_b \<equiv> (98::nat)"
abbreviation (input) "c_e \<equiv> (101::nat)"
abbreviation (input) "c_n \<equiv> (110::nat)"
abbreviation (input) "c_o \<equiv> (111::nat)"
abbreviation (input) "c_r \<equiv> (114::nat)"
abbreviation (input) "c_t \<equiv> (116::nat)"
abbreviation (input) "c_u \<equiv> (117::nat)"
abbreviation (input) "c_x \<equiv> (120::nat)"
abbreviation (input) "c_lbrace \<equiv> (123::nat)"
abbreviation (input) "c_bar \<equiv> (124::nat)"
abbreviation (input) "c_rbrace \<equiv> (125::nat)"
abbreviation (input) "c_bom \<equiv> (65279::nat)"

definition ascii_digit :: "nat \<Rightarrow> bool" where
  "ascii_digit c \<longleftrightarrow> 48 \<le> c \<and> c \<le> 57"

definition ascii_alnum :: "nat \<Rightarrow> bool" where
  "ascii_alnum c \<longleftrightarrow> 48 \<le> c \<and> c \<le> 57 \<or> 65 \<le> c \<and> c \<le> 90 \<or> 97 \<le> c \<and> c \<le> 122"

definition is_alphabetic :: "unicode \<Rightarrow> nat \<Rightarrow> bool" where
  "is_alphabetic u c = (if c < 128 then 65 \<le> c \<and> c \<le> 90 \<or> 97 \<le> c \<and> c \<le> 122 else wide_alphabetic u c)"

definition is_alphanumeric :: "unicode \<Rightarrow> nat \<Rightarrow> bool" where
  "is_alphanumeric u c = (if c < 128 then ascii_alnum c else wide_alphabetic u c \<or> wide_numeric u c)"

definition is_whitespace :: "unicode \<Rightarrow> nat \<Rightarrow> bool" where
  "is_whitespace u c = (if c < 128 then 9 \<le> c \<and> c \<le> 13 \<or> c = 32 else wide_whitespace u c)"

definition is_digit :: "nat \<Rightarrow> nat \<Rightarrow> bool" where
  "is_digit radix c \<longleftrightarrow> (case to_digit16 c of Some d \<Rightarrow> d < radix | None \<Rightarrow> False)"

definition is_word :: "unicode \<Rightarrow> nat \<Rightarrow> bool" where
  "is_word u c \<longleftrightarrow> is_alphanumeric u c \<or> c = c_underscore"

subsection \<open>The source\<close>

definition strip_bom :: "nat list \<Rightarrow> nat list" where
  "strip_bom source = (if source \<noteq> [] \<and> hd source = c_bom then List.tl source else source)"

fun join_crlf :: "nat list \<Rightarrow> nat list" where
  "join_crlf [] = []"
| "join_crlf (c # cs) =
     (if c = c_cr \<and> (case cs of d # _ \<Rightarrow> d = c_nl | [] \<Rightarrow> False) then join_crlf cs else c # join_crlf cs)"

definition source_chars :: "nat list \<Rightarrow> nat list" where
  "source_chars source = join_crlf (strip_bom source)"

subsection \<open>Spellings\<close>

definition NONE :: string where "NONE = ''None''"

definition KEYWORDS :: "(string \<times> keyword_token) list" where
  "KEYWORDS =
     [(''fn'', K_Fn), (''return'', K_Return), (''if'', K_If), (''else'', K_Else), (''elif'', K_Elif),
      (''for'', K_For), (''while'', K_While), (''in'', K_In), (''break'', K_Break),
      (''continue'', K_Continue), (''pass'', K_Pass), (''struct'', K_Struct), (''enum'', K_Enum),
      (''protocol'', K_Protocol), (''type'', K_Type), (''match'', K_Match), (''recover'', K_Recover),
      (''defer'', K_Defer), (''assert'', K_Assert), (''test'', K_Test), (''spawn'', K_Spawn),
      (''parallel'', K_Parallel), (''wait'', K_Wait), (''yield'', K_Yield), (''import'', K_Import),
      (''extern'', K_Extern), (''native'', K_Native), (''from'', K_From), (''as'', K_As),
      (''const'', K_Const), (''and'', K_And), (''or'', K_Or), (''not'', K_Not), (''true'', K_True),
      (''false'', K_False), (NONE, K_None), (''where'', K_Where)]"

definition keyword :: "nat list \<Rightarrow> token option" where
  "keyword word = map_option (T_Kw \<circ> snd) (find (\<lambda>(w, _). codes w = word) KEYWORDS)"

definition is_keyword :: "nat list \<Rightarrow> bool" where
  "is_keyword word \<longleftrightarrow> keyword word \<noteq> None"

definition PUNCTUATION :: "token list" where
  "PUNCTUATION =
     map T_Op [P_Plus, P_Minus, P_Star, P_Slash, P_Percent, P_Assign, P_Walrus, P_EqEq, P_NotEq, P_Lt, P_LtEq,
       P_Gt, P_GtEq, P_PlusEq, P_MinusEq, P_StarEq, P_SlashEq, P_PercentEq, P_AmpEq, P_PipeEq, P_CaretEq,
       P_ShlEq, P_ShrEq, P_Arrow, P_Pipe, P_Question, P_QuestionDot, P_QuestionQuestion, P_Bang, P_Amp,
       P_Caret, P_BitOr, P_Shl, P_Shr] @
     map T_Delim [D_LParen, D_RParen, D_LBracket, D_RBracket, D_LBrace, D_RBrace, D_Comma, D_Colon, D_Dot,
       D_DotDot, D_DotDotEq, D_DotDotDot]"

fun op_text :: "operator \<Rightarrow> string" where
  "op_text P_Plus = ''+''"
| "op_text P_Minus = ''-''"
| "op_text P_Star = ''*''"
| "op_text P_Slash = ''/''"
| "op_text P_Percent = ''%''"
| "op_text P_Assign = ''=''"
| "op_text P_Walrus = '':=''"
| "op_text P_EqEq = ''==''"
| "op_text P_NotEq = ''!=''"
| "op_text P_Lt = ''<''"
| "op_text P_LtEq = ''<=''"
| "op_text P_Gt = ''>''"
| "op_text P_GtEq = ''>=''"
| "op_text P_PlusEq = ''+=''"
| "op_text P_MinusEq = ''-=''"
| "op_text P_StarEq = ''*=''"
| "op_text P_SlashEq = ''/=''"
| "op_text P_PercentEq = ''%=''"
| "op_text P_AmpEq = ''&=''"
| "op_text P_PipeEq = ''|=''"
| "op_text P_CaretEq = ''^=''"
| "op_text P_ShlEq = ''<<=''"
| "op_text P_ShrEq = ''>>=''"
| "op_text P_Arrow = ''->''"
| "op_text P_Pipe = ''|>''"
| "op_text P_Question = ''?''"
| "op_text P_QuestionDot = ''?.''"
| "op_text P_QuestionQuestion = ''??''"
| "op_text P_Bang = ''!''"
| "op_text P_Amp = ''&''"
| "op_text P_Caret = ''^''"
| "op_text P_BitOr = ''|''"
| "op_text P_Shl = ''<<''"
| "op_text P_Shr = ''>>''"

fun delim_text :: "delimiter \<Rightarrow> string" where
  "delim_text D_LParen = ''(''"
| "delim_text D_RParen = '')''"
| "delim_text D_LBracket = ''[''"
| "delim_text D_RBracket = '']''"
| "delim_text D_LBrace = ''{''"
| "delim_text D_RBrace = ''}''"
| "delim_text D_Comma = '',''"
| "delim_text D_Colon = '':''"
| "delim_text D_Dot = ''.''"
| "delim_text D_DotDot = ''..''"
| "delim_text D_DotDotEq = ''..=''"
| "delim_text D_DotDotDot = ''...''"

fun lexeme :: "token \<Rightarrow> string option" where
  "lexeme (T_Kw k) = map_option fst (find (\<lambda>(_, t). t = k) KEYWORDS)"
| "lexeme (T_Op p) = Some (op_text p)"
| "lexeme (T_Delim d) = Some (delim_text d)"
| "lexeme _ = None"

fun ends_operand :: "token \<Rightarrow> bool \<Rightarrow> bool" where
  "ends_operand (T_Op P_Question) before_q = before_q"
| "ends_operand (T_Int _) _ = True"
| "ends_operand T_IntMinMagnitude _ = True"
| "ends_operand (T_Float _) _ = True"
| "ends_operand (T_Str _ _) _ = True"
| "ends_operand (T_Bytes _) _ = True"
| "ends_operand (T_RawStr _) _ = True"
| "ends_operand (T_Ident _) _ = True"
| "ends_operand (T_Kw k) _ = (k = K_True \<or> k = K_False \<or> k = K_None)"
| "ends_operand (T_Delim d) _ = (d = D_RParen \<or> d = D_RBracket \<or> d = D_RBrace)"
| "ends_operand _ _ = False"

subsection \<open>The cursor\<close>

record lexer =
  l_chars :: "nat list"
  l_pos :: nat
  l_line :: nat
  l_file :: u32
  l_line_start :: nat
  l_indents :: "nat list"
  l_at_line_start :: bool
  l_pending :: "tok list"
  l_bracket_depth :: nat
  l_hole_base :: nat
  l_hole_nest :: nat
  l_hole_comment :: "span option"
  l_doc_comments :: "doc_comment list"
  l_pipe_cont :: "nat option"
  l_after_operand :: bool

type_synonym 'a scan = "lexer \<times> ('a, lex_error) result"

definition new_file :: "nat list \<Rightarrow> u32 \<Rightarrow> lexer" where
  "new_file source ident =
     \<lparr>l_chars = source_chars source, l_pos = 0, l_line = 1, l_file = ident, l_line_start = 0, l_indents = [0],
      l_at_line_start = True, l_pending = [], l_bracket_depth = 0, l_hole_base = 0, l_hole_nest = 0,
      l_hole_comment = None, l_doc_comments = [], l_pipe_cont = None, l_after_operand = False\<rparr>"

definition char_at :: "lexer \<Rightarrow> nat \<Rightarrow> nat option" where
  "char_at l i = (if i < length (l_chars l) then Some (l_chars l ! i) else None)"

definition rest :: "lexer \<Rightarrow> nat list" where
  "rest l = drop (l_pos l) (l_chars l)"

definition span_at :: "lexer \<Rightarrow> nat \<Rightarrow> span" where
  "span_at l p = \<lparr>sp_line = of_nat (l_line l), sp_col = of_nat (p - l_line_start l + 1), sp_file = l_file l\<rparr>"

definition peek :: "lexer \<Rightarrow> nat" where
  "peek l = (case char_at l (l_pos l) of Some c \<Rightarrow> c | None \<Rightarrow> 0)"

definition is_at_end :: "lexer \<Rightarrow> bool" where
  "is_at_end l \<longleftrightarrow> length (l_chars l) \<le> l_pos l"

definition peek_next :: "lexer \<Rightarrow> nat" where
  "peek_next l = (case char_at l (l_pos l + 1) of Some c \<Rightarrow> c | None \<Rightarrow> 0)"

definition move :: "nat \<Rightarrow> lexer \<Rightarrow> lexer" where
  "move n l = l\<lparr>l_pos := l_pos l + n\<rparr>"

definition advance :: "lexer \<Rightarrow> lexer" where
  "advance l = move 1 l"

definition match_char :: "nat \<Rightarrow> lexer \<Rightarrow> lexer \<times> bool" where
  "match_char expected l = (if peek l = expected then (advance l, True) else (l, False))"

text \<open>The loop that advances while the current character satisfies \<open>P\<close>, which is false at the end of input.\<close>

definition advance_while :: "(nat \<Rightarrow> bool) \<Rightarrow> lexer \<Rightarrow> lexer" where
  "advance_while P l = move (length (takeWhile P (rest l))) l"

text \<open>The bookkeeping of a newline at \<open>l_pos l\<close>, done before or after it is consumed.\<close>

definition newline_here :: "lexer \<Rightarrow> lexer" where
  "newline_here l = l\<lparr>l_line := l_line l + 1, l_line_start := l_pos l + 1\<rparr>"

definition take_newline :: "lexer \<Rightarrow> lexer" where
  "take_newline l = advance (newline_here l)"

definition error_span :: "span \<Rightarrow> nat list \<Rightarrow> lex_error" where
  "error_span sp message = \<lparr>e_line = unat (sp_line sp), e_col = unat (sp_col sp), e_message = message\<rparr>"

definition error_at :: "lexer \<Rightarrow> nat \<Rightarrow> nat list \<Rightarrow> lex_error" where
  "error_at l p message = error_span (span_at l p) message"

definition lex_error_here :: "lexer \<Rightarrow> nat list \<Rightarrow> lex_error" where
  "lex_error_here l message = error_at l (l_pos l) message"

subsection \<open>Layout\<close>

definition inconsistent_dedent :: "nat list" where
  "inconsistent_dedent = codes ''inconsistent dedent '' @ [8212] @ codes '' does not match any outer indentation level''"

definition indent_step :: "nat list \<Rightarrow> nat \<Rightarrow> nat list \<times> (token list, nat list) result" where
  "indent_step indents width =
     (let top = hd indents in
      if width > top then (width # indents, Ok [Indent])
      else if width = top then (indents, Ok [])
      else let closed = takeWhile (\<lambda>i. i > width) indents; indents' = dropWhile (\<lambda>i. i > width) indents
           in if hd indents' \<noteq> width then (indents', Err inconsistent_dedent)
              else (indents', Ok (replicate (length closed) Dedent)))"

lemma takeWhile_drop_pos: "i < length cs \<Longrightarrow> P (cs ! i) \<Longrightarrow> 0 < length (takeWhile P (drop i cs))"
  by (simp add: Cons_nth_drop_Suc [symmetric])

lemma takeWhile_drop_le: "i + length (takeWhile P (drop i cs)) \<le> max i (length cs)"
  using length_takeWhile_le [of P "drop i cs"] by simp

text \<open>The continuation lookahead: from just past a newline to the next content.\<close>

function pipe_scan :: "nat list \<Rightarrow> nat \<Rightarrow> nat \<Rightarrow> nat \<times> nat" where
  "pipe_scan cs i line_start =
     (if i < length cs \<and> (cs ! i = c_space \<or> cs ! i = c_tab \<or> cs ! i = c_cr) then pipe_scan cs (i + 1) line_start
      else if i < length cs \<and> cs ! i = c_nl then pipe_scan cs (i + 1) (i + 1)
      else if i < length cs \<and> cs ! i = c_hash then
        pipe_scan cs (i + length (takeWhile (\<lambda>c. c \<noteq> c_nl) (drop i cs))) line_start
      else (i, line_start))"
  by pat_completeness auto
termination
  by (relation "measure (\<lambda>(cs, i, _). length cs - i)") (auto intro!: diff_less_mono2 simp: takeWhile_eq_Nil_iff hd_drop_conv_nth)

declare pipe_scan.simps [simp del]

definition pipe_found :: "lexer \<Rightarrow> nat option" where
  "pipe_found l =
     (let (i, line_start) = pipe_scan (l_chars l) (l_pos l) (l_pos l);
          indent = drop line_start (take i (l_chars l))
      in if char_at l i \<noteq> Some c_bar \<or> char_at l (i + 1) \<noteq> Some c_gt then None
         else if list_ex (\<lambda>c. c \<noteq> c_space) indent \<or> length indent < hd (l_indents l) then None
         else Some i)"

definition pipe_continues_next_line :: "lexer \<Rightarrow> lexer \<times> bool" where
  "pipe_continues_next_line l =
     (if (case l_pipe_cont l of Some t \<Rightarrow> l_pos l \<le> t | None \<Rightarrow> False) then (l, True)
      else let l' = l\<lparr>l_pipe_cont := None\<rparr>
           in case pipe_found l' of
                None \<Rightarrow> (l', False)
              | Some i \<Rightarrow> (l'\<lparr>l_pipe_cont := Some i\<rparr>, True))"

text \<open>
  The start of a line. One round: a blank line or a comment line is passed, a content line gives its
  layout tokens, the end of the input gives nothing.
\<close>

datatype line_start = Passed lexer | Content lexer nat | At_End lexer | Tab_Error lexer

definition skip_blank :: "lexer \<Rightarrow> lexer" where
  "skip_blank l =
     (let ws = length (takeWhile (\<lambda>c. c = c_space \<or> c = c_tab) (rest l)); c = char_at l (l_pos l + ws)
      in if c = None \<or> c = Some c_nl \<or> c = Some c_hash then move ws l else l)"

definition doc_line :: "lexer \<Rightarrow> lexer" where
  "doc_line l =
     (let l' = advance_while (\<lambda>c. c \<noteq> c_nl) l;
          body_start = (if char_at l (l_pos l + 1) = Some c_space then l_pos l + 2 else l_pos l + 1);
          body = drop body_start (take (l_pos l') (l_chars l'))
      in l'\<lparr>l_doc_comments := l_doc_comments l' @ [(l_line l', body)]\<rparr>)"

definition indent_line :: "lexer \<Rightarrow> line_start" where
  "indent_line l =
     (let l0 = skip_blank l;
          width = length (takeWhile (\<lambda>c. c = c_space) (rest l0));
          l1 = advance_while (\<lambda>c. c = c_space) l0
      in if peek l1 = c_tab then Tab_Error l1
         else if peek l1 = c_nl then Passed (take_newline l1)
         else if peek l1 = c_hash then Passed (doc_line l1)
         else if is_at_end l1 then At_End l1
         else Content l1 width)"

lemma rest_Nil_iff: "rest l = [] \<longleftrightarrow> is_at_end l"
  by (simp add: rest_def is_at_end_def)

lemma peek_rest: "peek l = (case rest l of c # _ \<Rightarrow> c | [] \<Rightarrow> 0)"
  by (auto simp: peek_def char_at_def rest_def Cons_nth_drop_Suc [symmetric] split: list.splits)

lemma peek_nonzero: "peek l = c \<Longrightarrow> 0 < c \<Longrightarrow> l_pos l < length (l_chars l) \<and> l_chars l ! l_pos l = c"
  by (auto simp: peek_def char_at_def split: if_splits)

lemma advance_while_fields [simp]:
  "l_chars (advance_while P l) = l_chars l" "l_pos (advance_while P l) = l_pos l + length (takeWhile P (rest l))"
  by (simp_all add: advance_while_def move_def)

lemma take_newline_fields [simp]:
  "l_chars (take_newline l) = l_chars l" "l_pos (take_newline l) = l_pos l + 1"
  by (simp_all add: take_newline_def newline_here_def advance_def move_def)

lemma takeWhile_rest_pos: "peek l = c \<Longrightarrow> 0 < c \<Longrightarrow> P c \<Longrightarrow> 0 < length (takeWhile P (rest l))"
  using peek_nonzero [of l c] takeWhile_drop_pos [of "l_pos l" "l_chars l" P] by (simp add: rest_def)

lemma skip_blank_chars [simp]: "l_chars (skip_blank l) = l_chars l"
  by (simp add: skip_blank_def move_def Let_def)

lemma skip_blank_mono: "l_pos l \<le> l_pos (skip_blank l)"
  by (simp add: skip_blank_def move_def Let_def)

lemma doc_line_fields [simp]:
  "l_chars (doc_line l) = l_chars l" "l_pos (doc_line l) = l_pos l + length (takeWhile (\<lambda>c. c \<noteq> c_nl) (rest l))"
  by (simp_all add: doc_line_def Let_def)

fun line_lexer :: "line_start \<Rightarrow> lexer" where
  "line_lexer (Passed l) = l"
| "line_lexer (Content l _) = l"
| "line_lexer (At_End l) = l"
| "line_lexer (Tab_Error l) = l"

lemma indent_line_mono: "l_chars (line_lexer (indent_line l)) = l_chars l \<and> l_pos l \<le> l_pos (line_lexer (indent_line l))"
  using skip_blank_mono [of l] by (auto simp: indent_line_def Let_def)

lemma indent_line_progress:
  assumes "indent_line l = Passed l'"
  shows "l_chars l' = l_chars l \<and> l_pos l < l_pos l' \<and> l_pos l < length (l_chars l)"
proof -
  define l1 where "l1 = advance_while (\<lambda>c. c = c_space) (skip_blank l)"
  have l1: "l_chars l1 = l_chars l" "l_pos l \<le> l_pos l1"
    using skip_blank_mono [of l] by (simp_all add: l1_def)
  have "l_pos l1 < length (l_chars l1) \<and> l_chars l' = l_chars l1 \<and> l_pos l1 < l_pos l'"
    using assms peek_nonzero [of l1] takeWhile_rest_pos [of l1 c_hash "\<lambda>c. c \<noteq> c_nl"]
    unfolding indent_line_def l1_def [symmetric] Let_def by (auto split: if_splits)
  then show ?thesis using l1 by auto
qed

function scan_indentation :: "lexer \<Rightarrow> tok list option scan" where
  "scan_indentation l =
     (case indent_line l of
        Passed l' \<Rightarrow> scan_indentation l'
      | At_End l' \<Rightarrow> (l', Ok None)
      | Tab_Error l' \<Rightarrow>
          (l', Err (lex_error_here l' (codes ''tabs are not allowed for indentation '' @ [8212] @ codes '' use spaces'')))
      | Content l' width \<Rightarrow>
          (case indent_step (l_indents l') width of
             (indents, Inr layout) \<Rightarrow>
               (l'\<lparr>l_indents := indents\<rparr>, Ok (Some (map (\<lambda>k. Tok k (span_at l' (l_pos l')) None) layout)))
           | (indents, Inl message) \<Rightarrow>
               let l'' = l'\<lparr>l_indents := indents\<rparr> in (l'', Err (lex_error_here l'' message))))"
  by pat_completeness auto
termination
  by (relation "measure (\<lambda>l. length (l_chars l) - l_pos l)")
     (auto dest!: indent_line_progress intro: diff_less_mono2)

declare scan_indentation.simps [simp del]

definition note_hash :: "lexer \<Rightarrow> lexer" where
  "note_hash l =
     (if 0 < l_hole_base l \<and> l_hole_comment l = None then l\<lparr>l_hole_comment := Some (span_at l (l_pos l))\<rparr> else l)"

lemma note_hash_fields [simp]:
  "l_chars (note_hash l) = l_chars l" "l_pos (note_hash l) = l_pos l" "rest (note_hash l) = rest l"
  by (simp_all add: note_hash_def rest_def)

function skip_inline :: "lexer \<Rightarrow> lexer" where
  "skip_inline l =
     (if peek l = c_space \<or> peek l = c_tab \<or> peek l = c_cr then skip_inline (advance l)
      else if peek l = c_hash then
        skip_inline (advance_while (\<lambda>c. c \<noteq> c_nl) (note_hash l))
      else l)"
  by pat_completeness auto
termination
proof (relation "measure (\<lambda>l. length (l_chars l) - l_pos l)", goal_cases)
  case (2 l)
  then have "l_pos l < length (l_chars l)" using peek_nonzero [of l] by auto
  then show ?case by (simp add: advance_def move_def)
next
  case (3 l)
  then have "l_pos l < length (l_chars l)" "0 < length (takeWhile (\<lambda>c. c \<noteq> c_nl) (rest l))"
    using peek_nonzero [of l] takeWhile_rest_pos [of l c_hash "\<lambda>c. c \<noteq> c_nl"] by auto
  then show ?case by (auto simp: rest_def intro!: diff_less_mono2)
qed simp

declare skip_inline.simps [simp del]

text \<open>
  Steps A to D of \<^verbatim>\<open>scan_token\<close>, one round: a layout token, an error, a newline that does not end the
  logical line, or the start of a real token.
\<close>

datatype round = Emit lexer tok | Fail lexer lex_error | Again lexer | Real lexer

definition at_input_end :: "lexer \<Rightarrow> round" where
  "at_input_end l =
     (let sp = span_at l (l_pos l) in
      if \<not> l_at_line_start l then Emit (l\<lparr>l_at_line_start := True\<rparr>) (Tok Newline sp None)
      else if 0 < hd (l_indents l) then Emit (l\<lparr>l_indents := List.tl (l_indents l)\<rparr>) (Tok Dedent sp None)
      else Emit l (Tok Eof sp None))"

definition at_newline :: "lexer \<Rightarrow> round" where
  "at_newline l =
     (let sp = span_at l (l_pos l); l1 = take_newline l in
      if 0 < l_bracket_depth l1 then Again l1
      else case pipe_continues_next_line l1 of
             (l2, True) \<Rightarrow> Again l2
           | (l2, False) \<Rightarrow> Emit (l2\<lparr>l_at_line_start := True\<rparr>) (Tok Newline sp None))"

definition after_indent :: "lexer \<Rightarrow> round" where
  "after_indent l0 =
     (let l = skip_inline l0 in
      if is_at_end l then at_input_end l
      else if peek l = c_nl then at_newline l
      else Real l)"

definition layout_round :: "lexer \<Rightarrow> round" where
  "layout_round l =
     (if l_at_line_start l \<and> l_bracket_depth l = 0 then
        (case scan_indentation l of
           (l1, Inl e) \<Rightarrow> Fail l1 e
         | (l1, Inr (Some layout)) \<Rightarrow>
             (case l_pending l1 @ layout of
                t # ts \<Rightarrow> Emit (l1\<lparr>l_at_line_start := False, l_pending := ts\<rparr>) t
              | [] \<Rightarrow> after_indent (l1\<lparr>l_at_line_start := False, l_pending := []\<rparr>))
         | (l1, Inr None) \<Rightarrow> after_indent l1)
      else after_indent l)"

subsection \<open>Words and numbers\<close>

definition slice :: "lexer \<Rightarrow> nat \<Rightarrow> nat list" where
  "slice l start = drop start (take (l_pos l) (l_chars l))"

definition lex_identifier :: "unicode \<Rightarrow> nat \<Rightarrow> lexer \<Rightarrow> lexer \<times> token" where
  "lex_identifier u start l =
     (let l' = advance_while (is_word u) l; word = slice l' start
      in (l', case keyword word of Some t \<Rightarrow> t | None \<Rightarrow> T_Ident word))"

definition parse_too_large :: "nat list" where
  "parse_too_large = codes ''number too large to fit in target type''"

fun from_str_radix :: "nat \<Rightarrow> nat list \<Rightarrow> nat \<Rightarrow> (nat, nat list) result" where
  "from_str_radix radix [] acc = Ok acc"
| "from_str_radix radix (c # cs) acc =
     (if \<not> is_digit radix c then Err (codes ''invalid digit found in string'')
      else let acc' = acc * radix + the (to_digit16 c)
           in if int acc' \<le> i64_max then from_str_radix radix cs acc' else Err parse_too_large)"

text \<open>The first underscore that does not stand between digits; \<open>lead\<close> allows one at the front.\<close>

definition bad_underscore :: "(nat \<Rightarrow> bool) \<Rightarrow> bool \<Rightarrow> nat list \<Rightarrow> nat \<Rightarrow> nat option" where
  "bad_underscore digit lead word n =
     find (\<lambda>i. word ! i = c_underscore \<and>
                \<not> ((if i = 0 then lead else digit (word ! (i - 1))) \<and> i + 1 < length word \<and> digit (word ! (i + 1))))
       [0..<n]"

definition underscore_message :: "nat list" where
  "underscore_message = [39, 95, 39] @ codes '' in a number must be between digits''"

definition radix_of_marker :: "nat \<Rightarrow> (nat \<times> string) option" where
  "radix_of_marker c =
     (if c = c_x \<or> c = c_X then Some (16, ''hexadecimal'')
      else if c = c_b \<or> c = c_B then Some (2, ''binary'')
      else if c = c_o \<or> c = c_O then Some (8, ''octal'')
      else None)"

definition radix_number :: "nat \<Rightarrow> nat \<Rightarrow> string \<Rightarrow> lexer \<Rightarrow> token scan" where
  "radix_number start radix name l =
     (let l1 = advance l; body_start = l_pos l1;
          l2 = advance_while (\<lambda>c. ascii_alnum c \<or> c = c_underscore) l1; body = slice l2 body_start
      in if body = [] then (l2, Err (error_at l2 start (codes ''empty '' @ codes name @ codes '' literal'')))
         else case bad_underscore (is_digit radix) True body (length body) of
                Some i \<Rightarrow> (l2, Err (error_at l2 (body_start + i) underscore_message))
              | None \<Rightarrow>
                  (case from_str_radix radix (filter (\<lambda>c. c \<noteq> c_underscore) body) 0 of
                     Inr v \<Rightarrow> (l2, Ok (T_Int (of_nat v)))
                   | Inl e \<Rightarrow>
                       (l2, Err (error_at l2 start (codes ''invalid '' @ codes name @ codes '' literal: '' @ e)))))"

definition digits_value :: "nat list \<Rightarrow> nat" where
  "digits_value ds = foldl (\<lambda>n c. n * 10 + (c - 48)) 0 ds"

definition leading_zeros :: "nat list \<Rightarrow> nat list" where
  "leading_zeros num =
     (let trimmed = dropWhile (\<lambda>c. c = c_0) num in
      codes ''leading zeros in a decimal integer literal are not permitted; write '' @
      (if list_all (\<lambda>c. 48 \<le> c \<and> c \<le> 55) num
       then codes ''0o'' @ trimmed @ codes '' for octal or '' @ trimmed @ codes '' for decimal''
       else trimmed @ codes '' for decimal''))"

definition digit_or_underscore :: "nat \<Rightarrow> bool" where
  "digit_or_underscore c \<longleftrightarrow> ascii_digit c \<or> c = c_underscore"

definition field_index :: "lexer \<Rightarrow> nat \<Rightarrow> bool" where
  "field_index l start \<longleftrightarrow>
     1 \<le> start \<and> l_chars l ! (start - 1) = c_dot \<and> (start < 2 \<or> l_chars l ! (start - 2) \<noteq> c_dot)"

text \<open>The fraction and the exponent, each with whether it was there.\<close>

definition fraction :: "lexer \<Rightarrow> lexer \<times> bool" where
  "fraction l =
     (if peek l = c_dot \<and> ascii_digit (peek_next l)
      then (advance_while digit_or_underscore (advance l), True) else (l, False))"

definition exponent :: "lexer \<Rightarrow> lexer \<times> bool" where
  "exponent l =
     (if peek l = c_e \<or> peek l = c_E then
        let probe = (if char_at l (l_pos l + 1) = Some c_plus \<or> char_at l (l_pos l + 1) = Some c_minus
                     then l_pos l + 2 else l_pos l + 1)
        in if (case char_at l probe of Some c \<Rightarrow> ascii_digit c | None \<Rightarrow> False)
           then (advance_while ascii_digit (l\<lparr>l_pos := probe\<rparr>), True) else (l, False)
      else (l, False))"

definition finish_number :: "unicode \<Rightarrow> nat \<Rightarrow> bool \<Rightarrow> lexer \<Rightarrow> token scan" where
  "finish_number u start is_float l =
     (let word = slice l start;
          mantissa_end = length (takeWhile (\<lambda>c. c \<noteq> c_e \<and> c \<noteq> c_E) word)
      in case bad_underscore ascii_digit False word mantissa_end of
           Some i \<Rightarrow> (l, Err (error_at l (start + i) underscore_message))
         | None \<Rightarrow>
             let num = filter (\<lambda>c. c \<noteq> c_underscore) word in
             if \<not> is_float \<and> 1 < length num \<and> hd num = c_0 \<and> list_ex (\<lambda>c. 49 \<le> c \<and> c \<le> 57) num
             then (l, Err (error_at l start (leading_zeros num)))
             else if is_float then
               (case parse_f64 u num of Inr v \<Rightarrow> (l, Ok (T_Float v)) | Inl e \<Rightarrow> (l, Err (error_at l start e)))
             else if int (digits_value num) \<le> i64_max then (l, Ok (T_Int (of_nat (digits_value num))))
             else if digits_value num = 9223372036854775808 then (l, Ok T_IntMinMagnitude)
             else (l, Err (error_at l start parse_too_large)))"

definition number :: "unicode \<Rightarrow> nat \<Rightarrow> lexer \<Rightarrow> token scan" where
  "number u start l =
     (case (if l_chars l ! start = c_0 then radix_of_marker (peek l) else None) of
        Some (radix, name) \<Rightarrow> radix_number start radix name l
      | None \<Rightarrow>
          let field = field_index l start;
              l1 = advance_while digit_or_underscore l;
              (l2, fr) = (if field then (l1, False) else fraction l1);
              (l3, ex) = (if field then (l2, False) else exponent l2)
          in finish_number u start (fr \<or> ex) l3)"

subsection \<open>Literals without holes\<close>

definition at_close :: "nat \<Rightarrow> bool \<Rightarrow> lexer \<Rightarrow> bool" where
  "at_close quote triple l \<longleftrightarrow>
     peek l = quote \<and> (\<not> triple \<or> peek_next l = quote \<and> char_at l (l_pos l + 2) = Some quote)"

definition close_width :: "bool \<Rightarrow> nat" where
  "close_width triple = (if triple then 3 else 1)"

text \<open>One character of text: a literal newline keeps the line count.\<close>

definition take_text :: "lexer \<Rightarrow> lexer" where
  "take_text l = (if peek l = c_nl then take_newline l else advance l)"

lemma take_text_fields [simp]: "l_chars (take_text l) = l_chars l" "l_pos (take_text l) = l_pos l + 1"
  by (simp_all add: take_text_def advance_def move_def)

lemma rem_decreases: "\<not> is_at_end l \<Longrightarrow> l_chars l' = l_chars l \<Longrightarrow> l_pos l < l_pos l' \<Longrightarrow>
  length (l_chars l') - l_pos l' < length (l_chars l) - l_pos l"
  by (simp add: is_at_end_def)

function raw_loop :: "nat \<Rightarrow> bool \<Rightarrow> nat list \<Rightarrow> lexer \<Rightarrow> lexer \<times> nat list option" where
  "raw_loop quote triple txt l =
     (if at_close quote triple l then (move (close_width triple) l, Some txt)
      else if is_at_end l then (l, None)
      else raw_loop quote triple (txt @ [peek l]) (take_text l))"
  by pat_completeness auto
termination
  by (relation "measure (\<lambda>(_, _, _, l). length (l_chars l) - l_pos l)") (simp_all add: is_at_end_def)

declare raw_loop.simps [simp del]

definition raw_string :: "nat \<Rightarrow> bool \<Rightarrow> lexer \<Rightarrow> token scan" where
  "raw_string quote triple l =
     (let open_sp = span_at l (l_pos l - (close_width triple + 1)) in
      case raw_loop quote triple [] l of
        (l', Some txt) \<Rightarrow> (l', Ok (T_RawStr txt))
      | (l', None) \<Rightarrow>
          (l', Err (error_span open_sp
             (if triple then codes ''unterminated triple-quoted raw string literal''
              else codes ''unterminated raw string literal''))))"

definition hex_digit :: "lexer \<Rightarrow> nat scan" where
  "hex_digit l =
     (if is_at_end l then (l, Err (lex_error_here l (92 # codes ''x escape needs two hex digits'')))
      else let l1 = advance l in
           case to_digit16 (peek l) of
             Some d \<Rightarrow> (l1, Ok d)
           | None \<Rightarrow>
               (l1, Err (error_at l1 (l_pos l1 - 1)
                  (codes ''invalid hex digit '' @ [39, peek l, 39] @ codes '' in '' @ [92] @ codes ''x escape''))))"

definition hex_byte :: "lexer \<Rightarrow> u8 scan" where
  "hex_byte l =
     (case hex_digit l of
        (l1, Inl e) \<Rightarrow> (l1, Err e)
      | (l1, Inr hi) \<Rightarrow>
          (case hex_digit l1 of
             (l2, Inl e) \<Rightarrow> (l2, Err e)
           | (l2, Inr lo) \<Rightarrow> (l2, Ok (of_nat (hi * 16 + lo)))))"

definition push_raw_byte :: "lexer \<Rightarrow> nat \<Rightarrow> (u8, lex_error) result" where
  "push_raw_byte l c =
     (if c \<le> 0x7F then Ok (of_nat c)
      else Err (error_at l (l_pos l - 1) (codes ''non-ASCII byte in byte literal; use '' @ [92] @ codes ''xHH escape'')))"

definition simple_escape :: "nat \<Rightarrow> nat option" where
  "simple_escape c = map_of [(c_n, 10), (c_t, 9), (c_r, 13), (92, 92), (34, 34), (39, 39), (c_0, 0)] c"

definition unknown_escape :: "nat \<Rightarrow> nat list" where
  "unknown_escape c = codes ''unknown escape '' @ [39, 92, c, 39]"

definition lex_byte_escape :: "span \<Rightarrow> lexer \<Rightarrow> u8 scan" where
  "lex_byte_escape open_sp l =
     (let l1 = advance l in
      if is_at_end l1 then
        (l1, Err (error_span open_sp (codes ''unterminated byte-string literal (trailing '' @ [39, 92, 39, 41])))
      else let esc = peek l1; l2 = advance l1 in
        case simple_escape esc of
          Some c \<Rightarrow> (l2, Ok (of_nat c))
        | None \<Rightarrow>
            if esc = c_x then hex_byte l2
            else if esc = c_u then
              (l2, Err (error_at l2 (l_pos l2 - 1) (92 # codes ''u not allowed in a byte literal; use '' @ [92] @ codes ''xHH'')))
            else if esc = c_nl \<or> esc = c_cr then
              (l2, Err (error_at l2 (l_pos l2 - 2)
                 (codes ''line continuations are not supported; close the literal or use '' @ [92, c_n])))
            else (l2, Err (error_at l2 (l_pos l2 - 1) (unknown_escape esc))))"

lemma hex_digit_fields: "hex_digit l = (l', r) \<Longrightarrow> l_chars l' = l_chars l \<and> l_pos l \<le> l_pos l'"
  by (auto simp: hex_digit_def Let_def advance_def move_def split: if_splits option.splits)

lemma hex_byte_fields: "hex_byte l = (l', r) \<Longrightarrow> l_chars l' = l_chars l \<and> l_pos l \<le> l_pos l'"
  by (auto simp: hex_byte_def dest!: hex_digit_fields split: prod.splits sum.splits)

lemma lex_byte_escape_progress:
  "lex_byte_escape open_sp l = (l', r) \<Longrightarrow> l_chars l' = l_chars l \<and> l_pos l < l_pos l'"
  by (auto simp: lex_byte_escape_def Let_def advance_def move_def
      dest!: hex_byte_fields split: if_splits option.splits)

definition byte_step :: "span \<Rightarrow> lexer \<Rightarrow> u8 scan" where
  "byte_step open_sp l =
     (if peek l = c_backslash then lex_byte_escape open_sp l
      else let l1 = take_text l in (l1, push_raw_byte l1 (peek l)))"

lemma byte_step_progress: "byte_step open_sp l = (l', r) \<Longrightarrow> l_chars l' = l_chars l \<and> l_pos l < l_pos l'"
  by (auto simp: byte_step_def Let_def dest!: lex_byte_escape_progress split: if_splits)

function byte_loop :: "nat \<Rightarrow> bool \<Rightarrow> span \<Rightarrow> u8 list \<Rightarrow> lexer \<Rightarrow> token scan" where
  "byte_loop quote triple open_sp bytes l =
     (if at_close quote triple l then (move (close_width triple) l, Ok (T_Bytes bytes))
      else if is_at_end l then
        (l, Err (error_span open_sp
           (if triple then codes ''unterminated triple-quoted byte-string literal''
            else codes ''unterminated byte-string literal'')))
      else case byte_step open_sp l of
             (l', Inl e) \<Rightarrow> (l', Err e)
           | (l', Inr b) \<Rightarrow> byte_loop quote triple open_sp (bytes @ [b]) l')"
  by pat_completeness auto
termination
  by (relation "measure (\<lambda>(_, _, _, _, l). length (l_chars l) - l_pos l)")
     (auto dest!: sym [of _ "byte_step _ _"] byte_step_progress intro: rem_decreases)

declare byte_loop.simps [simp del]

definition byte_string :: "nat \<Rightarrow> bool \<Rightarrow> lexer \<Rightarrow> token scan" where
  "byte_string quote triple l = byte_loop quote triple (span_at l (l_pos l - (close_width triple + 1))) [] l"

subsection \<open>Escapes of text\<close>

function hex_run :: "nat \<Rightarrow> nat list \<Rightarrow> lexer \<Rightarrow> nat list scan" where
  "hex_run brace digits l =
     (if is_at_end l then (l, Err (error_at l brace (codes ''unterminated unicode escape'')))
      else if peek l = c_rbrace then (advance l, Ok digits)
      else if to_digit16 (peek l) = None then (l, Err (lex_error_here l (codes ''invalid hex digit in unicode escape'')))
      else if length digits = 6 then
        (l, Err (lex_error_here l (codes ''unicode escape too long (max 6 hex digits)'')))
      else hex_run brace (digits @ [peek l]) (advance l))"
  by pat_completeness auto
termination
  by (relation "measure (\<lambda>(_, _, l). length (l_chars l) - l_pos l)") (auto simp: is_at_end_def advance_def move_def)

declare hex_run.simps [simp del]

definition scalar_value :: "nat \<Rightarrow> bool" where
  "scalar_value n \<longleftrightarrow> n < 0xD800 \<or> 0xDFFF < n \<and> n \<le> 0x10FFFF"

definition unicode_escape :: "lexer \<Rightarrow> nat scan" where
  "unicode_escape l =
     (let brace = l_pos l in
      case match_char c_lbrace l of
        (l1, False) \<Rightarrow> (l1, Err (lex_error_here l1 (codes ''expected '' @ [39, 123, 39] @ codes '' after '' @ [92]
                         @ codes ''u in unicode escape'')))
      | (l1, True) \<Rightarrow>
          (case hex_run brace [] l1 of
             (l2, Inl e) \<Rightarrow> (l2, Err e)
           | (l2, Inr digits) \<Rightarrow>
               if digits = [] then (l2, Err (error_at l2 brace (codes ''empty unicode escape'')))
               else let cp = the (read_hex digits 0) in
                    if scalar_value cp then (l2, Ok cp)
                    else (l2, Err (error_at l2 brace (codes ''invalid unicode code point'')))))"

definition str_escape :: "span \<Rightarrow> lexer \<Rightarrow> nat scan" where
  "str_escape open_sp l =
     (let l1 = advance l in
      if is_at_end l1 then
        (l1, Err (error_span open_sp (codes ''unterminated string literal (trailing '' @ [39, 92, 39, 41])))
      else let esc = peek l1; l2 = advance l1 in
        if esc = c_u then unicode_escape l2
        else case simple_escape esc of
          Some c \<Rightarrow> (l2, Ok c)
        | None \<Rightarrow>
            if esc = c_nl \<or> esc = c_cr then
              (l2, Err (error_at l2 (l_pos l2 - 2)
                 (codes ''line continuations are not supported; close the string or use '' @ [92, c_n])))
            else (l2, Err (error_at l2 (l_pos l2 - 1) (unknown_escape esc))))"

subsection \<open>Interpolated literals\<close>

definition MAX_HOLE_NEST :: nat where "MAX_HOLE_NEST = 149"
definition ONE_LINE_HOLE_NEST :: nat where "ONE_LINE_HOLE_NEST = 8"

type_synonym token_step = "lexer \<Rightarrow> tok scan option"

definition digit_hole :: "lexer \<Rightarrow> nat option" where
  "digit_hole l =
     (let i = l_pos l + 1 + length (takeWhile ascii_digit (drop (l_pos l + 1) (l_chars l)))
      in if i > l_pos l + 1 \<and> char_at l i = Some c_rbrace then Some i else None)"

definition unterminated_hole :: "lexer \<Rightarrow> span \<Rightarrow> lex_error" where
  "unterminated_hole l brace =
     (case l_hole_comment l of
        Some hash \<Rightarrow> error_span hash ([39, c_hash, 39] @ codes '' starts a comment inside an interpolation hole and the comment runs to the end of the line, so this hole'' @ [39] @ codes ''s closing '' @ [39, c_rbrace, 39] @ codes '' is commented out'')
      | None \<Rightarrow> error_span brace (codes ''unterminated '' @ [39, c_lbrace, 39] @ codes '' in interpolated string''))"

fun is_layout :: "token \<Rightarrow> bool" where
  "is_layout Newline = True"
| "is_layout Indent = True"
| "is_layout Dedent = True"
| "is_layout Eof = True"
| "is_layout _ = False"

fun hole_tokens :: "token_step \<Rightarrow> nat \<Rightarrow> span \<Rightarrow> nat \<Rightarrow> tok list \<Rightarrow> lexer \<Rightarrow> (tok list \<times> bool) scan option" where
  "hole_tokens nt 0 brace base toks l = None"
| "hole_tokens nt (Suc k) brace base toks l =
     (case nt l of
        None \<Rightarrow> None
      | Some (l', Inl e) \<Rightarrow> Some (l', Err (if is_at_end l' then unterminated_hole l' brace else e))
      | Some (l', Inr t) \<Rightarrow>
          (let kind = tok_kind t; closed_hole = l_bracket_depth l' < base; eof = Tok Eof (tok_span t) None in
           if is_layout kind then Some (l', Err (unterminated_hole l' brace))
           else if closed_hole \<and> kind = T_Delim D_RBrace then Some (l', Ok (toks @ [eof], False))
           else if closed_hole \<and> (kind = T_Delim D_RParen \<or> kind = T_Delim D_RBracket) then
             Some (l', Err (error_span (tok_span t) (codes ''unmatched closing bracket in an interpolation hole'')))
           else if kind = T_Delim D_Colon \<and> l_bracket_depth l' = base then
             Some (l'\<lparr>l_bracket_depth := l_bracket_depth l' - 1\<rparr>, Ok (toks @ [eof], True))
           else hole_tokens nt k brace base (toks @ [t]) l'))"

definition remaining :: "lexer \<Rightarrow> nat" where
  "remaining l = length (l_chars l) - l_pos l"

definition hole_code :: "token_step \<Rightarrow> span \<Rightarrow> lexer \<Rightarrow> (tok list \<times> bool) scan option" where
  "hole_code nt brace l =
     (let base = l_bracket_depth l + 1;
          l1 = l\<lparr>l_bracket_depth := base, l_hole_base := base, l_after_operand := False\<rparr>
      in map_option (\<lambda>(l', r). (l'\<lparr>l_hole_base := l_hole_base l\<rparr>, r))
           (hole_tokens nt (remaining l1 + 1) brace base [] l1))"

definition flush_spec :: "spec_part list \<Rightarrow> nat list \<Rightarrow> spec_part list" where
  "flush_spec spec txt = (if txt = [] then spec else spec @ [SpText txt])"

fun spec_loop :: "token_step \<Rightarrow> nat \<Rightarrow> nat \<Rightarrow> bool \<Rightarrow> span \<Rightarrow> spec_part list \<Rightarrow> nat list \<Rightarrow> lexer \<Rightarrow> spec_part list scan option" where
  "spec_loop nt 0 quote triple brace spec txt l = None"
| "spec_loop nt (Suc k) quote triple brace spec txt l =
     (if is_at_end l \<or> at_close quote triple l then Some (l, Err (unterminated_hole l brace))
      else if peek l = c_rbrace then Some (advance l, Ok (flush_spec spec txt))
      else if peek l = c_lbrace then
        (let field = span_at l (l_pos l) in
         case hole_code nt field (advance l) of
           None \<Rightarrow> None
         | Some (l', Inl e) \<Rightarrow> Some (l', Err e)
         | Some (l', Inr (toks, True)) \<Rightarrow>
             Some (l', Err (error_span field (codes ''format spec: a nested field cannot carry its own format spec'')))
         | Some (l', Inr (toks, False)) \<Rightarrow> spec_loop nt k quote triple brace (flush_spec spec txt @ [SpField toks]) [] l')
      else if peek l = c_backslash then
        (case str_escape brace l of
           (l', Inl e) \<Rightarrow> Some (l', Err e)
         | (l', Inr c) \<Rightarrow> spec_loop nt k quote triple brace spec (txt @ [c]) l')
      else spec_loop nt k quote triple brace spec (txt @ [peek l]) (take_text l))"

definition hole_body :: "token_step \<Rightarrow> span \<Rightarrow> nat \<Rightarrow> bool \<Rightarrow> lexer \<Rightarrow> str_hole scan option" where
  "hole_body nt brace quote triple l =
     (case hole_code nt brace l of
        None \<Rightarrow> None
      | Some (l', Inl e) \<Rightarrow> Some (l', Err e)
      | Some (l', Inr (toks, False)) \<Rightarrow> Some (l', Ok (Hole toks None brace))
      | Some (l', Inr (toks, True)) \<Rightarrow>
          (let spec_at = span_at l' (l_pos l') in
           case spec_loop nt (remaining l' + 1) quote triple brace [] [] l' of
             None \<Rightarrow> None
           | Some (l'', Inl e) \<Rightarrow> Some (l'', Err e)
           | Some (l'', Inr spec) \<Rightarrow> Some (l'', Ok (Hole toks (Some spec) spec_at))))"

definition hole :: "token_step \<Rightarrow> nat \<Rightarrow> bool \<Rightarrow> lexer \<Rightarrow> str_hole scan option" where
  "hole nt quote triple l =
     (let brace = span_at l (l_pos l); l1 = advance l in
      if MAX_HOLE_NEST \<le> l_hole_nest l1 then
        Some (l1, Err (error_span brace (codes ''too many nested interpolated strings'')))
      else map_option (\<lambda>(l', r). (l'\<lparr>l_hole_nest := l_hole_nest l' - 1, l_hole_comment := l_hole_comment l1\<rparr>, r))
             (hole_body nt brace quote triple (l1\<lparr>l_hole_nest := l_hole_nest l1 + 1, l_hole_comment := None\<rparr>)))"

definition flush_text :: "str_part list \<Rightarrow> nat list \<Rightarrow> str_part list" where
  "flush_text parts txt = (if txt = [] then parts else parts @ [SText txt])"

fun quoted_loop :: "token_step \<Rightarrow> nat \<Rightarrow> nat \<Rightarrow> bool \<Rightarrow> span \<Rightarrow> str_part list \<Rightarrow> nat list \<Rightarrow> lexer \<Rightarrow> str_part list scan option" where
  "quoted_loop nt 0 quote triple open_sp parts txt l = None"
| "quoted_loop nt (Suc k) quote triple open_sp parts txt l =
     (if is_at_end l then
        Some (l, Err (error_span open_sp
          (if triple then codes ''unterminated triple-quoted string literal'' else codes ''unterminated string literal'')))
      else if at_close quote triple l then Some (move (close_width triple) l, Ok (flush_text parts txt))
      else if peek l = c_backslash then
        (case str_escape open_sp l of
           (l', Inl e) \<Rightarrow> Some (l', Err e)
         | (l', Inr c) \<Rightarrow> quoted_loop nt k quote triple open_sp parts (txt @ [c]) l')
      else if (peek l = c_lbrace \<or> peek l = c_rbrace) \<and> peek_next l = peek l then
        quoted_loop nt k quote triple open_sp parts (txt @ [peek l]) (move 2 l)
      else if peek l = c_lbrace then
        (case digit_hole l of
           Some end_pos \<Rightarrow>
             quoted_loop nt k quote triple open_sp parts (txt @ drop (l_pos l) (take (end_pos + 1) (l_chars l)))
               (l\<lparr>l_pos := end_pos + 1\<rparr>)
         | None \<Rightarrow>
             (case hole nt quote triple l of
                None \<Rightarrow> None
              | Some (l', Inl e) \<Rightarrow> Some (l', Err e)
              | Some (l', Inr h) \<Rightarrow> quoted_loop nt k quote triple open_sp (flush_text parts txt @ [SHole h]) [] l'))
      else if peek l = c_rbrace then
        Some (l, Err (lex_error_here l (codes ''unmatched '' @ [39, c_rbrace, 39] @ codes '' in string (use '' @ [39, c_rbrace, c_rbrace, 39] @ codes '' for a literal brace)'')))
      else quoted_loop nt k quote triple open_sp parts (txt @ [peek l]) (take_text l))"

definition quoted :: "token_step \<Rightarrow> nat \<Rightarrow> bool \<Rightarrow> lexer \<Rightarrow> token scan option" where
  "quoted nt quote triple l =
     (let start = l_pos l - close_width triple in
      map_option (\<lambda>(l', r). (l', map_sum id (\<lambda>parts. T_Str parts (l_pos l' - start)) r))
        (quoted_loop nt (remaining l + 1) quote triple (span_at l start) [] [] l))"

subsection \<open>A token\<close>

definition starts_operand :: "unicode \<Rightarrow> lexer \<Rightarrow> nat \<Rightarrow> bool" where
  "starts_operand u l i =
     (case char_at l i of
        None \<Rightarrow> False
      | Some c \<Rightarrow>
          if c = c_minus then char_at l (i + 1) \<noteq> Some c_gt \<and> char_at l (i + 1) \<noteq> Some c_eq
          else if c = c_bang then char_at l (i + 1) \<noteq> Some c_eq
          else is_word u c \<or> c \<in> {c_quote2, c_quote1, c_lparen, c_lbracket, c_lbrace, c_question})"

definition question :: "unicode \<Rightarrow> nat \<Rightarrow> lexer \<Rightarrow> token scan" where
  "question u start l =
     (let before_c = (if start = 0 then None else char_at l (start - 1));
          run_len = length (takeWhile (\<lambda>c. c = c_question) (drop start (l_chars l)));
          left = (case before_c of Some c \<Rightarrow> \<not> is_whitespace u c | None \<Rightarrow> False);
          right = starts_operand u l (start + 2);
          two = (l_after_operand l \<and> before_c \<noteq> Some c_question \<and> run_len = 2)
      in if two \<and> left = right then (advance l, Ok (T_Op P_QuestionQuestion))
         else if two \<and> right then
           (l, Err (error_at l start ([39, 63, 63, 39] @ codes '' after a value takes the same spacing on both sides: `a ?? b` or `a??b`'')))
         else if peek l = c_dot \<and> peek_next l \<noteq> c_dot then (advance l, Ok (T_Op P_QuestionDot))
         else (l, Ok (T_Op P_Question)))"

text \<open>An operator whose longer spellings are tried in order.\<close>

fun munch :: "lexer \<Rightarrow> (nat \<times> token) list \<Rightarrow> token \<Rightarrow> lexer \<times> token" where
  "munch l [] short = (l, short)"
| "munch l ((c, t) # alts) short = (if peek l = c then (advance l, t) else munch l alts short)"

definition open_bracket :: "lexer \<Rightarrow> delimiter \<Rightarrow> lexer \<times> token" where
  "open_bracket l d = (l\<lparr>l_bracket_depth := l_bracket_depth l + 1\<rparr>, T_Delim d)"

definition close_bracket :: "lexer \<Rightarrow> delimiter \<Rightarrow> lexer \<times> token" where
  "close_bracket l d = (l\<lparr>l_bracket_depth := l_bracket_depth l - 1\<rparr>, T_Delim d)"

definition shift_op :: "lexer \<Rightarrow> nat \<Rightarrow> operator \<Rightarrow> operator \<Rightarrow> operator \<Rightarrow> operator \<Rightarrow> lexer \<times> token" where
  "shift_op l c or_eq shift shift_eq single =
     (if peek l = c_eq then (advance l, T_Op or_eq)
      else if peek l = c then munch (advance l) [(c_eq, T_Op shift_eq)] (T_Op shift)
      else (l, T_Op single))"

definition dots :: "lexer \<Rightarrow> lexer \<times> token" where
  "dots l =
     (if peek l = c_dot then munch (advance l) [(c_dot, T_Delim D_DotDotDot), (c_eq, T_Delim D_DotDotEq)] (T_Delim D_DotDot)
      else (l, T_Delim D_Dot))"

definition colon :: "lexer \<Rightarrow> lexer \<times> token" where
  "colon l =
     (if 0 < l_hole_base l \<and> l_bracket_depth l = l_hole_base l then (l, T_Delim D_Colon)
      else munch l [(c_eq, T_Op P_Walrus)] (T_Delim D_Colon))"

definition scan_punct :: "nat \<Rightarrow> lexer \<Rightarrow> (lexer \<times> token) option" where
  "scan_punct c l =
     (if c = c_plus then Some (munch l [(c_eq, T_Op P_PlusEq)] (T_Op P_Plus))
      else if c = c_minus then Some (munch l [(c_gt, T_Op P_Arrow), (c_eq, T_Op P_MinusEq)] (T_Op P_Minus))
      else if c = c_star then Some (munch l [(c_eq, T_Op P_StarEq)] (T_Op P_Star))
      else if c = c_slash then Some (munch l [(c_eq, T_Op P_SlashEq)] (T_Op P_Slash))
      else if c = c_percent then Some (munch l [(c_eq, T_Op P_PercentEq)] (T_Op P_Percent))
      else if c = c_colon then Some (colon l)
      else if c = c_eq then Some (munch l [(c_eq, T_Op P_EqEq)] (T_Op P_Assign))
      else if c = c_bang then Some (munch l [(c_eq, T_Op P_NotEq)] (T_Op P_Bang))
      else if c = c_lt then Some (shift_op l c_lt P_LtEq P_Shl P_ShlEq P_Lt)
      else if c = c_gt then Some (shift_op l c_gt P_GtEq P_Shr P_ShrEq P_Gt)
      else if c = c_bar then Some (munch l [(c_gt, T_Op P_Pipe), (c_eq, T_Op P_PipeEq)] (T_Op P_BitOr))
      else if c = c_amp then Some (munch l [(c_eq, T_Op P_AmpEq)] (T_Op P_Amp))
      else if c = c_caret then Some (munch l [(c_eq, T_Op P_CaretEq)] (T_Op P_Caret))
      else if c = c_lparen then Some (open_bracket l D_LParen)
      else if c = c_lbracket then Some (open_bracket l D_LBracket)
      else if c = c_lbrace then Some (open_bracket l D_LBrace)
      else if c = c_rparen then Some (close_bracket l D_RParen)
      else if c = c_rbracket then Some (close_bracket l D_RBracket)
      else if c = c_rbrace then Some (close_bracket l D_RBrace)
      else if c = c_comma then Some (l, T_Delim D_Comma)
      else if c = c_dot then Some (dots l)
      else None)"

definition triple_here :: "nat \<Rightarrow> lexer \<Rightarrow> bool" where
  "triple_here quote l \<longleftrightarrow> peek l = quote \<and> peek_next l = quote"

text \<open>Past the rest of an opening delimiter whose first quote is consumed.\<close>

definition open_literal :: "nat \<Rightarrow> lexer \<Rightarrow> lexer \<times> bool" where
  "open_literal quote l = (if triple_here quote l then (move 2 l, True) else (l, False))"

definition is_quote :: "nat \<Rightarrow> bool" where
  "is_quote c \<longleftrightarrow> c = c_quote2 \<or> c = c_quote1"

definition scan_kind :: "unicode \<Rightarrow> token_step \<Rightarrow> nat \<Rightarrow> nat \<Rightarrow> lexer \<Rightarrow> token scan option" where
  "scan_kind u nt c start l =
     (case scan_punct c l of
        Some (l', t) \<Rightarrow> Some (l', Ok t)
      | None \<Rightarrow>
          if c = c_question then Some (question u start l)
          else if is_quote c then (case open_literal c l of (l', triple) \<Rightarrow> quoted nt c triple l')
          else if (c = c_b \<or> c = c_B) \<and> is_quote (peek l) then
            (case open_literal (peek l) (advance l) of (l', triple) \<Rightarrow> Some (byte_string (peek l) triple l'))
          else if (c = c_r \<or> c = c_R) \<and> is_quote (peek l) then
            (case open_literal (peek l) (advance l) of (l', triple) \<Rightarrow> Some (raw_string (peek l) triple l'))
          else if ascii_digit c then Some (number u start l)
          else if is_alphabetic u c \<or> c = c_underscore then
            (case lex_identifier u start l of (l', t) \<Rightarrow> Some (l', Ok t))
          else if c = c_backslash \<and> 0 < l_hole_base l then
            Some (l, Err (error_at l start (codes ''a backslash is not allowed in interpolation hole code; write the quote directly, as in '' @ [34, 123, 100, 91, 34, 107, 34, 93, 125, 34])))
          else Some (l, Err (error_at l start (codes ''unexpected character '' @ debug_char u c))))"

definition scan_real :: "unicode \<Rightarrow> token_step \<Rightarrow> lexer \<Rightarrow> tok scan option" where
  "scan_real u nt l =
     (let l1 = l\<lparr>l_at_line_start := False\<rparr>; start = l_pos l1; sp = span_at l1 start;
          lead = drop (l_line_start l1) (take start (l_chars l1));
          ind = (if list_all (\<lambda>c. c = c_space) lead then Some (of_nat (length lead)) else None)
      in map_option (\<lambda>(l', r). (l', map_sum id (\<lambda>kind. Tok kind sp ind) r))
           (scan_kind u nt (peek l1) start (advance l1)))"

subsection \<open>The driver\<close>

lemma scan_indentation_mono:
  "scan_indentation l = (l', r) \<Longrightarrow> l_chars l' = l_chars l \<and> l_pos l \<le> l_pos l'"
proof (induction l arbitrary: l' r rule: scan_indentation.induct)
  case (1 l)
  show ?case
  proof (cases "indent_line l")
    case (Passed l1)
    then have "scan_indentation l1 = (l', r)" using "1.prems" by (simp add: scan_indentation.simps [of l])
    then show ?thesis using "1.IH" [OF Passed] indent_line_progress [OF Passed] by fastforce
  next
    case (Content l1 width)
    then show ?thesis using "1.prems" indent_line_mono [of l]
      by (auto simp: scan_indentation.simps [of l] Let_def split: prod.splits sum.splits)
  qed (use "1.prems" indent_line_mono [of l] in \<open>auto simp: scan_indentation.simps [of l]\<close>)
qed

lemma skip_inline_mono: "l_chars (skip_inline l) = l_chars l \<and> l_pos l \<le> l_pos (skip_inline l)"
proof (induction l rule: skip_inline.induct)
  case (1 l)
  consider "peek l = c_space \<or> peek l = c_tab \<or> peek l = c_cr"
    | "\<not> (peek l = c_space \<or> peek l = c_tab \<or> peek l = c_cr)" "peek l = c_hash"
    | "\<not> (peek l = c_space \<or> peek l = c_tab \<or> peek l = c_cr)" "peek l \<noteq> c_hash" by blast
  then show ?case
  proof cases
    case 1
    then show ?thesis using "1.IH"(1) by (simp add: skip_inline.simps [of l] advance_def move_def)
  next
    case 2
    show ?thesis using "1.IH"(2) [OF 2] by (simp add: skip_inline.simps [of l] 2)
  qed (simp add: skip_inline.simps [of l])
qed

lemma at_newline_again: "at_newline l = Again l' \<Longrightarrow> l_chars l' = l_chars l \<and> l_pos l' = l_pos l + 1"
  by (auto simp: at_newline_def pipe_continues_next_line_def Let_def split: if_splits option.splits)

lemma after_indent_again:
  assumes "after_indent l = Again l'"
  shows "l_chars l' = l_chars l \<and> l_pos l < l_pos l' \<and> l_pos l < length (l_chars l)"
proof -
  have "\<not> is_at_end (skip_inline l)" "at_newline (skip_inline l) = Again l'"
    using assms by (auto simp: after_indent_def at_input_end_def Let_def split: if_splits)
  then show ?thesis using at_newline_again [of "skip_inline l" l'] skip_inline_mono [of l] by (auto simp: is_at_end_def)
qed

lemma layout_round_again:
  assumes "layout_round l = Again l'"
  shows "l_chars l' = l_chars l \<and> l_pos l < l_pos l' \<and> l_pos l < length (l_chars l)"
proof (cases "l_at_line_start l \<and> l_bracket_depth l = 0")
  case True
  obtain l1 r where s: "scan_indentation l = (l1, r)" by force
  have "\<exists>l2 \<in> {l1, l1\<lparr>l_at_line_start := False, l_pending := []\<rparr>}. after_indent l2 = Again l'"
    using assms True s by (auto simp: layout_round_def split: sum.splits option.splits list.splits)
  then show ?thesis using scan_indentation_mono [OF s] after_indent_again [of _ l'] by fastforce
qed (use assms after_indent_again in \<open>auto simp: layout_round_def\<close>)

function scan_layout :: "lexer \<Rightarrow> round" where
  "scan_layout l = (case layout_round l of Again l' \<Rightarrow> scan_layout l' | r \<Rightarrow> r)"
  by pat_completeness auto
termination
  by (relation "measure (\<lambda>l. length (l_chars l) - l_pos l)")
     (auto dest!: layout_round_again intro: diff_less_mono2)

declare scan_layout.simps [simp del]

definition scan_token :: "unicode \<Rightarrow> token_step \<Rightarrow> lexer \<Rightarrow> tok scan option" where
  "scan_token u nt l =
     (case l_pending l of
        t # ts \<Rightarrow> Some (l\<lparr>l_pending := ts\<rparr>, Ok t)
      | [] \<Rightarrow>
          (case scan_layout l of
             Emit l' t \<Rightarrow> Some (l', Ok t)
           | Fail l' e \<Rightarrow> Some (l', Err e)
           | Real l' \<Rightarrow> scan_real u nt l'
           | Again l' \<Rightarrow> None))"

definition note_operand :: "tok scan \<Rightarrow> tok scan" where
  "note_operand lr =
     (case lr of
        (l, Inl e) \<Rightarrow> (l, Err e)
      | (l, Inr t) \<Rightarrow> (l\<lparr>l_after_operand := ends_operand (tok_kind t) (l_after_operand l)\<rparr>, Ok t))"

text \<open>A token, with room for \<open>n\<close> more levels of holes.\<close>

fun next_token :: "unicode \<Rightarrow> nat \<Rightarrow> lexer \<Rightarrow> tok scan option" where
  "next_token u 0 l = map_option note_operand (scan_token u (\<lambda>_. None) l)"
| "next_token u (Suc n) l = map_option note_operand (scan_token u (next_token u n) l)"

fun token_loop :: "unicode \<Rightarrow> nat \<Rightarrow> tok list \<Rightarrow> lexer \<Rightarrow> (tok list \<times> doc_comment list, lex_error) result option" where
  "token_loop u 0 toks l = None"
| "token_loop u (Suc k) toks l =
     (case next_token u MAX_HOLE_NEST l of
        None \<Rightarrow> None
      | Some (l', Inl e) \<Rightarrow> Some (Err e)
      | Some (l', Inr t) \<Rightarrow>
          if tok_kind t = Eof then Some (Ok (toks @ [t], l_doc_comments l')) else token_loop u k (toks @ [t]) l')"

text \<open>The number of tokens that a lexer can still emit.\<close>

definition token_bound :: "lexer \<Rightarrow> nat" where
  "token_bound l = 4 * remaining l + length (l_pending l) + 2 * length (l_indents l) + (if l_at_line_start l then 1 else 2)"

definition tokenize_with_comments ::
  "unicode \<Rightarrow> nat list \<Rightarrow> u32 \<Rightarrow> (tok list \<times> doc_comment list, lex_error) result option" where
  "tokenize_with_comments u source ident =
     (let l = new_file source ident in token_loop u (token_bound l + 1) [] l)"

definition tokenize :: "unicode \<Rightarrow> nat list \<Rightarrow> (tok list, lex_error) result option" where
  "tokenize u source = map_option (map_sum id fst) (tokenize_with_comments u source 0)"

end
