(* ===== verification/LexerCorrect.thy ===== *)
theory LexerCorrect
  imports Lexer
begin

text \<open>
  What the lexer promises. Every source is lexed to a list of tokens or to an error, whatever it holds;
  every token and every error carries the true position of a character of the source; the tokens of a
  hole stay inside their literal and hold no layout; and the layout tokens nest.
\<close>

subsection \<open>Positions\<close>

text \<open>The line of a position and the position where that line begins.\<close>

fun line_of :: "nat list \<Rightarrow> nat \<Rightarrow> nat" where
  "line_of cs 0 = 1"
| "line_of cs (Suc p) = (if cs ! p = c_nl then line_of cs p + 1 else line_of cs p)"

fun begin_of :: "nat list \<Rightarrow> nat \<Rightarrow> nat" where
  "begin_of cs 0 = 0"
| "begin_of cs (Suc p) = (if cs ! p = c_nl then Suc p else begin_of cs p)"

definition span_of :: "u32 \<Rightarrow> nat list \<Rightarrow> nat \<Rightarrow> span" where
  "span_of f cs p = \<lparr>sp_line = of_nat (line_of cs p), sp_col = of_nat (p - begin_of cs p + 1), sp_file = f\<rparr>"

definition placed :: "u32 \<Rightarrow> nat list \<Rightarrow> nat \<Rightarrow> nat \<Rightarrow> span \<Rightarrow> bool" where
  "placed f cs a b sp \<longleftrightarrow> (\<exists>p. a \<le> p \<and> p \<le> b \<and> sp = span_of f cs p)"

definition error_placed :: "u32 \<Rightarrow> nat list \<Rightarrow> lex_error \<Rightarrow> bool" where
  "error_placed f cs e \<longleftrightarrow> (\<exists>sp. placed f cs 0 (length cs) sp \<and> e_line e = unat (sp_line sp) \<and> e_col e = unat (sp_col sp))"

lemma begin_of_le: "begin_of cs p \<le> p"
  by (induction p) auto

lemma same_line: "begin_of cs q \<le> p \<Longrightarrow> p \<le> q \<Longrightarrow> begin_of cs p = begin_of cs q \<and> line_of cs p = line_of cs q"
proof (induction q)
  case (Suc q)
  then show ?case by (cases "p = Suc q") (auto split: if_splits)
qed simp

lemma no_newline_line:
  "(\<And>i. p \<le> i \<Longrightarrow> i < p + n \<Longrightarrow> cs ! i \<noteq> c_nl) \<Longrightarrow> line_of cs (p + n) = line_of cs p \<and> begin_of cs (p + n) = begin_of cs p"
  by (induction n) auto

lemma placed_mono: "placed f cs a b sp \<Longrightarrow> a' \<le> a \<Longrightarrow> b \<le> b' \<Longrightarrow> placed f cs a' b' sp"
  unfolding placed_def using le_trans by blast

lemma placedI: "a \<le> p \<Longrightarrow> p \<le> b \<Longrightarrow> placed f cs a b (span_of f cs p)"
  by (auto simp: placed_def)

lemma error_placed_span: "placed f cs 0 (length cs) sp \<Longrightarrow> error_placed f cs (error_span sp m)"
  by (auto simp: error_placed_def error_span_def)

subsection \<open>A lexer that knows where it is\<close>

definition synced :: "lexer \<Rightarrow> bool" where
  "synced l \<longleftrightarrow>
     l_pos l \<le> length (l_chars l) \<and> l_line l = line_of (l_chars l) (l_pos l) \<and>
     l_line_start l = begin_of (l_chars l) (l_pos l) \<and>
     pred_option (placed (l_file l) (l_chars l) 0 (length (l_chars l))) (l_hole_comment l)"

text \<open>A scanner inside a token moves forward and touches nothing but its position and its line.\<close>

definition same_source :: "lexer \<Rightarrow> lexer \<Rightarrow> bool" where
  "same_source l l' \<longleftrightarrow> l_chars l' = l_chars l \<and> l_file l' = l_file l \<and> l_hole_nest l' = l_hole_nest l \<and> l_pos l \<le> l_pos l'"

definition same_layout :: "lexer \<Rightarrow> lexer \<Rightarrow> bool" where
  "same_layout l l' \<longleftrightarrow>
     l_indents l' = l_indents l \<and> l_pending l' = l_pending l \<and> l_at_line_start l' = l_at_line_start l"

definition steps :: "lexer \<Rightarrow> lexer \<Rightarrow> bool" where
  "steps l l' \<longleftrightarrow>
     same_source l l' \<and> same_layout l l' \<and> l_hole_comment l' = l_hole_comment l \<and>
     l_bracket_depth l' = l_bracket_depth l \<and> (synced l \<longrightarrow> synced l')"

lemma steps_refl [simp]: "steps l l"
  by (simp add: steps_def same_source_def same_layout_def)

lemma steps_trans: "steps l1 l2 \<Longrightarrow> steps l2 l3 \<Longrightarrow> steps l1 l3"
  by (auto simp: steps_def same_source_def same_layout_def)

lemma steps_synced: "steps l l' \<Longrightarrow> synced l \<Longrightarrow> synced l'"
  by (simp add: steps_def)

lemma steps_source: "steps l l' \<Longrightarrow> l_chars l' = l_chars l \<and> l_file l' = l_file l \<and> l_pos l \<le> l_pos l'"
  by (simp add: steps_def same_source_def)

lemma span_at_of: "synced l \<Longrightarrow> l_line_start l \<le> p \<Longrightarrow> p \<le> l_pos l \<Longrightarrow> span_at l p = span_of (l_file l) (l_chars l) p"
  using same_line [of "l_chars l" "l_pos l" p] by (simp add: synced_def span_at_def span_of_def)

lemma span_here: "synced l \<Longrightarrow> span_at l (l_pos l) = span_of (l_file l) (l_chars l) (l_pos l)"
  using span_at_of [of l "l_pos l"] by (simp add: synced_def begin_of_le)

lemma synced_pos: "synced l \<Longrightarrow> l_pos l \<le> length (l_chars l)"
  by (simp add: synced_def)

lemma placed_at:
  "synced l \<Longrightarrow> l_line_start l \<le> p \<Longrightarrow> p \<le> l_pos l \<Longrightarrow> placed (l_file l) (l_chars l) p (l_pos l) (span_at l p)"
  by (simp add: span_at_of placedI)

lemma error_at_placed:
  "synced l \<Longrightarrow> l_line_start l \<le> p \<Longrightarrow> p \<le> l_pos l \<Longrightarrow> error_placed (l_file l) (l_chars l) (error_at l p m)"
  unfolding error_at_def by (rule error_placed_span) (use placed_at placed_mono synced_pos in blast)

lemma error_here_placed: "synced l \<Longrightarrow> error_placed (l_file l) (l_chars l) (lex_error_here l m)"
  unfolding lex_error_here_def by (rule error_at_placed) (simp_all add: synced_def begin_of_le)

lemma move_steps:
  assumes "l_pos l + n \<le> length (l_chars l)" "\<And>i. l_pos l \<le> i \<Longrightarrow> i < l_pos l + n \<Longrightarrow> l_chars l ! i \<noteq> c_nl"
  shows "steps l (move n l)"
  using assms(1) no_newline_line [of "l_pos l" n "l_chars l"] assms(2)
  by (auto simp: steps_def same_source_def same_layout_def synced_def move_def)

lemma advance_steps: "\<not> is_at_end l \<Longrightarrow> peek l \<noteq> c_nl \<Longrightarrow> steps l (advance l)"
  unfolding advance_def
  by (rule move_steps) (auto simp: is_at_end_def peek_def char_at_def less_Suc_eq_le dest!: le_antisym)

lemma newline_steps: "peek l = c_nl \<Longrightarrow> steps l (take_newline l)"
  using peek_nonzero [of l c_nl]
  by (auto simp: steps_def same_source_def same_layout_def synced_def take_newline_def newline_here_def advance_def move_def)

lemma take_text_steps: "\<not> is_at_end l \<Longrightarrow> steps l (take_text l)"
  by (simp add: take_text_def newline_steps advance_steps)

lemma takeWhile_nth_drop:
  assumes "p \<le> i" "i < p + length (takeWhile P (drop p cs))"
  shows "P (cs ! i)"
proof -
  have "takeWhile P (drop p cs) ! (i - p) = drop p cs ! (i - p)" by (rule takeWhile_nth) (use assms in simp)
  also have "\<dots> = cs ! i" using assms length_takeWhile_le [of P "drop p cs"] by simp
  finally have "cs ! i \<in> set (takeWhile P (drop p cs))"
    using nth_mem [of "i - p" "takeWhile P (drop p cs)"] assms by auto
  then show ?thesis by (rule set_takeWhileD [THEN conjunct2])
qed

lemma advance_while_steps:
  assumes "\<not> P c_nl" "l_pos l \<le> length (l_chars l)"
  shows "steps l (advance_while P l)"
  unfolding advance_while_def
proof (rule move_steps)
  show "l_pos l + length (takeWhile P (rest l)) \<le> length (l_chars l)"
    using takeWhile_drop_le [of "l_pos l" P "l_chars l"] assms(2) by (simp add: rest_def)
  show "l_chars l ! i \<noteq> c_nl" if "l_pos l \<le> i" "i < l_pos l + length (takeWhile P (rest l))" for i
    using takeWhile_nth_drop [OF that(1), of P "l_chars l"] that(2) assms(1) by (auto simp: rest_def)
qed

subsection \<open>Words, numbers and plain literals\<close>

text \<open>
  A scanner that reports: a result steps forward, an error points into the source. What an error leaves
  behind keeps the source and the comment of the hole, which is all that is read of it.
\<close>

definition stops :: "lexer \<Rightarrow> lexer \<Rightarrow> bool" where
  "stops l l' \<longleftrightarrow> l_chars l' = l_chars l \<and> l_file l' = l_file l \<and> l_hole_comment l' = l_hole_comment l \<and>
     l_hole_nest l' = l_hole_nest l"

definition reports :: "lexer \<Rightarrow> 'a scan \<Rightarrow> bool" where
  "reports l lr \<longleftrightarrow>
     (case lr of (l', r) \<Rightarrow>
        (case r of Inl e \<Rightarrow> stops l l' \<and> error_placed (l_file l) (l_chars l) e | Inr _ \<Rightarrow> steps l l'))"

lemma reports_OkI: "steps l l' \<Longrightarrow> reports l (l', Ok x)"
  by (simp add: reports_def)

lemma reports_ErrI: "stops l l' \<Longrightarrow> error_placed (l_file l) (l_chars l) e \<Longrightarrow> reports l (l', Err e)"
  by (simp add: reports_def)

lemma steps_stops: "steps l l' \<Longrightarrow> stops l l'"
  by (simp add: stops_def steps_def same_source_def)

lemma stops_trans: "stops l1 l2 \<Longrightarrow> stops l2 l3 \<Longrightarrow> stops l1 l3"
  by (simp add: stops_def)

lemma stops_move [simp]: "stops l (move n l)" "stops l (advance l)"
  by (simp_all add: stops_def advance_def move_def)

lemma reports_trans: "steps l l1 \<Longrightarrow> reports l1 lr \<Longrightarrow> reports l lr"
  using steps_source [of l l1]
  by (auto simp: reports_def split: prod.splits sum.splits intro: steps_trans stops_trans steps_stops)

lemma reports_Ok: "reports l (l', Inr x) \<Longrightarrow> steps l l'"
  by (simp add: reports_def)

lemma reports_Err: "reports l (l', Inl e) \<Longrightarrow> stops l l' \<and> error_placed (l_file l) (l_chars l) e"
  by (simp add: reports_def)

lemma error_at_stops: "synced l \<Longrightarrow> l_line_start l \<le> p \<Longrightarrow> p \<le> l_pos l \<Longrightarrow> l_line l' = l_line l \<Longrightarrow>
    l_line_start l' = l_line_start l \<Longrightarrow> l_file l' = l_file l \<Longrightarrow> error_placed (l_file l) (l_chars l) (error_at l' p m)"
  using error_at_placed [of l p m] by (simp add: error_at_def span_at_def)

lemma error_after: "steps l l' \<Longrightarrow> synced l \<Longrightarrow> l_line_start l' \<le> p \<Longrightarrow> p \<le> l_pos l' \<Longrightarrow>
    error_placed (l_file l) (l_chars l) (error_at l' p m)"
  using error_at_placed [of l' p m] steps_synced [of l l'] steps_source [of l l'] by simp

lemma error_here_after: "steps l l' \<Longrightarrow> synced l \<Longrightarrow> error_placed (l_file l) (l_chars l) (lex_error_here l' m)"
  using error_here_placed [of l' m] steps_synced [of l l'] steps_source [of l l'] by simp

text \<open>A scanner of one line leaves the line start where it was.\<close>

definition on_line :: "lexer \<Rightarrow> lexer \<Rightarrow> bool" where
  "on_line l l' \<longleftrightarrow> steps l l' \<and> l_line_start l' = l_line_start l"

lemma on_line_refl [simp]: "on_line l l"
  by (simp add: on_line_def)

lemma on_line_trans: "on_line l1 l2 \<Longrightarrow> on_line l2 l3 \<Longrightarrow> on_line l1 l3"
  by (auto simp: on_line_def intro: steps_trans)

lemma advance_on_line: "\<not> is_at_end l \<Longrightarrow> peek l \<noteq> c_nl \<Longrightarrow> on_line l (advance l)"
  by (simp add: on_line_def advance_steps) (simp add: advance_def move_def)

lemma advance_peek: "peek l = c \<Longrightarrow> 0 < c \<Longrightarrow> c \<noteq> c_nl \<Longrightarrow> on_line l (advance l)"
  using peek_nonzero [of l c] by (auto intro!: advance_on_line simp: is_at_end_def)

lemma advance_while_on_line: "synced l \<Longrightarrow> \<not> P c_nl \<Longrightarrow> on_line l (advance_while P l)"
  by (simp add: on_line_def advance_while_steps synced_pos) (simp add: advance_while_def move_def)

lemma on_line_steps: "on_line l l' \<Longrightarrow> steps l l'"
  by (simp add: on_line_def)

lemma on_line_synced: "on_line l l' \<Longrightarrow> synced l \<Longrightarrow> synced l'"
  using steps_synced by (auto simp: on_line_def)

lemma error_on_line: "on_line l l' \<Longrightarrow> synced l \<Longrightarrow> l_line_start l \<le> p \<Longrightarrow> p \<le> l_pos l' \<Longrightarrow>
    error_placed (l_file l) (l_chars l) (error_at l' p m)"
  by (rule error_after) (auto simp: on_line_def)

lemma line_start_le: "synced l \<Longrightarrow> l_line_start l \<le> l_pos l"
  by (simp add: synced_def begin_of_le)

lemma find_upt_less: "find P [0..<n] = Some i \<Longrightarrow> i < n"
  by (auto simp: find_Some_iff)

lemma slice_length: "synced l \<Longrightarrow> length (slice l start) = l_pos l - start"
  by (simp add: slice_def synced_def)

lemma radix_number_reports:
  assumes l: "synced l" "l_line_start l \<le> start" "start \<le> l_pos l" and c: "radix_of_marker (peek l) = Some (radix, name)"
  shows "reports l (radix_number start radix name l)"
proof -
  define l1 where "l1 = advance l"
  define l2 where "l2 = advance_while (\<lambda>c. ascii_alnum c \<or> c = c_underscore) l1"
  have "0 < peek l" "peek l \<noteq> c_nl" using c by (auto simp: radix_of_marker_def split: if_splits)
  then have 1: "on_line l l1" using advance_peek [of l] by (simp add: l1_def)
  have 2: "on_line l l2" unfolding l2_def
    by (rule on_line_trans [OF 1]) (use on_line_synced [OF 1 l(1)] in \<open>auto intro!: advance_while_on_line simp: ascii_alnum_def\<close>)
  have p: "l_pos l \<le> l_pos l1" "l_pos l1 \<le> l_pos l2" by (auto simp: l1_def l2_def advance_def move_def)
  have len: "length (slice l2 (l_pos l1)) = l_pos l2 - l_pos l1" using slice_length on_line_synced [OF 2 l(1)] by blast
  have e: "error_placed (l_file l) (l_chars l) (error_at l2 q m)" if "start \<le> q" "q \<le> l_pos l2" for q m
    by (rule error_on_line [OF 2 l(1)]) (use that l in auto)
  show ?thesis
    unfolding radix_number_def l1_def [symmetric] l2_def [symmetric] Let_def
    using 2 p l(3) find_upt_less by (auto intro!: reports_OkI reports_ErrI e on_line_steps steps_stops
        simp: len bad_underscore_def split: option.splits sum.splits dest!: find_upt_less)
qed

lemma exponent_on_line:
  assumes "synced l"
  shows "on_line l (fst (exponent l))"
proof (cases "snd (exponent l)")
  case False
  then show ?thesis by (auto simp: exponent_def Let_def split: if_splits)
next
  case True
  define probe where "probe = (if char_at l (l_pos l + 1) = Some c_plus \<or> char_at l (l_pos l + 1) = Some c_minus
                     then l_pos l + 2 else l_pos l + 1)"
  have e: "peek l = c_e \<or> peek l = c_E" and d: "case char_at l probe of Some c \<Rightarrow> ascii_digit c | None \<Rightarrow> False"
    using True by (auto simp: exponent_def probe_def Let_def split: if_splits)
  have "exponent l = (advance_while ascii_digit (l\<lparr>l_pos := probe\<rparr>), True)"
    using e d unfolding exponent_def probe_def [symmetric] Let_def by auto
  moreover have "l\<lparr>l_pos := probe\<rparr> = move (probe - l_pos l) l"
    by (simp add: move_def probe_def)
  moreover have "on_line l (move (probe - l_pos l) l)"
  proof -
    have "l_chars l ! i \<noteq> c_nl" if "l_pos l \<le> i" "i < l_pos l + (probe - l_pos l)" for i
    proof -
      have "i = l_pos l \<or> i = l_pos l + 1 \<and> probe = l_pos l + 2" using that by (auto simp: probe_def split: if_splits)
      then show ?thesis using e peek_nonzero [of l]
        by (auto simp: probe_def char_at_def split: if_splits)
    qed
    then have "steps l (move (probe - l_pos l) l)"
      by (intro move_steps) (use d in \<open>auto simp: char_at_def probe_def split: if_splits\<close>)
    then show ?thesis by (simp add: on_line_def move_def)
  qed
  ultimately show ?thesis
    using advance_while_on_line [of "move (probe - l_pos l) l" ascii_digit] on_line_synced [OF _ assms]
    by (auto intro: on_line_trans simp: ascii_digit_def)
qed

lemma fraction_on_line: "synced l \<Longrightarrow> on_line l (fst (fraction l))"
  using advance_peek [of l c_dot] advance_while_on_line [of "advance l" digit_or_underscore] on_line_synced [of l "advance l"]
  by (auto simp: fraction_def digit_or_underscore_def ascii_digit_def intro: on_line_trans)

lemma finish_number_reports:
  assumes "on_line l0 l" "synced l0" "l_line_start l0 \<le> start" "start \<le> l_pos l"
  shows "reports l0 (finish_number u start is_float l)"
proof -
  have e: "error_placed (l_file l0) (l_chars l0) (error_at l q m)" if "start \<le> q" "q \<le> l_pos l" for q m
    by (rule error_on_line [OF assms(1,2)]) (use that assms in auto)
  have "i < l_pos l - start" if "bad_underscore d b (slice l start) (length (takeWhile P (slice l start))) = Some i" for d b P i
    using that find_upt_less [of _ _ i] length_takeWhile_le [of P "slice l start"] slice_length [OF on_line_synced [OF assms(1,2)], of start]
    unfolding bad_underscore_def by fastforce
  then show ?thesis
    using assms(1,4) unfolding finish_number_def Let_def
    by (auto intro!: reports_OkI reports_ErrI e on_line_steps steps_stops split: option.splits sum.splits
        simp: less_imp_le_nat less_diff_conv add.commute)
qed

lemma number_reports:
  assumes l: "synced l" "l_line_start l \<le> start" "start \<le> l_pos l"
  shows "reports l (number u start l)"
proof (cases "if l_chars l ! start = c_0 then radix_of_marker (peek l) else None")
  case (Some rn)
  then show ?thesis using radix_number_reports [OF l] by (cases rn) (auto simp: number_def split: if_splits)
next
  case None
  define l1 where "l1 = advance_while digit_or_underscore l"
  define l2 where "l2 = (if field_index l start then l1 else fst (fraction l1))"
  define l3 where "l3 = (if field_index l start then l2 else fst (exponent l2))"
  have 1: "on_line l l1" unfolding l1_def
    by (rule advance_while_on_line) (auto simp: l digit_or_underscore_def ascii_digit_def)
  then have 2: "on_line l l2" unfolding l2_def using fraction_on_line [of l1] on_line_synced [OF 1 l(1)]
    by (auto intro: on_line_trans)
  then have 3: "on_line l l3" unfolding l3_def using exponent_on_line [of l2] on_line_synced [OF 2 l(1)]
    by (auto intro: on_line_trans)
  have "number u start l = finish_number u start
     ((\<not> field_index l start \<and> snd (fraction l1)) \<or> (\<not> field_index l start \<and> snd (exponent l2))) l3"
    using None by (simp add: number_def l1_def l2_def l3_def Let_def split_beta)
  moreover have "start \<le> l_pos l3" using l(3) steps_source [OF on_line_steps [OF 3]] by simp
  ultimately show ?thesis using finish_number_reports [OF 3 l(1,2)] by simp
qed

lemma close_steps: "at_close quote triple l \<Longrightarrow> is_quote quote \<Longrightarrow> on_line l (move (close_width triple) l)"
proof -
  assume c: "at_close quote triple l" and q: "is_quote quote"
  have "l_pos l + i < length (l_chars l) \<and> l_chars l ! (l_pos l + i) = quote" if "i < close_width triple" for i
  proof -
    have "i = 0 \<or> triple \<and> (i = 1 \<or> i = 2)" using that by (auto simp: close_width_def split: if_splits)
    then show ?thesis using c q peek_nonzero [of l quote]
      by (auto simp: at_close_def is_quote_def peek_next_def char_at_def split: if_splits)
  qed
  note at = this
  have "0 < close_width triple" by (simp add: close_width_def)
  then have "l_pos l + close_width triple \<le> length (l_chars l)" using at [of "close_width triple - 1"] by linarith
  moreover have "l_chars l ! i \<noteq> c_nl" if "l_pos l \<le> i" "i < l_pos l + close_width triple" for i
    using at [of "i - l_pos l"] that q by (auto simp: is_quote_def)
  ultimately show ?thesis using move_steps [of l "close_width triple"] by (simp add: on_line_def move_def)
qed

lemma raw_loop_steps: "is_quote quote \<Longrightarrow> raw_loop quote triple txt l = (l', r) \<Longrightarrow> steps l l'"
proof (induction quote triple "txt" l arbitrary: l' r rule: raw_loop.induct)
  case (1 quote triple t l)
  show ?case
  proof (cases "at_close quote triple l \<or> is_at_end l")
    case True
    then show ?thesis using 1 close_steps [of quote triple l]
      by (auto simp: raw_loop.simps [of quote triple t l] on_line_def split: if_splits)
  next
    case False
    then show ?thesis using 1 take_text_steps [of l]
      by (auto simp: raw_loop.simps [of quote triple t l] intro: steps_trans)
  qed
qed

lemma raw_string_reports:
  assumes "is_quote quote" "synced l" "l_line_start l + (close_width triple + 1) \<le> l_pos l"
  shows "reports l (raw_string quote triple l)"
proof -
  obtain l' r where r: "raw_loop quote triple [] l = (l', r)" by force
  have "placed (l_file l) (l_chars l) 0 (length (l_chars l)) (span_at l (l_pos l - (close_width triple + 1)))"
    by (rule placed_mono [OF placed_at [OF assms(2)]]) (use assms(3) synced_pos [OF assms(2)] in auto)
  then show ?thesis using raw_loop_steps [OF assms(1) r]
    by (auto simp: raw_string_def r Let_def intro!: reports_OkI reports_ErrI error_placed_span steps_stops split: option.splits)
qed

lemma hex_digit_reports: "synced l \<Longrightarrow> reports l (hex_digit l)"
proof -
  assume l: "synced l"
  have "steps l (advance l)" if "\<not> is_at_end l" "to_digit16 (peek l) \<noteq> None"
    using that by (intro advance_steps) (auto simp: to_digit16_def)
  moreover have "error_placed (l_file l) (l_chars l) (error_at (advance l) (l_pos l) m)" for m
    by (rule error_at_stops) (use l line_start_le [OF l] in \<open>auto simp: advance_def move_def\<close>)
  ultimately show ?thesis using l
    by (auto simp: hex_digit_def Let_def advance_def move_def intro!: reports_OkI reports_ErrI error_here_placed
        split: option.splits) (auto simp: stops_def)
qed

lemma escape_error:
  assumes "synced l" "p = l_pos l \<or> p = l_pos l + 1"  "\<not> is_at_end (advance l)" "peek l \<noteq> c_nl"
  shows "error_placed (l_file l) (l_chars l) (error_at (move n l) p m)"
proof -
  have "\<not> is_at_end l" using assms(3) by (auto simp: is_at_end_def advance_def move_def)
  then have "steps l (advance l)" using assms(4) by (rule advance_steps)
  then have "synced (advance l)" using assms(1) by (rule steps_synced)
  from error_at_stops [OF this, of p "move n l" m] show ?thesis
    using assms(2) line_start_le [OF assms(1)] by (auto simp: advance_def move_def)
qed

lemma simple_escape_cases: "simple_escape c = Some d \<Longrightarrow> 0 < c \<and> c \<noteq> c_nl \<and> d < 128"
  by (auto simp: simple_escape_def split: if_splits)

lemma advance2: "advance (advance l) = move 2 l"
  by (simp add: advance_def move_def)

lemma escape_steps:
  assumes "peek l = c_backslash" "0 < peek (advance l)" "peek (advance l) \<noteq> c_nl"
  shows "steps l (move 2 l)"
  using on_line_steps [OF advance_peek [of l c_backslash]] on_line_steps [OF advance_peek [of "advance l" "peek (advance l)"]] assms
  unfolding advance2 [symmetric] by (auto intro: steps_trans)

lemma escape_errors:
  assumes "synced l" "peek l = c_backslash" "\<not> is_at_end (advance l)"
  shows "error_placed (l_file l) (l_chars l) (error_at (move 2 l) (l_pos (move 2 l) - 1) m)"
    and "error_placed (l_file l) (l_chars l) (error_at (move 2 l) (l_pos (move 2 l) - 2) m)"
  by (rule escape_error [OF assms(1) _ assms(3)]; use assms(2) in \<open>simp add: move_def\<close>)+

lemma hex_byte_reports: "synced l \<Longrightarrow> reports l (hex_byte l)"
proof -
  assume l: "synced l"
  obtain l1 r where r: "hex_digit l = (l1, r)" by force
  have 1: "reports l (l1, r)" using hex_digit_reports [OF l] r by simp
  show ?thesis
  proof (cases r)
    case (Inr hi)
    then have s: "steps l l1" using 1 by (simp add: reports_def)
    have "reports l1 (hex_digit l1)" using hex_digit_reports steps_synced [OF s l] by blast
    from reports_trans [OF s this] show ?thesis
      by (auto simp: hex_byte_def r Inr split: prod.splits sum.splits intro!: reports_OkI reports_ErrI dest!: reports_Ok reports_Err)
  qed (use 1 in \<open>auto simp: hex_byte_def r intro!: reports_ErrI dest!: reports_Err\<close>)
qed

lemma lex_byte_escape_reports:
  assumes l: "synced l" "peek l = c_backslash" and sp: "placed (l_file l) (l_chars l) 0 (length (l_chars l)) open_sp"
  shows "reports l (lex_byte_escape open_sp l)"
proof (cases "is_at_end (advance l)")
  case True
  then show ?thesis using sp by (auto simp: lex_byte_escape_def Let_def intro!: reports_ErrI error_placed_span)
next
  case False
  note err = escape_errors [OF l False]
  show ?thesis
  proof (cases "simple_escape (peek (advance l))")
    case (Some c)
    then have "steps l (move 2 l)" using escape_steps [OF l(2)] simple_escape_cases [OF Some] by simp
    then show ?thesis using False Some by (simp add: lex_byte_escape_def Let_def advance2 reports_OkI)
  next
    case None
    show ?thesis
    proof (cases "peek (advance l) = c_x")
      case True
      have 2: "steps l (move 2 l)" using escape_steps [OF l(2)] True by simp
      show ?thesis using True False None reports_trans [OF 2 hex_byte_reports [OF steps_synced [OF 2 l(1)]]]
        by (simp add: lex_byte_escape_def Let_def advance2)
    qed (use None False err in \<open>simp add: lex_byte_escape_def Let_def advance2 reports_ErrI del: One_nat_def\<close>)
  qed
qed

lemma push_raw_byte_reports:
  assumes "synced l" "\<not> is_at_end l"
  shows "reports l (take_text l, push_raw_byte (take_text l) (peek l))"
proof (cases "peek l \<le> 0x7F")
  case True
  then show ?thesis using take_text_steps [OF assms(2)] by (simp add: push_raw_byte_def reports_def)
next
  case False
  then have t: "take_text l = advance l" by (simp add: take_text_def)
  have "error_placed (l_file l) (l_chars l) (error_at (advance l) (l_pos l) m)" for m
    by (rule error_at_stops) (use assms line_start_le in \<open>auto simp: advance_def move_def\<close>)
  then show ?thesis using False by (auto simp: t push_raw_byte_def reports_def) (auto simp: advance_def move_def)
qed

lemma byte_step_reports:
  assumes "synced l" "\<not> is_at_end l" "placed (l_file l) (l_chars l) 0 (length (l_chars l)) open_sp"
  shows "reports l (byte_step open_sp l)"
  using lex_byte_escape_reports [OF assms(1) _ assms(3)] push_raw_byte_reports [OF assms(1,2)]
  by (simp add: byte_step_def Let_def)

lemma byte_loop_reports:
  assumes "is_quote quote" "synced l" "placed (l_file l) (l_chars l) 0 (length (l_chars l)) open_sp"
  shows "reports l (byte_loop quote triple open_sp bytes l)"
  using assms
proof (induction quote triple open_sp bytes l rule: byte_loop.induct)
  case (1 quote triple open_sp bytes l)
  show ?case
  proof (cases "at_close quote triple l \<or> is_at_end l")
    case True
    then show ?thesis using "1.prems" on_line_steps [OF close_steps [of quote triple l]]
      by (auto simp: byte_loop.simps [of quote triple open_sp bytes l] intro!: reports_OkI reports_ErrI steps_stops error_placed_span)
  next
    case False
    obtain l' r where r: "byte_step open_sp l = (l', r)" by force
    have s: "reports l (l', r)" using byte_step_reports [OF "1.prems"(2) _ "1.prems"(3)] False r by simp
    show ?thesis
    proof (cases r)
      case (Inl e)
      then show ?thesis using False s
        by (auto simp: byte_loop.simps [of quote triple open_sp bytes l] r intro!: reports_ErrI dest!: reports_Err)
    next
      case (Inr b)
      then have st: "steps l l'" using s by (simp add: reports_def)
      then have "reports l' (byte_loop quote triple open_sp (bytes @ [b]) l')"
        using "1.IH" [OF _ _ r [symmetric] Inr] False "1.prems" steps_synced [OF st] steps_source [OF st] by simp
      then show ?thesis using False reports_trans [OF st]
        by (simp add: byte_loop.simps [of quote triple open_sp bytes l] r Inr)
    qed
  qed
qed

lemma opener_placed:
  assumes "synced l" "l_line_start l + n \<le> l_pos l"
  shows "placed (l_file l) (l_chars l) 0 (length (l_chars l)) (span_at l (l_pos l - n))"
  by (rule placed_mono [OF placed_at [OF assms(1)]]) (use assms synced_pos [OF assms(1)] in auto)

lemma byte_string_reports:
  "is_quote quote \<Longrightarrow> synced l \<Longrightarrow> l_line_start l + (close_width triple + 1) \<le> l_pos l \<Longrightarrow>
   reports l (byte_string quote triple l)"
  unfolding byte_string_def by (rule byte_loop_reports) (auto intro: opener_placed)

subsection \<open>Escapes\<close>

lemma hex_run_reports:
  assumes "synced l" "l_line_start l \<le> brace" "brace \<le> l_pos l"
  shows "reports l (hex_run brace digits l)"
  using assms
proof (induction brace digits l rule: hex_run.induct)
  case (1 brace digits l)
  consider "is_at_end l" | "\<not> is_at_end l" "peek l = c_rbrace" | "\<not> is_at_end l" "peek l \<noteq> c_rbrace" "to_digit16 (peek l) = None"
    | "\<not> is_at_end l" "peek l \<noteq> c_rbrace" "to_digit16 (peek l) \<noteq> None" "length digits = 6"
    | "\<not> is_at_end l" "peek l \<noteq> c_rbrace" "to_digit16 (peek l) \<noteq> None" "length digits \<noteq> 6" by blast
  then show ?case
  proof cases
    case 1
    then show ?thesis using "1.prems" by (auto simp: hex_run.simps [of brace digits l] intro!: reports_ErrI error_at_placed steps_stops)
  next
    case 2
    then show ?thesis using "1.prems" advance_steps [of l] by (auto simp: hex_run.simps [of brace digits l] intro!: reports_OkI)
  next
    case 5
    then have "peek l \<noteq> c_nl" by (auto simp: to_digit16_def)
    then have a: "on_line l (advance l)" using 5 by (simp add: advance_on_line)
    have "reports (advance l) (hex_run brace (digits @ [peek l]) (advance l))"
      using "1.IH" [OF 5] on_line_synced [OF a] "1.prems" by (simp add: advance_def move_def)
    from reports_trans [OF on_line_steps [OF a] this] show ?thesis using 5 by (auto simp: hex_run.simps [of brace digits l])
  qed (use "1.prems" in \<open>auto simp: hex_run.simps [of brace digits l] intro!: reports_ErrI error_here_placed steps_stops\<close>)
qed

lemma hex_run_line: "hex_run brace digits l = (l', r) \<Longrightarrow> l_line_start l' = l_line_start l"
proof (induction brace digits l arbitrary: l' r rule: hex_run.induct)
  case (1 brace digits l)
  show ?case using "1.prems" "1.IH" [of l' r]
    by (auto simp: hex_run.simps [of brace digits l] advance_def move_def split: if_splits)
qed

lemma unicode_escape_reports:
  assumes "synced l"
  shows "reports l (unicode_escape l)"
proof (cases "peek l = c_lbrace")
  case False
  then show ?thesis using assms
    by (auto simp: unicode_escape_def match_char_def Let_def intro!: reports_ErrI error_here_placed steps_stops)
next
  case True
  have a: "on_line l (advance l)" using advance_peek [OF True] by simp
  obtain l2 r where r: "hex_run (l_pos l) [] (advance l) = (l2, r)" by force
  have "reports (advance l) (l2, r)"
    using hex_run_reports [OF on_line_synced [OF a assms], of "l_pos l" "[]"] line_start_le [OF assms] r
    by (simp add: advance_def move_def)
  then have 2: "reports l (l2, r)" using reports_trans [OF on_line_steps [OF a]] by blast
  show ?thesis
  proof (cases r)
    case (Inl e)
    then show ?thesis using True 2
      by (auto simp: unicode_escape_def match_char_def Let_def r intro!: reports_ErrI dest!: reports_Err)
  next
    case (Inr digits)
    then have s: "on_line l l2" using 2 hex_run_line [of "l_pos l" "[]" "advance l" l2] r
      by (simp add: reports_def on_line_def) (simp add: advance_def move_def)
    have "error_placed (l_file l) (l_chars l) (error_at l2 (l_pos l) m)" for m
      by (rule error_on_line [OF s assms]) (use line_start_le [OF assms] steps_source [OF on_line_steps [OF s]] in auto)
    then show ?thesis using True on_line_steps [OF s] 
      by (auto simp: unicode_escape_def match_char_def Let_def r Inr intro!: reports_OkI reports_ErrI steps_stops)
  qed
qed

lemma str_escape_reports:
  assumes l: "synced l" "peek l = c_backslash" and sp: "placed (l_file l) (l_chars l) 0 (length (l_chars l)) open_sp"
  shows "reports l (str_escape open_sp l)"
proof (cases "is_at_end (advance l)")
  case True
  then show ?thesis using sp by (auto simp: str_escape_def Let_def intro!: reports_ErrI error_placed_span)
next
  case False
  note err = escape_errors [OF l False]
  show ?thesis
  proof (cases "peek (advance l) = c_u")
    case True
    have 2: "steps l (move 2 l)" using escape_steps [OF l(2)] True by simp
    show ?thesis using True False reports_trans [OF 2 unicode_escape_reports [OF steps_synced [OF 2 l(1)]]]
      by (simp add: str_escape_def Let_def advance2)
  next
    case u: False
    show ?thesis
    proof (cases "simple_escape (peek (advance l))")
      case (Some c)
      then have "steps l (move 2 l)" using escape_steps [OF l(2)] simple_escape_cases [OF Some] by simp
      then show ?thesis using False u Some by (simp add: str_escape_def Let_def advance2 reports_OkI)
    qed (use u False err in \<open>simp add: str_escape_def Let_def advance2 reports_ErrI del: One_nat_def\<close>)
  qed
qed

lemma unicode_escape_mono: "unicode_escape l = (l', r) \<Longrightarrow> synced l \<Longrightarrow> r = Ok c \<Longrightarrow> l_pos l \<le> l_pos l'"
  using unicode_escape_reports [of l] by (auto simp: reports_def dest: steps_source)

lemma str_escape_progress: "str_escape open_sp l = (l', Ok c) \<Longrightarrow> synced l \<Longrightarrow> peek l = c_backslash \<Longrightarrow> l_pos l < l_pos l'"
proof -
  assume e: "str_escape open_sp l = (l', Ok c)" and l: "synced l" "peek l = c_backslash"
  show ?thesis
  proof (cases "peek (advance l) = c_u")
    case True
    then have "synced (move 2 l)" using escape_steps [OF l(2)] l(1) steps_synced by simp
    then have "l_pos (move 2 l) \<le> l_pos l'"
      using e True unicode_escape_mono [of "move 2 l" l'] by (auto simp: str_escape_def Let_def advance2 split: if_splits)
    then show ?thesis by (simp add: move_def)
  qed (use e in \<open>auto simp: str_escape_def Let_def advance2 move_def split: if_splits option.splits\<close>)
qed

lemma peek_advance: "peek (advance l) = peek_next l"
  by (simp add: peek_next_def peek_def char_at_def advance_def move_def)

lemma digit_hole_steps:
  assumes "peek l = c_lbrace" "digit_hole l = Some e"
  shows "steps l (l\<lparr>l_pos := e + 1\<rparr>)" "l_pos l < e + 1"
proof -
  define n where "n = length (takeWhile ascii_digit (drop (l_pos l + 1) (l_chars l)))"
  have e: "e = l_pos l + 1 + n" "char_at l e = Some c_rbrace"
    using assms(2) by (auto simp: digit_hole_def n_def Let_def split: if_splits)
  have "l_chars l ! i \<noteq> c_nl" if i: "l_pos l \<le> i" "i < l_pos l + (n + 2)" for i
  proof -
    consider "i = l_pos l" | "l_pos l + 1 \<le> i" "i < l_pos l + 1 + n" | "i = e" using i e(1) by linarith
    then show ?thesis
    proof cases
      case 1
      then show ?thesis using peek_nonzero [OF assms(1)] by simp
    next
      case 2
      then have "ascii_digit (l_chars l ! i)" unfolding n_def by (rule takeWhile_nth_drop)
      then show ?thesis by (auto simp: ascii_digit_def)
    next
      case 3
      then show ?thesis using e(2) by (auto simp: char_at_def split: if_splits)
    qed
  qed
  moreover have "l_pos l + (n + 2) \<le> length (l_chars l)" using e by (auto simp: char_at_def split: if_splits)
  ultimately have "steps l (move (n + 2) l)" by (rule move_steps [rotated])
  then show "steps l (l\<lparr>l_pos := e + 1\<rparr>)" "l_pos l < e + 1" by (simp_all add: e(1) move_def)
qed

subsection \<open>Tokens of holes\<close>

text \<open>The code of a hole is tokens and one end mark; every position in a token satisfies \<open>P\<close>.\<close>

definition code_ok :: "tok list \<Rightarrow> bool" where
  "code_ok ts \<longleftrightarrow>
     ts \<noteq> [] \<and> tok_kind (last ts) = Eof \<and> list_all (\<lambda>t. \<not> is_layout (tok_kind t)) (butlast ts)"

fun tok_ok :: "(span \<Rightarrow> bool) \<Rightarrow> tok \<Rightarrow> bool"
  and kind_ok :: "(span \<Rightarrow> bool) \<Rightarrow> token \<Rightarrow> bool"
  and part_ok :: "(span \<Rightarrow> bool) \<Rightarrow> str_part \<Rightarrow> bool"
  and hole_ok :: "(span \<Rightarrow> bool) \<Rightarrow> str_hole \<Rightarrow> bool"
  and spec_ok :: "(span \<Rightarrow> bool) \<Rightarrow> spec_part \<Rightarrow> bool" where
  "tok_ok P (Tok k s i) = (P s \<and> kind_ok P k)"
| "kind_ok P (T_Str parts n) = list_all (part_ok P) parts"
| "kind_ok P _ = True"
| "part_ok P (SText t) = True"
| "part_ok P (SHole h) = hole_ok P h"
| "hole_ok P (Hole ts spec sp) =
     (code_ok ts \<and> list_all (tok_ok P) ts \<and> (case spec of None \<Rightarrow> True | Some ss \<Rightarrow> list_all (spec_ok P) ss) \<and> P sp)"
| "spec_ok P (SpText t) = True"
| "spec_ok P (SpField ts) = (code_ok ts \<and> list_all (tok_ok P) ts)"

lemma ok_mono_all:
  "\<forall>s. P s \<longrightarrow> Q s \<Longrightarrow> tok_ok P t \<Longrightarrow> tok_ok Q t"
  "\<forall>s. P s \<longrightarrow> Q s \<Longrightarrow> kind_ok P k \<Longrightarrow> kind_ok Q k"
  "\<forall>s. P s \<longrightarrow> Q s \<Longrightarrow> part_ok P p \<Longrightarrow> part_ok Q p"
  "\<forall>s. P s \<longrightarrow> Q s \<Longrightarrow> hole_ok P h \<Longrightarrow> hole_ok Q h"
  "\<forall>s. P s \<longrightarrow> Q s \<Longrightarrow> spec_ok P sp \<Longrightarrow> spec_ok Q sp"
  by (induction P t and P k and P p and P h and P sp rule: tok_ok_kind_ok_part_ok_hole_ok_spec_ok.induct)
     (auto simp: list_all_iff split: option.splits)

lemmas tok_ok_mono = ok_mono_all(1) [OF allI, OF impI]
lemmas part_ok_mono = ok_mono_all(3) [OF allI, OF impI]
lemmas spec_ok_mono = ok_mono_all(5) [OF allI, OF impI]

text \<open>Moving on to \<open>l'\<close> with a result, or leaving \<open>l'\<close> behind with an error.\<close>

definition goes :: "lexer \<Rightarrow> lexer \<Rightarrow> bool" where
  "goes l l' \<longleftrightarrow> same_source l l' \<and> same_layout l l' \<and> synced l'"

definition leaves :: "lexer \<Rightarrow> lexer \<Rightarrow> bool" where
  "leaves l l' \<longleftrightarrow> l_chars l' = l_chars l \<and> l_file l' = l_file l \<and>
     pred_option (placed (l_file l) (l_chars l) 0 (length (l_chars l))) (l_hole_comment l')"

definition yields :: "lexer \<Rightarrow> (lexer \<Rightarrow> 'a \<Rightarrow> bool) \<Rightarrow> 'a scan option \<Rightarrow> bool" where
  "yields l Q res \<longleftrightarrow>
     (case res of
        None \<Rightarrow> False
      | Some (l', Inl e) \<Rightarrow> leaves l l' \<and> error_placed (l_file l) (l_chars l) e
      | Some (l', Inr x) \<Rightarrow> Q l' x)"

definition inside :: "lexer \<Rightarrow> bool" where
  "inside l \<longleftrightarrow> synced l \<and> l_pending l = [] \<and> \<not> l_at_line_start l"

abbreviation between :: "lexer \<Rightarrow> nat \<Rightarrow> nat \<Rightarrow> span \<Rightarrow> bool" where
  "between l \<equiv> placed (l_file l) (l_chars l)"

lemma goes_inside: "inside l \<Longrightarrow> goes l l' \<Longrightarrow> inside l'"
  by (simp add: inside_def goes_def same_layout_def)

lemma goes_trans: "goes l1 l2 \<Longrightarrow> goes l2 l3 \<Longrightarrow> goes l1 l3"
  by (auto simp: goes_def same_source_def same_layout_def)

lemma steps_goes: "steps l l' \<Longrightarrow> synced l \<Longrightarrow> goes l l'"
  by (simp add: steps_def goes_def)

lemma goes_source: "goes l l' \<Longrightarrow> l_chars l' = l_chars l \<and> l_file l' = l_file l \<and> l_hole_nest l' = l_hole_nest l \<and> l_pos l \<le> l_pos l'"
  by (simp add: goes_def same_source_def)

lemma stops_leaves: "stops l l' \<Longrightarrow> synced l \<Longrightarrow> leaves l l'"
  by (simp add: stops_def leaves_def synced_def)

lemma synced_leaves: "synced l' \<Longrightarrow> l_chars l' = l_chars l \<Longrightarrow> l_file l' = l_file l \<Longrightarrow> leaves l l'"
  by (simp add: leaves_def synced_def)

lemma yields_mono: "yields l P res \<Longrightarrow> (\<And>l' x. P l' x \<Longrightarrow> Q l' x) \<Longrightarrow> yields l Q res"
  by (auto simp: yields_def split: option.splits prod.splits sum.splits)

lemma yields_from: "yields l1 Q res \<Longrightarrow> l_chars l1 = l_chars l \<Longrightarrow> l_file l1 = l_file l \<Longrightarrow> yields l Q res"
  by (auto simp: yields_def leaves_def split: option.splits prod.splits sum.splits)

lemma yields_at: "yields l1 P res \<Longrightarrow> l_chars l1 = l_chars l \<Longrightarrow> l_file l1 = l_file l \<Longrightarrow>
    (\<And>l' x. P l' x \<Longrightarrow> Q l' x) \<Longrightarrow> yields l Q res"
  using yields_from [OF yields_mono] by blast

lemma yields_via: "yields l1 P res \<Longrightarrow> goes l l1 \<Longrightarrow> (\<And>l' x. P l' x \<Longrightarrow> Q l' x) \<Longrightarrow> yields l Q res"
  using yields_from [OF yields_mono] goes_source by blast

lemma yields_map: "yields l P res \<Longrightarrow> (\<And>l' x. P l' x \<Longrightarrow> Q l' (f l' x)) \<Longrightarrow>
    yields l Q (map_option (\<lambda>(l', r). (l', map_sum id (f l') r)) res)"
  by (cases res) (auto simp: yields_def split: sum.splits)

lemma yields_reports:
  "reports l lr \<Longrightarrow> synced l \<Longrightarrow> (\<And>l' x. lr = (l', Ok x) \<Longrightarrow> steps l l' \<Longrightarrow> Q l' x) \<Longrightarrow> yields l Q (Some lr)"
  by (auto simp: yields_def reports_def intro: stops_leaves split: prod.splits sum.splits)

lemma unterminated_placed:
  "leaves l l' \<Longrightarrow> between l 0 (length (l_chars l)) brace \<Longrightarrow> error_placed (l_file l) (l_chars l) (unterminated_hole l' brace)"
  by (auto simp: unterminated_hole_def leaves_def intro: error_placed_span split: option.splits)

text \<open>At depth \<open>d\<close> of holes, there is room for every further level.\<close>

definition fits :: "nat \<Rightarrow> nat \<Rightarrow> bool" where
  "fits d room \<longleftrightarrow> d \<le> MAX_HOLE_NEST \<and> MAX_HOLE_NEST < d + room"

text \<open>
  The interface between a literal and the tokens of its holes: with room for the level of nesting, the
  token step answers; a real token moves the lexer on and lies where it was read.
\<close>

locale token_source =
  fixes nt :: token_step
    and room :: nat
  assumes nt_yields: "inside l \<Longrightarrow> fits (l_hole_nest l) room \<Longrightarrow>
    yields l (\<lambda>l' t. if is_layout (tok_kind t) then leaves l l'
                     else goes l l' \<and> l_pos l < l_pos l' \<and> tok_ok (between l (l_pos l) (l_pos l')) t) (nt l)"
begin

lemma hole_tokens_yields:
  assumes "inside l" "fits (l_hole_nest l) room" "remaining l < k" "a \<le> l_pos l"
    "between l 0 (length (l_chars l)) brace" "list_all (tok_ok (between l a (l_pos l))) toks"
    "list_all (\<lambda>t. \<not> is_layout (tok_kind t)) toks"
  shows "yields l (\<lambda>l' (ts, b). goes l l' \<and> l_pos l < l_pos l' \<and> code_ok ts \<and> list_all (tok_ok (between l a (l_pos l'))) ts)
    (hole_tokens nt k brace base toks l)"
  using assms
proof (induction k arbitrary: l toks)
  case (Suc k)
  note nt = nt_yields [OF Suc.prems(1,2)]
  obtain l' r where r: "nt l = Some (l', r)" using nt by (cases "nt l") (auto simp: yields_def)
  show ?case
  proof (cases r)
    case (Inl e)
    then show ?thesis using nt r Suc.prems(5) unterminated_placed by (auto simp: yields_def)
  next
    case (Inr t)
    show ?thesis
    proof (cases "is_layout (tok_kind t)")
      case True
      then show ?thesis using nt r Inr Suc.prems(5) unterminated_placed by (auto simp: yields_def Let_def)
    next
      case False
      then have g: "goes l l'" "l_pos l < l_pos l'" and t: "tok_ok (between l (l_pos l) (l_pos l')) t"
        using nt r Inr by (auto simp: yields_def)
      have src: "l_chars l' = l_chars l" "l_file l' = l_file l" "l_hole_nest l' = l_hole_nest l" "l_pos l' \<le> length (l_chars l)"
        using goes_source [OF g(1)] g(1) synced_pos [of l'] by (auto simp: goes_def)
      have wide: "between l (l_pos l) (l_pos l') s \<Longrightarrow> between l a (l_pos l') s"
        "between l a (l_pos l) s \<Longrightarrow> between l a (l_pos l') s" for s
        using placed_mono Suc.prems(4) g(2) by (meson le_refl less_imp_le_nat)+
      have ts: "list_all (tok_ok (between l a (l_pos l'))) (toks @ [t])"
        using Suc.prems(6) t tok_ok_mono [OF wide(1)] tok_ok_mono [OF wide(2)] by (auto simp: list_all_iff)
      have sp: "between l a (l_pos l') (tok_span t)" using ts by (cases t) auto
      have fin: "code_ok (toks @ [Tok Eof (tok_span t) None])"
        "list_all (tok_ok (between l a (l_pos l'))) (toks @ [Tok Eof (tok_span t) None])"
        using Suc.prems(7) ts sp by (auto simp: code_ok_def)
      have lv: "leaves l l'" using g(1) src by (auto simp: goes_def intro: synced_leaves)
      have err: "error_placed (l_file l) (l_chars l) (error_span (tok_span t) m)" for m
        using sp src placed_mono by (intro error_placed_span) blast
      have pop: "goes l (l'\<lparr>l_bracket_depth := n\<rparr>)" for n
        using g(1) by (auto simp: goes_def same_source_def same_layout_def synced_def)
      have "yields l' (\<lambda>l'' (ts, b). goes l' l'' \<and> l_pos l' < l_pos l'' \<and> code_ok ts
             \<and> list_all (tok_ok (between l' a (l_pos l''))) ts) (hole_tokens nt k brace base (toks @ [t]) l')"
        by (rule Suc.IH) (use Suc.prems g src ts False goes_inside [OF Suc.prems(1) g(1)] in \<open>auto simp: remaining_def\<close>)
      then have "yields l (\<lambda>l'' (ts, b). goes l l'' \<and> l_pos l < l_pos l'' \<and> code_ok ts
             \<and> list_all (tok_ok (between l a (l_pos l''))) ts) (hole_tokens nt k brace base (toks @ [t]) l')"
        by (rule yields_via [OF _ g(1)]) (use src g in \<open>auto intro: goes_trans [OF g(1)]\<close>)
      then show ?thesis using False r Inr fin g lv err pop by (auto simp: Let_def yields_def)
    qed
  qed
qed simp

lemma hole_code_yields:
  assumes "inside l" "fits (l_hole_nest l) room" "between l 0 (length (l_chars l)) brace"
  shows "yields l (\<lambda>l' (ts, b). goes l l' \<and> l_pos l < l_pos l' \<and> code_ok ts
             \<and> list_all (tok_ok (between l (l_pos l) (l_pos l'))) ts) (hole_code nt brace l)"
proof -
  define base where "base = l_bracket_depth l + 1"
  define l1 where "l1 = l\<lparr>l_bracket_depth := base, l_hole_base := base, l_after_operand := False\<rparr>"
  have l1: "l_chars l1 = l_chars l" "l_file l1 = l_file l" "l_hole_nest l1 = l_hole_nest l" "l_pos l1 = l_pos l" "goes l l1"
    using assms(1) by (auto simp: l1_def goes_def same_source_def same_layout_def inside_def synced_def)
  have "yields l1 (\<lambda>l' (ts, b). goes l1 l' \<and> l_pos l1 < l_pos l' \<and> code_ok ts
             \<and> list_all (tok_ok (between l1 (l_pos l1) (l_pos l'))) ts) (hole_tokens nt (remaining l1 + 1) brace base [] l1)"
    by (rule hole_tokens_yields) (use assms l1 goes_inside in auto)
  then have "yields l (\<lambda>l' (ts, b). goes l l' \<and> l_pos l < l_pos l' \<and> code_ok ts
             \<and> list_all (tok_ok (between l (l_pos l) (l_pos l'))) ts) (hole_tokens nt (remaining l1 + 1) brace base [] l1)"
    by (rule yields_via [OF _ l1(5)]) (use l1(1-4) in \<open>auto intro: goes_trans [OF l1(5)]\<close>)
  moreover have "goes l (l'\<lparr>l_hole_base := n\<rparr>) = goes l l'" "leaves l (l'\<lparr>l_hole_base := n\<rparr>) = leaves l l'" for l' n
    by (auto simp: goes_def same_source_def same_layout_def leaves_def synced_def)
  ultimately show ?thesis
    unfolding hole_code_def base_def [symmetric] l1_def [symmetric] Let_def
    by (auto simp: yields_def split: option.splits prod.splits sum.splits)
qed

lemma spec_loop_yields:
  assumes "inside l" "fits (l_hole_nest l) room" "remaining l < k" "a \<le> l_pos l" "is_quote quote"
    "between l 0 (length (l_chars l)) brace" "list_all (spec_ok (between l a (l_pos l))) spec"
  shows "yields l (\<lambda>l' ss. goes l l' \<and> list_all (spec_ok (between l a (l_pos l'))) ss)
    (spec_loop nt k quote triple brace spec t l)"
  using assms
proof (induction k arbitrary: l spec t)
  case (Suc k)
  have l: "synced l" using Suc.prems(1) by (simp add: inside_def)
  have wide: "between l a (l_pos l) s \<Longrightarrow> l_pos l \<le> p \<Longrightarrow> between l a p s" for s p
    using placed_mono by blast
  have go: "yields l (\<lambda>l' ss. goes l l' \<and> list_all (spec_ok (between l a (l_pos l'))) ss)
      (spec_loop nt k quote triple brace spec' t' l')"
    if "goes l l'" "l_pos l < l_pos l'" "list_all (spec_ok (between l a (l_pos l'))) spec'" for l' spec' t'
  proof -
    have src: "l_chars l' = l_chars l" "l_file l' = l_file l" "l_hole_nest l' = l_hole_nest l" using goes_source [OF that(1)] by auto
    have "l_pos l' \<le> length (l_chars l)" using that(1) src by (auto simp: goes_def dest: synced_pos)
    then have "yields l' (\<lambda>l'' ss. goes l' l'' \<and> list_all (spec_ok (between l' a (l_pos l''))) ss)
      (spec_loop nt k quote triple brace spec' t' l')"
      by (intro Suc.IH) (use Suc.prems that src goes_inside [OF Suc.prems(1) that(1)] in \<open>auto simp: remaining_def\<close>)
    then show ?thesis by (rule yields_via [OF _ that(1)]) (use src in \<open>auto intro: goes_trans [OF that(1)]\<close>)
  qed
  have keep: "list_all (spec_ok (between l a p)) spec" if "l_pos l \<le> p" for p
    using Suc.prems(7) spec_ok_mono [OF wide] that by (auto simp: list_all_iff)
  consider "is_at_end l \<or> at_close quote triple l"
    | "\<not> (is_at_end l \<or> at_close quote triple l)" "peek l = c_rbrace"
    | "\<not> (is_at_end l \<or> at_close quote triple l)" "peek l = c_lbrace"
    | "\<not> (is_at_end l \<or> at_close quote triple l)" "peek l = c_backslash"
    | "\<not> (is_at_end l \<or> at_close quote triple l)" "peek l \<notin> {c_rbrace, c_lbrace, c_backslash}" by blast
  then show ?case
  proof cases
    case 1
    then show ?thesis using unterminated_placed [OF synced_leaves [OF l]] Suc.prems(6) synced_leaves [OF l] by (auto simp: yields_def)
  next
    case 2
    then show ?thesis using steps_goes [OF on_line_steps [OF advance_peek [of l c_rbrace]] l] keep
      by (auto simp: yields_def flush_spec_def advance_def move_def)
  next
    case 3
    have g: "goes l (advance l)" using steps_goes [OF on_line_steps [OF advance_peek [of l c_lbrace]] l] 3 by simp
    define sp where "sp = span_at l (l_pos l)"
    have sp: "between l 0 (length (l_chars l)) sp" unfolding sp_def using opener_placed [OF l, of 0] line_start_le [OF l] by simp
    have "yields (advance l) (\<lambda>l' (ts, b). goes (advance l) l' \<and> l_pos (advance l) < l_pos l' \<and> code_ok ts
             \<and> list_all (tok_ok (between (advance l) (l_pos (advance l)) (l_pos l'))) ts) (hole_code nt sp (advance l))"
      by (rule hole_code_yields) (use goes_inside [OF Suc.prems(1) g] goes_source [OF g] Suc.prems(2) sp in auto)
    then have hc: "yields l (\<lambda>l' (ts, b). goes l l' \<and> l_pos l < l_pos l' \<and> spec_ok (between l a (l_pos l')) (SpField ts))
        (hole_code nt sp (advance l))"
    proof (rule yields_via [OF _ g])
      fix l' :: lexer and x :: "tok list \<times> bool"
      assume h: "case x of (ts, b) \<Rightarrow> goes (advance l) l' \<and> l_pos (advance l) < l_pos l' \<and> code_ok ts
             \<and> list_all (tok_ok (between (advance l) (l_pos (advance l)) (l_pos l'))) ts"
      have w: "between (advance l) (l_pos (advance l)) (l_pos l') s \<Longrightarrow> between l a (l_pos l') s" for s
        using placed_mono [of _ _ "l_pos (advance l)" "l_pos l'" s a "l_pos l'"] goes_source [OF g] Suc.prems(4) by simp
      show "case x of (ts, b) \<Rightarrow> goes l l' \<and> l_pos l < l_pos l' \<and> spec_ok (between l a (l_pos l')) (SpField ts)"
        using h goes_trans [OF g] goes_source [OF g] tok_ok_mono [OF w] by (cases x) (auto simp: list_all_iff)
    qed
    show ?thesis
    proof (cases "hole_code nt sp (advance l)")
      case (Some lr)
      obtain l' r where lr: "lr = (l', r)" by force
      have "yields l (\<lambda>l' ss. goes l l' \<and> list_all (spec_ok (between l a (l_pos l'))) ss)
          (spec_loop nt k quote triple brace (flush_spec spec t @ [SpField ts]) [] l')" if "r = Ok (ts, False)" for ts
        using go [of l' "flush_spec spec t @ [SpField ts]"] hc Some lr that keep [of "l_pos l'"]
        by (auto simp: yields_def flush_spec_def)
      then show ?thesis using hc 3 Some lr sp error_placed_span synced_leaves [OF l]
        by (auto simp: yields_def sp_def [symmetric] Let_def leaves_def goes_def synced_def same_source_def split: sum.splits bool.splits)
    qed (use hc in \<open>simp add: yields_def\<close>)
  next
    case 4
    obtain l' r where r: "str_escape brace l = (l', r)" by force
    have rep: "reports l (l', r)" using str_escape_reports [OF l 4(2) Suc.prems(6)] r by simp
    show ?thesis
    proof (cases r)
      case (Inl e)
      then show ?thesis using 4 r rep stops_leaves [OF _ l] by (auto simp: yields_def dest!: reports_Err)
    next
      case (Inr c)
      then have "goes l l'" "l_pos l < l_pos l'" using rep steps_goes [OF _ l] str_escape_progress [OF _ l 4(2)] r by (auto simp: reports_def)
      then show ?thesis using 4 r Inr go [of l' spec] keep by auto
    qed
  next
    case 5
    then have "goes l (take_text l)" using steps_goes [OF take_text_steps l] by simp
    then show ?thesis using 5 go [of "take_text l" spec] keep by auto
  qed
qed simp

lemma hole_body_yields:
  assumes "inside l" "fits (l_hole_nest l) room" "a \<le> l_pos l" "is_quote quote" "between l a (l_pos l) brace"
  shows "yields l (\<lambda>l' h. goes l l' \<and> hole_ok (between l a (l_pos l')) h) (hole_body nt brace quote triple l)"
proof -
  have l: "synced l" using assms(1) by (simp add: inside_def)
  have br: "between l 0 (length (l_chars l)) brace" using placed_mono [OF assms(5)] synced_pos [OF l] by simp
  note hc = hole_code_yields [OF assms(1,2) br]
  obtain l' r where r: "hole_code nt brace l = Some (l', r)" using hc by (cases "hole_code nt brace l") (auto simp: yields_def)
  show ?thesis
  proof (cases r)
    case (Inl e)
    then show ?thesis using hc r by (simp add: yields_def hole_body_def)
  next
    case (Inr tb)
    obtain ts b where tb: "tb = (ts, b)" by force
    have g: "goes l l'" "l_pos l < l_pos l'" "code_ok ts" "list_all (tok_ok (between l (l_pos l) (l_pos l'))) ts"
      using hc r Inr tb by (auto simp: yields_def)
    have src: "l_chars l' = l_chars l" "l_file l' = l_file l" "l_hole_nest l' = l_hole_nest l" "synced l'"
      using goes_source [OF g(1)] g(1) by (auto simp: goes_def)
    have w: "between l (l_pos l) (l_pos l') s \<Longrightarrow> l_pos l' \<le> p \<Longrightarrow> between l a p s" for s p
      using placed_mono assms(3) by blast
    have toks: "list_all (tok_ok (between l a p)) ts" if "l_pos l' \<le> p" for p
      using g(4) tok_ok_mono [OF w] that by (auto simp: list_all_iff)
    show ?thesis
    proof (cases b)
      case False
      then show ?thesis using r Inr tb g toks placed_mono [OF assms(5)] by (auto simp: yields_def hole_body_def)
    next
      case True
      have at: "between l a p (span_at l' (l_pos l'))" if "l_pos l' \<le> p" for p
        using placed_at [OF src(4) line_start_le [OF src(4)]] placed_mono src that g(2) assms(3) by fastforce
      have "yields l' (\<lambda>l'' ss. goes l' l'' \<and> list_all (spec_ok (between l' a (l_pos l''))) ss)
         (spec_loop nt (remaining l' + 1) quote triple brace [] [] l')"
        by (rule spec_loop_yields) (use assms g src br goes_inside [OF assms(1) g(1)] in auto)
      then have "yields l (\<lambda>l'' ss. goes l l'' \<and> l_pos l' \<le> l_pos l'' \<and> list_all (spec_ok (between l a (l_pos l''))) ss)
         (spec_loop nt (remaining l' + 1) quote triple brace [] [] l')"
        by (rule yields_via [OF _ g(1)]) (use src goes_source in \<open>auto intro: goes_trans [OF g(1)]\<close>)
      note sl = this
      obtain l'' r' where r': "spec_loop nt (remaining l' + 1) quote triple brace [] [] l' = Some (l'', r')"
        using sl by (cases "spec_loop nt (remaining l' + 1) quote triple brace [] [] l'") (auto simp: yields_def)
      show ?thesis
      proof (cases r')
        case (Inr ss)
        then have "goes l l''" "l_pos l' \<le> l_pos l''" "list_all (spec_ok (between l a (l_pos l''))) ss" using sl r' by (auto simp: yields_def)
        then show ?thesis using r \<open>r = Inr tb\<close> tb True r' Inr g(3) toks [of "l_pos l''"] at [of "l_pos l''"]
          by (simp add: yields_def hole_body_def Let_def)
      qed (use sl r r' \<open>r = Inr tb\<close> tb True in \<open>simp add: yields_def hole_body_def Let_def\<close>)
    qed
  qed
qed

lemma hole_yields:
  assumes "inside l" "fits (l_hole_nest l) (room + 1)" "peek l = c_lbrace" "is_quote quote"
  shows "yields l (\<lambda>l' h. goes l l' \<and> l_pos l < l_pos l' \<and> hole_ok (between l (l_pos l) (l_pos l')) h) (hole nt quote triple l)"
proof -
  have l: "synced l" using assms(1) by (simp add: inside_def)
  define brace where "brace = span_at l (l_pos l)"
  define l1 where "l1 = advance l"
  define l2 where "l2 = l1\<lparr>l_hole_nest := l_hole_nest l1 + 1, l_hole_comment := None\<rparr>"
  have g: "goes l l1" unfolding l1_def using steps_goes [OF on_line_steps [OF advance_peek [OF assms(3)]] l] by simp
  have l1: "l_hole_comment l1 = l_hole_comment l" "l_pos l1 = l_pos l + 1" by (simp_all add: l1_def advance_def move_def)
  have br: "between l (l_pos l) (l_pos l + 1) brace"
    unfolding brace_def using placed_mono [OF placed_at [OF l line_start_le [OF l]]] by simp
  have br0: "between l 0 (length (l_chars l)) brace"
    using placed_mono [OF br] g l1(2) by (auto simp: goes_def same_source_def dest: synced_pos)
  have l2: "inside l2" "l_chars l2 = l_chars l" "l_file l2 = l_file l" "l_pos l2 = l_pos l + 1" "l_hole_nest l2 = l_hole_nest l + 1"
    using goes_inside [OF assms(1) g] goes_source [OF g] l1 by (auto simp: l2_def inside_def synced_def)
  show ?thesis
  proof (cases "MAX_HOLE_NEST \<le> l_hole_nest l")
    case True
    then show ?thesis using g br0 error_placed_span synced_leaves [of l1 l] goes_source [OF g]
      unfolding hole_def brace_def [symmetric] l1_def [symmetric] Let_def by (auto simp: yields_def goes_def)
  next
    case False
    have "yields l2 (\<lambda>l' h. goes l2 l' \<and> hole_ok (between l2 (l_pos l) (l_pos l')) h) (hole_body nt brace quote triple l2)"
      by (rule hole_body_yields) (use l2 assms br False in \<open>auto simp: fits_def\<close>)
    then have "yields l (\<lambda>l' h. goes l2 l' \<and> hole_ok (between l (l_pos l) (l_pos l')) h) (hole_body nt brace quote triple l2)"
      unfolding l2(2,3) by (rule yields_from [OF _ l2(2,3)])
    moreover have "goes l (l'\<lparr>l_hole_nest := l_hole_nest l' - 1, l_hole_comment := l_hole_comment l\<rparr>) \<and> l_pos l < l_pos l'"
      if "goes l2 l'" for l'
      using that l2 g l by (auto simp: goes_def same_source_def same_layout_def synced_def l2_def)
    moreover have "leaves l (l'\<lparr>l_hole_nest := n, l_hole_comment := l_hole_comment l\<rparr>)" if "leaves l l'" for l' n
      using that l by (simp add: leaves_def synced_def)
    ultimately show ?thesis using False goes_source [OF g]
      unfolding hole_def brace_def [symmetric] l1_def [symmetric] Let_def l2_def [symmetric]
      by (auto simp: yields_def l1 split: option.splits sum.splits prod.splits)
  qed
qed

lemma quoted_loop_yields:
  assumes "inside l" "fits (l_hole_nest l) (room + 1)" "remaining l < k" "a \<le> l_pos l" "is_quote quote"
    "between l 0 (length (l_chars l)) open_sp" "list_all (part_ok (between l a (l_pos l))) parts"
  shows "yields l (\<lambda>l' ps. goes l l' \<and> list_all (part_ok (between l a (l_pos l'))) ps)
    (quoted_loop nt k quote triple open_sp parts t l)"
  using assms
proof (induction k arbitrary: l parts t)
  case (Suc k)
  have l: "synced l" using Suc.prems(1) by (simp add: inside_def)
  have wide: "between l a (l_pos l) s \<Longrightarrow> l_pos l \<le> p \<Longrightarrow> between l a p s" for s p
    using placed_mono by blast
  have go: "yields l (\<lambda>l' ps. goes l l' \<and> list_all (part_ok (between l a (l_pos l'))) ps)
      (quoted_loop nt k quote triple open_sp parts' t' l')"
    if "goes l l'" "l_pos l < l_pos l'" "list_all (part_ok (between l a (l_pos l'))) parts'" for l' parts' t'
  proof -
    have src: "l_chars l' = l_chars l" "l_file l' = l_file l" "l_hole_nest l' = l_hole_nest l" using goes_source [OF that(1)] by auto
    have "l_pos l' \<le> length (l_chars l)" using that(1) src by (auto simp: goes_def dest: synced_pos)
    then have "yields l' (\<lambda>l'' ps. goes l' l'' \<and> list_all (part_ok (between l' a (l_pos l''))) ps)
      (quoted_loop nt k quote triple open_sp parts' t' l')"
      by (intro Suc.IH) (use Suc.prems that src goes_inside [OF Suc.prems(1) that(1)] in \<open>auto simp: remaining_def\<close>)
    then show ?thesis by (rule yields_via [OF _ that(1)]) (use src in \<open>auto intro: goes_trans [OF that(1)]\<close>)
  qed
  have keep: "list_all (part_ok (between l a p)) parts" if "l_pos l \<le> p" for p
    using Suc.prems(7) part_ok_mono [OF wide] that by (auto simp: list_all_iff)
  let ?two = "(peek l = c_lbrace \<or> peek l = c_rbrace) \<and> peek_next l = peek l"
  consider (fin) "is_at_end l"
    | (close) "\<not> is_at_end l" "at_close quote triple l"
    | (esc) "\<not> is_at_end l" "\<not> at_close quote triple l" "peek l = c_backslash"
    | (two) "\<not> is_at_end l" "\<not> at_close quote triple l" ?two
    | (hole) "\<not> is_at_end l" "\<not> at_close quote triple l" "\<not> ?two" "peek l = c_lbrace"
    | (stray) "\<not> is_at_end l" "\<not> at_close quote triple l" "\<not> ?two" "peek l = c_rbrace"
    | (plain) "\<not> is_at_end l" "\<not> at_close quote triple l" "\<not> ?two" "peek l \<notin> {c_backslash, c_lbrace, c_rbrace}" by blast
  then show ?case
  proof cases
    case fin
    then show ?thesis using error_placed_span [OF Suc.prems(6)] synced_leaves [OF l] by (auto simp: yields_def)
  next
    case close
    then show ?thesis using steps_goes [OF on_line_steps [OF close_steps [of quote triple l]] l] keep Suc.prems(5)
      by (auto simp: yields_def flush_text_def move_def)
  next
    case esc
    obtain l' r where r: "str_escape open_sp l = (l', r)" by force
    have rep: "reports l (l', r)" using str_escape_reports [OF l esc(3) Suc.prems(6)] r by simp
    show ?thesis
    proof (cases r)
      case (Inl e)
      then show ?thesis using esc r rep stops_leaves [OF _ l] by (auto simp: yields_def dest!: reports_Err)
    next
      case (Inr c)
      then have "goes l l'" "l_pos l < l_pos l'" using rep steps_goes [OF _ l] str_escape_progress [OF _ l esc(3)] r by (auto simp: reports_def)
      then show ?thesis using esc r Inr go [of l' parts] keep by auto
    qed
  next
    case two
    have "peek (advance l) = peek l" using two(3) by (simp add: peek_advance)
    then have "on_line (advance l) (advance (advance l))" using two(3) advance_peek [of "advance l"] by auto
    moreover have "on_line l (advance l)" using two(3) advance_peek [of l] by auto
    ultimately have "goes l (move 2 l)" unfolding advance2 [symmetric] using steps_goes [OF on_line_steps [OF on_line_trans] l] by blast
    then show ?thesis using two go [of "move 2 l" parts] keep by (auto simp: move_def)
  next
    case hole
    show ?thesis
    proof (cases "digit_hole l")
      case (Some end_pos)
      then show ?thesis using hole digit_hole_steps [OF hole(4) Some] steps_goes [OF _ l] go keep by auto
    next
      case None
      note h = hole_yields [OF Suc.prems(1,2) hole(4) Suc.prems(5), of triple]
      obtain l' r where r: "hole nt quote triple l = Some (l', r)" using h by (cases "hole nt quote triple l") (auto simp: yields_def)
      show ?thesis
      proof (cases r)
        case (Inl e)
        then show ?thesis using h hole None r by (simp add: yields_def)
      next
        case (Inr hl)
        then have g: "goes l l'" "l_pos l < l_pos l'" "hole_ok (between l (l_pos l) (l_pos l')) hl" using h r by (auto simp: yields_def)
        then have "part_ok (between l a (l_pos l')) (SHole hl)"
          using ok_mono_all(4) [of "between l (l_pos l) (l_pos l')" "between l a (l_pos l')"] placed_mono Suc.prems(4) by fastforce
        then show ?thesis using hole None r Inr go [OF g(1,2), of "flush_text parts t @ [SHole hl]"] keep [of "l_pos l'"] g
          by (auto simp: flush_text_def)
      qed
    qed
  next
    case stray
    then show ?thesis using error_here_placed [OF l] synced_leaves [OF l] by (auto simp: yields_def)
  next
    case plain
    then have "goes l (take_text l)" using steps_goes [OF take_text_steps l] by simp
    then show ?thesis using plain go [of "take_text l" parts] keep by auto
  qed
qed simp

lemma quoted_yields:
  assumes "inside l" "fits (l_hole_nest l) (room + 1)" "is_quote quote" "l_line_start l + close_width triple \<le> l_pos l" "a \<le> l_pos l"
  shows "yields l (\<lambda>l' k. goes l l' \<and> kind_ok (between l a (l_pos l')) k \<and> \<not> is_layout k) (quoted nt quote triple l)"
proof -
  have l: "synced l" using assms(1) by (simp add: inside_def)
  have "yields l (\<lambda>l' ps. goes l l' \<and> list_all (part_ok (between l a (l_pos l'))) ps)
    (quoted_loop nt (remaining l + 1) quote triple (span_at l (l_pos l - close_width triple)) [] [] l)"
    by (rule quoted_loop_yields) (use assms opener_placed [OF l assms(4)] in auto)
  then show ?thesis unfolding quoted_def Let_def by (rule yields_map) auto
qed

end

subsection \<open>The indent stack\<close>

definition stack_ok :: "nat list \<Rightarrow> bool" where
  "stack_ok s \<longleftrightarrow> sorted_wrt (>) s \<and> s \<noteq> [] \<and> last s = 0"

lemma stack_ok_tl: "stack_ok s \<Longrightarrow> 0 < hd s \<Longrightarrow> stack_ok (List.tl s)"
  by (cases s) (auto simp: stack_ok_def split: if_splits)

lemma stack_ok_bottom: "stack_ok s \<Longrightarrow> hd s = 0 \<Longrightarrow> s = [0]"
  by (cases s) (auto simp: stack_ok_def split: if_splits)

lemma indent_step_cases:
  assumes "stack_ok s" "indent_step s w = (s', Inr layout)"
  shows "stack_ok s' \<and>
    (layout = [] \<and> s' = s \<or> layout = [Indent] \<and> s' = w # s \<and> 0 < w \<or>
     (\<exists>k. layout = replicate (Suc k) Dedent \<and> length s = length s' + Suc k))"
proof -
  obtain t r where s: "s = t # r" using assms(1) by (cases s) (auto simp: stack_ok_def)
  consider "w > t" | "w = t" | "w < t" by linarith
  then show ?thesis
  proof cases
    case 1
    have "\<forall>x \<in> set r. x < w" using assms(1) 1 by (auto simp: s stack_ok_def)
    then show ?thesis using assms s 1 by (auto simp: indent_step_def stack_ok_def)
  next
    case 2
    then show ?thesis using assms s by (simp add: indent_step_def)
  next
    case 3
    define d where "d = dropWhile (\<lambda>i. i > w) s"
    define c where "c = takeWhile (\<lambda>i. i > w) s"
    have cd: "s = c @ d" "c \<noteq> []" using 3 s by (auto simp: c_def d_def)
    have "0 \<in> set s" using assms(1) last_in_set by (fastforce simp: stack_ok_def)
    then have d: "d \<noteq> []" unfolding d_def using dropWhile_eq_Nil_conv [of "\<lambda>i. i > w" s] by auto
    have "stack_ok d" using assms(1) d by (simp add: stack_ok_def cd(1) sorted_wrt_append)
    moreover have "s' = d \<and> layout = replicate (length c) Dedent"
      using assms(2) 3 s by (auto simp: indent_step_def Let_def c_def d_def split: if_splits)
    moreover obtain k where "length c = Suc k" using cd(2) by (cases c) auto
    ultimately show ?thesis using cd(1) by auto
  qed
qed

subsection \<open>Layout\<close>

definition level :: "lexer \<Rightarrow> nat" where
  "level l = length (l_indents l) - 1 + length (l_pending l)"

definition pending_ok :: "lexer \<Rightarrow> bool" where
  "pending_ok l \<longleftrightarrow>
     list_all (\<lambda>t. t = Tok Dedent (span_of (l_file l) (l_chars l) (l_pos l)) None) (l_pending l)"

definition nested :: "lexer \<Rightarrow> bool" where
  "nested l \<longleftrightarrow> stack_ok (l_indents l) \<and> pending_ok l"

text \<open>The books of a token: the level it changes, and the tokens still to come.\<close>

definition accounts :: "lexer \<Rightarrow> token \<Rightarrow> lexer \<Rightarrow> bool" where
  "accounts l k l' \<longleftrightarrow>
     nested l' \<and>
     level l' + (if k = Dedent then 1 else 0) = level l + (if k = Indent then 1 else 0) \<and>
     (if k = Eof then level l = 0 else token_bound l' < token_bound l)"

text \<open>Coming to rest: at a real token or at a newline that does not count.\<close>

definition settles :: "lexer \<Rightarrow> lexer \<Rightarrow> bool" where
  "settles l l' \<longleftrightarrow>
     synced l' \<and> same_source l l' \<and> l_indents l' = l_indents l \<and> l_pending l' = [] \<and>
     (l_at_line_start l' \<longrightarrow> l_at_line_start l)"

definition round_ok :: "lexer \<Rightarrow> round \<Rightarrow> bool" where
  "round_ok l r =
     (case r of
        Emit l' t \<Rightarrow>
          synced l' \<and> same_source l l' \<and> is_layout (tok_kind t) \<and> between l (l_pos l) (l_pos l') (tok_span t) \<and>
          (stack_ok (l_indents l) \<longrightarrow> accounts l (tok_kind t) l')
      | Fail l' e \<Rightarrow> leaves l l' \<and> error_placed (l_file l) (l_chars l) e
      | Again l' \<Rightarrow> settles l l'
      | Real l' \<Rightarrow> settles l l' \<and> \<not> is_at_end l' \<and> peek l' \<noteq> c_nl)"

lemma settles_trans: "settles l1 l2 \<Longrightarrow> settles l2 l3 \<Longrightarrow> settles l1 l3"
  by (auto simp: settles_def same_source_def)

lemma steps_settles: "steps l l' \<Longrightarrow> synced l \<Longrightarrow> l_pending l = [] \<Longrightarrow> settles l l'"
  by (auto simp: settles_def steps_def same_layout_def)

lemma settles_bound: "settles l l' \<Longrightarrow> l_pending l = [] \<Longrightarrow> level l' = level l \<and>
    token_bound l' + 4 * (l_pos l' - l_pos l) \<le> token_bound l + (if l_at_line_start l then 1 else 0)"
  by (auto simp: settles_def same_source_def level_def token_bound_def remaining_def dest!: synced_pos)

lemma settles_round:
  assumes "settles l l1" "l_pending l = []" "(l_at_line_start l1 \<longleftrightarrow> l_at_line_start l) \<or> l_pos l < l_pos l1" "round_ok l1 r"
  shows "round_ok l r"
proof -
  have src: "l_chars l1 = l_chars l" "l_file l1 = l_file l" "l_pos l \<le> l_pos l1" "l_indents l1 = l_indents l"
    using assms(1) by (auto simp: settles_def same_source_def)
  have lv: "leaves l1 l' = leaves l l'" for l' by (simp add: leaves_def src)
  have ss: "same_source l1 l' \<Longrightarrow> same_source l l'" for l' using assms(1) by (auto simp: settles_def same_source_def)
  have b: "token_bound l1 \<le> token_bound l" "level l1 = level l"
    using settles_bound [OF assms(1,2)] assms(1,2,3) by (auto simp: settles_def token_bound_def remaining_def same_source_def)
  show ?thesis
  proof (cases r)
    case (Emit l' t)
    then have "between l (l_pos l) (l_pos l') (tok_span t)"
      using assms(4) src placed_mono [of _ _ "l_pos l1" "l_pos l'"] by (simp add: round_ok_def)
    then show ?thesis using assms(4) ss b Emit src by (auto simp: round_ok_def accounts_def split: if_splits)
  qed (use assms(1,4) src lv settles_trans in \<open>auto simp: round_ok_def\<close>)
qed

lemma at_input_end_ok:
  assumes "synced l" "l_pending l = []"
  shows "round_ok l (at_input_end l)"
proof -
  have sp: "between l (l_pos l) (l_pos l) (span_at l (l_pos l))" using placed_at [OF assms(1) line_start_le [OF assms(1)]] by simp
  have syn: "synced (l\<lparr>l_at_line_start := b\<rparr>)" "synced (l\<lparr>l_indents := s\<rparr>)" for b s using assms(1) by (simp_all add: synced_def)
  consider "\<not> l_at_line_start l" | "l_at_line_start l" "0 < hd (l_indents l)" | "l_at_line_start l" "hd (l_indents l) = 0" by auto
  then show ?thesis
  proof cases
    case 1
    then show ?thesis using sp syn assms
      by (auto simp: at_input_end_def Let_def round_ok_def same_source_def accounts_def nested_def pending_ok_def level_def token_bound_def remaining_def)
  next
    case 2
    have "2 \<le> length (l_indents l)" if "stack_ok (l_indents l)"
      using stack_ok_tl [OF that 2(2)] that by (cases "l_indents l" rule: list.exhaust; cases "List.tl (l_indents l)") (auto simp: stack_ok_def)
    then show ?thesis using 2 sp syn assms stack_ok_tl [OF _ 2(2)]
      by (auto simp: at_input_end_def Let_def round_ok_def same_source_def accounts_def nested_def pending_ok_def level_def token_bound_def remaining_def)
  next
    case 3
    then show ?thesis using sp assms stack_ok_bottom [of "l_indents l"]
      by (auto simp: at_input_end_def Let_def round_ok_def same_source_def accounts_def nested_def pending_ok_def level_def)
  qed
qed

lemma pipe_continues_fields: "pipe_continues_next_line l = (l', b) \<Longrightarrow> \<exists>c. l' = l\<lparr>l_pipe_cont := c\<rparr>"
proof -
  have "\<exists>c. l = l\<lparr>l_pipe_cont := c\<rparr>" by (rule exI [of _ "l_pipe_cont l"]) simp
  then show "pipe_continues_next_line l = (l', b) \<Longrightarrow> ?thesis"
    by (auto simp: pipe_continues_next_line_def Let_def split: if_splits option.splits)
qed

lemma at_newline_ok:
  assumes "synced l" "l_pending l = []" "peek l = c_nl"
  shows "round_ok l (at_newline l)"
proof -
  have sp: "between l (l_pos l) (l_pos l + 1) (span_at l (l_pos l))"
    using placed_mono [OF placed_at [OF assms(1) line_start_le [OF assms(1)]]] by simp
  have s: "settles l (take_newline l)" using steps_settles [OF newline_steps [OF assms(3)] assms(1,2)] .
  obtain l2 b where p: "pipe_continues_next_line (take_newline l) = (l2, b)" by force
  then obtain c where l2: "l2 = (take_newline l)\<lparr>l_pipe_cont := c\<rparr>" using pipe_continues_fields by blast
  have 2: "settles l l2" using s by (auto simp: l2 settles_def synced_def same_source_def)
  have als: "l_at_line_start l2 = l_at_line_start l" by (simp add: l2 take_newline_def newline_here_def advance_def move_def)
  have "l_pos l < length (l_chars l)" using peek_nonzero [OF assms(3)] by simp
  then have "round_ok l (Emit (l2\<lparr>l_at_line_start := True\<rparr>) (Tok Newline (span_at l (l_pos l)) None))"
    using 2 sp assms als by (auto simp: l2 round_ok_def settles_def synced_def same_source_def accounts_def nested_def pending_ok_def
        level_def token_bound_def remaining_def)
  then show ?thesis using s 2 p by (auto simp: at_newline_def Let_def round_ok_def split: bool.splits)
qed

lemma goes_refl: "synced l \<Longrightarrow> goes l l"
  by (simp add: goes_def same_source_def same_layout_def)

lemma note_hash_goes: "synced l \<Longrightarrow> goes l (note_hash l)"
  using opener_placed [of l 0] line_start_le [of l]
  by (auto simp: note_hash_def goes_def same_source_def same_layout_def synced_def)

lemma skip_inline_goes: "synced l \<Longrightarrow> goes l (skip_inline l) \<and> (skip_inline l = l \<or> l_pos l < l_pos (skip_inline l))"
proof (induction l rule: skip_inline.induct)
  case (1 l)
  consider (ws) "peek l = c_space \<or> peek l = c_tab \<or> peek l = c_cr"
    | (hash) "\<not> (peek l = c_space \<or> peek l = c_tab \<or> peek l = c_cr)" "peek l = c_hash"
    | (other) "\<not> (peek l = c_space \<or> peek l = c_tab \<or> peek l = c_cr)" "peek l \<noteq> c_hash" by blast
  then show ?case
  proof cases
    case ws
    then have g: "goes l (advance l)" using advance_peek [of l "peek l"] "1.prems" by (auto intro!: steps_goes on_line_steps)
    have "goes (advance l) (skip_inline (advance l))" using "1.IH"(1) [OF ws] g by (simp add: goes_def)
    moreover have "l_pos l < l_pos (skip_inline (advance l))"
      using skip_inline_mono [of "advance l"] by (simp add: advance_def move_def)
    ultimately show ?thesis using ws goes_trans [OF g] by (simp add: skip_inline.simps [of l])
  next
    case hash
    define l1 where "l1 = advance_while (\<lambda>c. c \<noteq> c_nl) (note_hash l)"
    have n: "synced (note_hash l)" using note_hash_goes [OF "1.prems"] by (simp add: goes_def)
    have g: "goes l l1" unfolding l1_def
      using goes_trans [OF note_hash_goes [OF "1.prems"] steps_goes [OF on_line_steps [OF advance_while_on_line [OF n]] n]] by simp
    have "goes l1 (skip_inline l1)" using "1.IH"(2) [OF hash] g by (simp add: goes_def l1_def)
    moreover have "l_pos l1 = l_pos l + length (takeWhile (\<lambda>c. c \<noteq> c_nl) (rest l))" by (simp add: l1_def)
    then have "l_pos l < l_pos (skip_inline l1)"
      using skip_inline_mono [of l1] takeWhile_rest_pos [OF hash(2), of "\<lambda>c. c \<noteq> c_nl"] by linarith
    moreover have "skip_inline l = skip_inline l1" using hash by (simp add: skip_inline.simps [of l] l1_def)
    ultimately show ?thesis using goes_trans [OF g] by simp
  qed (use "1.prems" goes_refl in \<open>simp add: skip_inline.simps [of l]\<close>)
qed

lemma goes_settles: "goes l l' \<Longrightarrow> l_pending l = [] \<Longrightarrow> settles l l'"
  by (simp add: goes_def settles_def same_layout_def)

lemma after_indent_ok:
  assumes "settles l0 l" "l_pending l0 = []" "(l_at_line_start l \<longleftrightarrow> l_at_line_start l0) \<or> l_pos l0 < l_pos l \<or> \<not> is_at_end l \<and> peek l \<noteq> c_nl"
  shows "round_ok l0 (after_indent l)"
proof -
  define l2 where "l2 = skip_inline l"
  have l: "synced l" "l_pending l = []" using assms(1) by (auto simp: settles_def)
  have g: "goes l l2" "l2 = l \<or> l_pos l < l_pos l2" using skip_inline_goes [OF l(1)] by (auto simp: l2_def)
  have s2: "settles l0 l2" using settles_trans [OF assms(1) goes_settles [OF g(1) l(2)]] .
  then have l2: "synced l2" "l_pending l2 = []" by (auto simp: settles_def)
  have "round_ok l0 (at_input_end l2)" if "is_at_end l2"
    by (rule settles_round [OF s2 assms(2) _ at_input_end_ok [OF l2]])
       (use assms(1,3) g that in \<open>auto simp: goes_def same_layout_def settles_def same_source_def\<close>)
  moreover have "round_ok l0 (at_newline l2)" if "peek l2 = c_nl"
    by (rule settles_round [OF s2 assms(2) _ at_newline_ok [OF l2 that]])
       (use assms(1,3) g that in \<open>auto simp: goes_def same_layout_def settles_def same_source_def\<close>)
  ultimately show ?thesis using s2 unfolding after_indent_def l2_def [symmetric] Let_def
    by (auto simp: round_ok_def [of _ "Real _"])
qed

text \<open>The start of a line.\<close>

lemma skip_blank_steps:
  assumes "synced l"
  shows "steps l (skip_blank l)"
proof -
  have "steps l (move (length (takeWhile (\<lambda>c. c = c_space \<or> c = c_tab) (rest l))) l)"
    using advance_while_on_line [OF assms, of "\<lambda>c. c = c_space \<or> c = c_tab"] by (simp add: advance_while_def on_line_def)
  then show ?thesis by (simp add: skip_blank_def Let_def)
qed

lemma indent_line_steps:
  assumes "synced l"
  shows "steps l ((line_lexer (indent_line l))\<lparr>l_doc_comments := d\<rparr>)"
proof -
  define l1 where "l1 = advance_while (\<lambda>c. c = c_space) (skip_blank l)"
  have b: "steps l (skip_blank l)" by (rule skip_blank_steps [OF assms])
  have 1: "steps l l1" unfolding l1_def
    using steps_trans [OF b on_line_steps [OF advance_while_on_line [OF steps_synced [OF b assms]]]] by simp
  have s1: "synced l1" using steps_synced [OF 1 assms] .
  have any: "steps l (l'\<lparr>l_doc_comments := d\<rparr>) = steps l l'" for l' d
    by (simp add: steps_def same_source_def same_layout_def synced_def)
  have "steps l (advance_while (\<lambda>c. c \<noteq> c_nl) l1)"
    using steps_trans [OF 1 on_line_steps [OF advance_while_on_line [OF s1]]] by simp
  moreover have "steps l (take_newline l1)" if "peek l1 = c_nl" using steps_trans [OF 1 newline_steps [OF that]] .
  ultimately show ?thesis using 1 unfolding any
    by (auto simp: indent_line_def l1_def [symmetric] Let_def doc_line_def any)
qed

lemma indent_line_settles: "synced l \<Longrightarrow> steps l (line_lexer (indent_line l))"
  using indent_line_steps [of l "l_doc_comments (line_lexer (indent_line l))"] by simp

lemma content_line: "indent_line l = Content l' w \<Longrightarrow> \<not> is_at_end l' \<and> peek l' \<noteq> c_nl \<and> l_pos l + w \<le> l_pos l'"
  using skip_blank_mono [of l] by (auto simp: indent_line_def Let_def split: if_splits)

definition indented :: "lexer \<Rightarrow> tok list option scan \<Rightarrow> bool" where
  "indented l res =
     (case res of
        (l', Inl e) \<Rightarrow> leaves l l' \<and> error_placed (l_file l) (l_chars l) e
      | (l', Inr None) \<Rightarrow> steps l l'
      | (l', Inr (Some layout)) \<Rightarrow>
          synced l' \<and> same_source l l' \<and> l_pending l' = l_pending l \<and> l_at_line_start l' = l_at_line_start l \<and>
          \<not> is_at_end l' \<and> peek l' \<noteq> c_nl \<and>
          (\<exists>ks. layout = map (\<lambda>k. Tok k (span_of (l_file l) (l_chars l) (l_pos l')) None) ks \<and>
             list_all is_layout ks \<and> (ks = [] \<longrightarrow> l_indents l' = l_indents l) \<and>
             (stack_ok (l_indents l) \<longrightarrow> stack_ok (l_indents l') \<and>
               (ks = [] \<or>
                ks = [Indent] \<and> length (l_indents l') = Suc (length (l_indents l)) \<and> l_pos l < l_pos l' \<or>
                (\<exists>k. ks = replicate (Suc k) Dedent \<and> length (l_indents l) = length (l_indents l') + Suc k)))))"

lemma indent_step_layout: "indent_step s w = (s', Inr ks) \<Longrightarrow> list_all is_layout ks \<and> (ks = [] \<longrightarrow> s' = s)"
  by (cases s) (auto simp: indent_step_def Let_def list_all_iff split: if_splits)

lemma scan_indentation_indented: "synced l \<Longrightarrow> indented l (scan_indentation l)"
proof (induction l rule: scan_indentation.induct)
  case (1 l)
  have st: "steps l (line_lexer (indent_line l))" by (rule indent_line_settles [OF "1.prems"])
  show ?case
  proof (cases "indent_line l")
    case (Passed l1)
    then have s1: "steps l l1" using st by simp
    have "indented l1 (scan_indentation l1)" using "1.IH" [OF Passed] steps_synced [OF s1 "1.prems"] .
    moreover have "scan_indentation l = scan_indentation l1" by (simp add: scan_indentation.simps [of l] Passed)
    moreover have "l_chars l1 = l_chars l" "l_file l1 = l_file l" "l_pos l \<le> l_pos l1" "l_indents l1 = l_indents l"
      "l_pending l1 = l_pending l" "l_at_line_start l1 = l_at_line_start l" "l_hole_nest l1 = l_hole_nest l"
      using s1 by (auto simp: steps_def same_source_def same_layout_def)
    ultimately show ?thesis using steps_trans [OF s1]
      by (auto simp: indented_def leaves_def same_source_def split: prod.splits sum.splits option.splits)
  next
    case (Content l1 w)
    then have s1: "steps l l1" using st by simp
    have l1: "synced l1" "l_chars l1 = l_chars l" "l_file l1 = l_file l" "l_pos l \<le> l_pos l1" "l_indents l1 = l_indents l"
      "l_pending l1 = l_pending l" "l_at_line_start l1 = l_at_line_start l" "l_hole_nest l1 = l_hole_nest l"
      using s1 steps_synced [OF s1 "1.prems"] by (auto simp: steps_def same_source_def same_layout_def)
    obtain s' r where r: "indent_step (l_indents l1) w = (s', r)" by force
    define l2 where "l2 = l1\<lparr>l_indents := s'\<rparr>"
    have l2: "synced l2" "same_source l l2" "\<not> is_at_end l2" "peek l2 \<noteq> c_nl" "l_indents l2 = s'" "l_pos l2 = l_pos l1"
      "l_pending l2 = l_pending l" "l_at_line_start l2 = l_at_line_start l" "l_chars l2 = l_chars l" "l_file l2 = l_file l"
      using l1 content_line [OF Content]
      by (auto simp: l2_def synced_def same_source_def is_at_end_def peek_def char_at_def)
    show ?thesis
    proof (cases r)
      case (Inl m)
      then show ?thesis using error_here_placed [OF l2(1)] l2 synced_leaves [OF l2(1)] r
        by (simp add: scan_indentation.simps [of l] Content indented_def Let_def l2_def [symmetric])
    next
      case (Inr ks)
      have sp: "span_at l1 (l_pos l1) = span_of (l_file l) (l_chars l) (l_pos l1)" using span_here [OF l1(1)] l1 by simp
      have eq: "scan_indentation l = (l2, Ok (Some (map (\<lambda>k. Tok k (span_of (l_file l) (l_chars l) (l_pos l2)) None) ks)))"
        by (simp add: scan_indentation.simps [of l] Content r Inr l2_def [symmetric] sp l2(6))
      have "stack_ok (l_indents l2) \<and> (ks = [] \<or> ks = [Indent] \<and> length (l_indents l2) = Suc (length (l_indents l)) \<and> l_pos l < l_pos l2
          \<or> (\<exists>k. ks = replicate (Suc k) Dedent \<and> length (l_indents l) = length (l_indents l2) + Suc k))"
        if "stack_ok (l_indents l)"
        using indent_step_cases [of "l_indents l1" w s' ks] that r Inr l1(5) content_line [OF Content] l2(5,6) by auto
      moreover have "list_all is_layout ks" "ks = [] \<Longrightarrow> l_indents l2 = l_indents l"
        using indent_step_layout [of "l_indents l1" w s' ks] r Inr l1(5) l2(5) by auto
      ultimately show ?thesis unfolding eq indented_def using l2(1-4,7,8) by simp blast
    qed
  next
    case (Tab_Error l1)
    then have s1: "steps l l1" using st by simp
    then show ?thesis using error_here_after [OF s1 "1.prems"] stops_leaves [OF steps_stops [OF s1] "1.prems"]
      by (simp add: scan_indentation.simps [of l] Tab_Error indented_def)
  qed (use st in \<open>simp add: scan_indentation.simps [of l] indented_def\<close>)
qed

lemma layout_round_ok:
  assumes "synced l" "l_pending l = []"
  shows "round_ok l (layout_round l)"
proof (cases "l_at_line_start l \<and> l_bracket_depth l = 0")
  case False
  then show ?thesis using after_indent_ok [of l l] assms
    by (auto simp: layout_round_def settles_def same_source_def)
next
  case True
  obtain l1 r where r: "scan_indentation l = (l1, r)" by force
  have ind: "indented l (l1, r)" using scan_indentation_indented [OF assms(1)] r by simp
  show ?thesis
  proof (cases r)
    case (Inl e)
    then show ?thesis using ind True r by (simp add: layout_round_def indented_def round_ok_def)
  next
    case (Inr lo)
    show ?thesis
    proof (cases lo)
      case None
      then have s: "steps l l1" using ind Inr by (simp add: indented_def)
      then show ?thesis using after_indent_ok [OF steps_settles [OF s assms] assms(2)] True r Inr None
        by (simp add: layout_round_def steps_def same_layout_def)
    next
      case (Some layout)
      obtain ks where ks: "layout = map (\<lambda>k. Tok k (span_of (l_file l) (l_chars l) (l_pos l1)) None) ks" "list_all is_layout ks"
          "ks = [] \<longrightarrow> l_indents l1 = l_indents l"
          "stack_ok (l_indents l) \<longrightarrow> stack_ok (l_indents l1) \<and>
               (ks = [] \<or> ks = [Indent] \<and> length (l_indents l1) = Suc (length (l_indents l)) \<and> l_pos l < l_pos l1 \<or>
                (\<exists>k. ks = replicate (Suc k) Dedent \<and> length (l_indents l) = length (l_indents l1) + Suc k))"
        and l1: "synced l1" "same_source l l1" "l_pending l1 = []" "l_at_line_start l1" "\<not> is_at_end l1" "peek l1 \<noteq> c_nl"
        using ind Inr Some True assms(2) unfolding indented_def by auto
      show ?thesis
      proof (cases ks)
        case Nil
        define l2 where "l2 = l1\<lparr>l_at_line_start := False, l_pending := []\<rparr>"
        have "settles l l2" "\<not> is_at_end l2 \<and> peek l2 \<noteq> c_nl"
          using l1 ks(3) Nil by (auto simp: l2_def settles_def synced_def same_source_def is_at_end_def peek_def char_at_def)
        then have "round_ok l (after_indent l2)" using after_indent_ok assms(2) by blast
        then show ?thesis using True r Inr Some ks(1) l1(3) Nil by (simp add: layout_round_def l2_def)
      next
        case (Cons k ks')
        define sp where "sp = span_of (l_file l) (l_chars l) (l_pos l1)"
        define l2 where "l2 = l1\<lparr>l_at_line_start := False, l_pending := map (\<lambda>k. Tok k sp None) ks'\<rparr>"
        have eq: "layout_round l = Emit l2 (Tok k sp None)"
          using True r Inr Some ks(1) l1(3) Cons by (simp add: layout_round_def l2_def sp_def)
        have l2: "synced l2" "same_source l l2" "l_pos l2 = l_pos l1" "l_indents l2 = l_indents l1" "l_pos l1 \<le> length (l_chars l)"
          using l1 by (auto simp: l2_def synced_def same_source_def)
        have "accounts l k l2" if st: "stack_ok (l_indents l)"
        proof -
          have ne: "l_indents l \<noteq> []" "l_indents l1 \<noteq> []" "stack_ok (l_indents l1)" using ks(4) st by (auto simp: stack_ok_def)
          have ne': "1 \<le> length (l_indents l)" "1 \<le> length (l_indents l1)" using ne by (auto simp: Suc_le_eq)
          have pend: "pending_ok l2" if "ks' = replicate n Dedent" for n
            using that l1(2) by (auto simp: pending_ok_def l2_def sp_def same_source_def list_all_iff)
          have fields: "l_chars l2 = l_chars l" "l_at_line_start l2 = False" "length (l_pending l2) = length ks'"
            using l1(2) by (auto simp: l2_def same_source_def)
          from ks(4) st Cons consider (ind) "k = Indent" "ks' = []" "length (l_indents l1) = Suc (length (l_indents l))" "l_pos l < l_pos l1"
            | (ded) n where "k = Dedent" "ks' = replicate n Dedent" "length (l_indents l) = length (l_indents l1) + Suc n" by auto
          then show ?thesis
          proof cases
            case ind
            then show ?thesis using pend [of 0] ne ne' fields l2 assms(2) True
              by (auto simp: accounts_def nested_def level_def token_bound_def remaining_def)
          next
            case ded
            then show ?thesis using pend [of n] ne ne' fields l2 assms(2) True
              by (auto simp: accounts_def nested_def level_def token_bound_def remaining_def same_source_def)
          qed
        qed
        moreover have "between l (l_pos l) (l_pos l2) sp" unfolding sp_def l2(3) using l1(2) by (intro placedI) (auto simp: same_source_def)
        ultimately show ?thesis using l2 ks(2) Cons by (simp add: eq round_ok_def)
      qed
    qed
  qed
qed

lemma scan_layout_ok: "synced l \<Longrightarrow> l_pending l = [] \<Longrightarrow> round_ok l (scan_layout l) \<and> (\<forall>l'. scan_layout l \<noteq> Again l')"
proof (induction l rule: scan_layout.induct)
  case (1 l)
  note ok = layout_round_ok [OF "1.prems"]
  show ?case
  proof (cases "layout_round l")
    case (Again l1)
    then have s: "settles l l1" using ok by (simp add: round_ok_def)
    then have "round_ok l1 (scan_layout l1) \<and> (\<forall>l'. scan_layout l1 \<noteq> Again l')" using "1.IH" [OF Again] by (simp add: settles_def)
    moreover have "l_pos l < l_pos l1" using layout_round_again [OF Again] by simp
    ultimately show ?thesis using settles_round [OF s "1.prems"(2)] Again by (simp add: scan_layout.simps [of l])
  qed (use ok in \<open>simp_all add: scan_layout.simps [of l]\<close>)
qed

subsection \<open>One token\<close>

text \<open>A token kind that is neither layout nor a literal with holes.\<close>

definition flat :: "token \<Rightarrow> bool" where
  "flat k \<longleftrightarrow> \<not> is_layout k \<and> (\<forall>P. kind_ok P k)"

lemma flat_simps [simp]:
  "flat (T_Op p)" "flat (T_Delim d)" "flat (T_Kw kw)" "flat (T_Ident w)" "flat (T_Int i)" "flat (T_Float x)"
  "flat T_IntMinMagnitude" "flat (T_Bytes bs)" "flat (T_RawStr cs)"
  by (simp_all add: flat_def)

lemma munch_goes:
  "synced l \<Longrightarrow> list_all (\<lambda>(c, t). 0 < c \<and> c \<noteq> c_nl \<and> flat t) alts \<Longrightarrow> flat short \<Longrightarrow>
   munch l alts short = (l', t) \<Longrightarrow> goes l l' \<and> flat t"
proof (induction alts)
  case (Cons ct alts)
  obtain c k where ct: "ct = (c, k)" by force
  then show ?case using Cons advance_peek [of l c] by (auto split: if_splits intro: steps_goes on_line_steps)
qed (auto simp: goes_refl)

lemma bracket_goes: "synced l \<Longrightarrow> goes l (l\<lparr>l_bracket_depth := n\<rparr>)"
  by (simp add: goes_def same_source_def same_layout_def synced_def)

lemma advance_goes: "synced l \<Longrightarrow> peek l = c \<Longrightarrow> 0 < c \<Longrightarrow> c \<noteq> c_nl \<Longrightarrow> goes l (advance l)"
  using advance_peek [of l c] by (auto intro: steps_goes on_line_steps)

lemma munch_after:
  "goes l l1 \<Longrightarrow> list_all (\<lambda>(c, t). 0 < c \<and> c \<noteq> c_nl \<and> flat t) alts \<Longrightarrow> flat short \<Longrightarrow>
   munch l1 alts short = (l', t) \<Longrightarrow> goes l l' \<and> flat t"
  using munch_goes [of l1 alts short l' t] goes_trans [of l l1 l'] by (auto simp: goes_def)

lemma shift_op_goes: "synced l \<Longrightarrow> 0 < c \<Longrightarrow> c \<noteq> c_nl \<Longrightarrow> shift_op l c a b d e = (l', t) \<Longrightarrow> goes l l' \<and> flat t"
  using advance_goes [of l c_eq] advance_goes [of l c] munch_after [of l "advance l" "[(c_eq, T_Op d)]" "T_Op b" l' t]
  by (auto simp: shift_op_def goes_refl split: if_splits)

lemma dots_goes: "synced l \<Longrightarrow> dots l = (l', t) \<Longrightarrow> goes l l' \<and> flat t"
  using advance_goes [of l c_dot] munch_after [of l "advance l" "[(c_dot, T_Delim D_DotDotDot), (c_eq, T_Delim D_DotDotEq)]" "T_Delim D_DotDot" l' t]
  by (auto simp: dots_def goes_refl split: if_splits)

lemma colon_goes: "synced l \<Longrightarrow> colon l = (l', t) \<Longrightarrow> goes l l' \<and> flat t"
  using munch_goes [of l "[(c_eq, T_Op P_Walrus)]" "T_Delim D_Colon" l' t] by (auto simp: colon_def goes_refl split: if_splits)

lemma scan_punct_goes: "synced l \<Longrightarrow> scan_punct c l = Some (l', t) \<Longrightarrow> goes l l' \<and> flat t"
  using advance_goes [of l "peek l"] goes_refl [of l] bracket_goes [of l] colon_goes [of l l' t] dots_goes [of l l' t]
    shift_op_goes [of l c_lt P_LtEq P_Shl P_ShlEq P_Lt l' t] shift_op_goes [of l c_gt P_GtEq P_Shr P_ShrEq P_Gt l' t]
  by (auto simp: scan_punct_def open_bracket_def close_bracket_def split: if_splits)

lemma question_reports:
  assumes "synced l" "l_line_start l \<le> start" "l_pos l = start + 1"
  shows "reports l (question u start l)" "question u start l = (l', Ok k) \<Longrightarrow> flat k"
proof -
  have two: "on_line l (advance l)" if "length (takeWhile (\<lambda>c. c = c_question) (drop start (l_chars l))) = 2"
  proof -
    have "l_chars l ! (start + 1) = c_question" using takeWhile_nth_drop [of start "start + 1" "\<lambda>c. c = c_question" "l_chars l"] that by simp
    moreover have "start + 1 < length (l_chars l)" using that length_takeWhile_le [of "\<lambda>c. c = c_question" "drop start (l_chars l)"] by simp
    ultimately have "peek l = c_question" using assms(3) by (simp add: peek_def char_at_def)
    then show ?thesis by (rule advance_peek) auto
  qed
  have "error_placed (l_file l) (l_chars l) (error_at l start m)" for m using error_at_placed [OF assms(1,2)] assms(3) by simp
  then show "reports l (question u start l)" using two advance_peek [of l c_dot]
    by (auto simp: question_def Let_def intro!: reports_OkI reports_ErrI on_line_steps steps_stops)
  show "question u start l = (l', Ok k) \<Longrightarrow> flat k" by (auto simp: question_def Let_def split: if_splits)
qed

lemma lex_identifier_goes:
  "synced l \<Longrightarrow> lex_identifier u start l = (l', t) \<Longrightarrow> goes l l' \<and> flat t"
  using steps_goes [OF on_line_steps [OF advance_while_on_line [of l "is_word u"]]]
  by (auto simp: lex_identifier_def Let_def keyword_def is_word_def is_alphanumeric_def ascii_alnum_def split: option.splits)

lemma number_flat: "number u start l = (l', Ok k) \<Longrightarrow> flat k"
  by (auto simp: number_def radix_number_def finish_number_def Let_def split: prod.splits option.splits if_splits sum.splits)

lemma byte_loop_flat: "byte_loop quote triple open_sp bytes l = (l', Ok k) \<Longrightarrow> flat k"
proof (induction quote triple open_sp bytes l rule: byte_loop.induct)
  case (1 quote triple open_sp bytes l)
  then show ?case by (auto simp: byte_loop.simps [of quote triple open_sp bytes l] split: if_splits prod.splits sum.splits)
qed

lemma raw_string_flat: "raw_string quote triple l = (l', Ok k) \<Longrightarrow> flat k"
  by (auto simp: raw_string_def Let_def split: prod.splits option.splits)

lemma open_literal_line:
  assumes "is_quote quote" "open_literal quote l = (l', triple)"
  shows "on_line l l' \<and> l_pos l' + 1 = l_pos l + close_width triple"
proof (cases "triple_here quote l")
  case True
  have q: "0 < quote" "quote \<noteq> c_nl" using assms(1) by (auto simp: is_quote_def)
  have "on_line l (advance l)" using advance_peek [of l quote] True q by (simp add: triple_here_def)
  moreover have "on_line (advance l) (move 2 l)" using advance_peek [of "advance l" quote] True q
    by (simp add: triple_here_def peek_advance advance2)
  ultimately have "on_line l (move 2 l)" by (rule on_line_trans)
  then show ?thesis using True assms(2) by (auto simp: open_literal_def close_width_def move_def)
qed (use assms in \<open>auto simp: open_literal_def close_width_def\<close>)

definition real_token :: "lexer \<Rightarrow> nat \<Rightarrow> lexer \<Rightarrow> token \<Rightarrow> bool" where
  "real_token l a l' k \<longleftrightarrow> goes l l' \<and> kind_ok (between l a (l_pos l')) k \<and> \<not> is_layout k"

lemma flat_real: "goes l l' \<Longrightarrow> flat k \<Longrightarrow> real_token l a l' k"
  by (simp add: real_token_def flat_def)

lemma reports_real: "reports l lr \<Longrightarrow> synced l \<Longrightarrow> (\<And>l' k. lr = (l', Ok k) \<Longrightarrow> flat k) \<Longrightarrow> yields l (real_token l a) (Some lr)"
  by (rule yields_reports) (auto intro: flat_real steps_goes)

lemma via_real: "yields l1 (real_token l1 a) res \<Longrightarrow> goes l l1 \<Longrightarrow> yields l (real_token l a) res"
  using goes_source [of l l1] goes_trans [of l l1] by (elim yields_via) (auto simp: real_token_def)

context token_source
begin

lemma scan_kind_yields:
  assumes l: "inside l" "fits (l_hole_nest l) (room + 1)" and st: "l_line_start l \<le> start" "l_pos l = start + 1"
  shows "yields l (real_token l start) (scan_kind u nt c start l)"
proof (cases "scan_punct c l")
  case (Some lt)
  then show ?thesis using scan_punct_goes [of l c] l(1)
    by (cases lt) (auto simp: scan_kind_def yields_def inside_def intro: flat_real)
next
  case None
  have sy: "synced l" using l(1) by (simp add: inside_def)
  have ident: "yields l (real_token l start) (case lex_identifier u start l of (l', t) \<Rightarrow> Some (l', Ok t))"
    using lex_identifier_goes [OF sy] by (auto simp: yields_def intro: flat_real split: prod.splits)
  have fail: "yields l (real_token l start) (Some (l, Err (error_at l start m)))" for m
    using error_at_placed [OF sy st(1), of m] st(2) synced_leaves [OF sy] by (simp add: yields_def)
  have num: "yields l (real_token l start) (Some (number u start l))"
    using reports_real [OF number_reports [OF sy st(1)] sy] number_flat st(2) by auto
  have quest: "yields l (real_token l start) (Some (question u start l))"
    using reports_real [OF question_reports(1) [OF sy st] sy] question_reports(2) [OF sy st] by blast
  have str: "yields l (real_token l start) (case open_literal c l of (l', triple) \<Rightarrow> quoted nt c triple l')" if c: "is_quote c"
  proof -
    obtain l' triple where o: "open_literal c l = (l', triple)" by force
    have ol: "on_line l l'" "l_pos l' + 1 = l_pos l + close_width triple" using open_literal_line [OF c o] by auto
    have g: "goes l l'" using steps_goes [OF on_line_steps [OF ol(1)] sy] .
    have "yields l' (real_token l' start) (quoted nt c triple l')"
      unfolding real_token_def by (rule quoted_yields)
        (use goes_inside [OF l(1) g] goes_source [OF g] l(2) c ol st in \<open>auto simp: on_line_def\<close>)
    then show ?thesis using via_real [OF _ g] by (simp add: o)
  qed
  have pre: "yields l (real_token l start) (case open_literal (peek l) (advance l) of (l', triple) \<Rightarrow> Some (f (peek l) triple l'))"
    if c: "is_quote (peek l)" and f: "\<And>l' triple. synced l' \<Longrightarrow> l_line_start l' + (close_width triple + 1) \<le> l_pos l' \<Longrightarrow> reports l' (f (peek l) triple l')"
      "\<And>triple l' l'' k. f (peek l) triple l' = (l'', Ok k) \<Longrightarrow> flat k" for f :: "nat \<Rightarrow> bool \<Rightarrow> lexer \<Rightarrow> token scan"
  proof -
    have a: "on_line l (advance l)" using c advance_peek [of l] by (auto simp: is_quote_def)
    obtain l' triple where o: "open_literal (peek l) (advance l) = (l', triple)" by force
    have ol: "on_line l l'" "l_pos l' + 1 = l_pos l + 1 + close_width triple"
      using open_literal_line [OF c o] on_line_trans [OF a] by (auto simp: advance_def move_def)
    have g: "goes l l'" using steps_goes [OF on_line_steps [OF ol(1)] sy] .
    have sy': "synced l'" using g by (simp add: goes_def)
    have "reports l' (f (peek l) triple l')" using f(1) [OF sy'] ol st by (simp add: on_line_def)
    then have "yields l' (real_token l' start) (Some (f (peek l) triple l'))" using reports_real [OF _ sy'] f(2) by blast
    then show ?thesis using via_real [OF _ g] by (simp add: o)
  qed
  have "yields l (real_token l start) (case open_literal (peek l) (advance l) of (l', triple) \<Rightarrow> Some (byte_string (peek l) triple l'))"
    "yields l (real_token l start) (case open_literal (peek l) (advance l) of (l', triple) \<Rightarrow> Some (raw_string (peek l) triple l'))"
    if "is_quote (peek l)"
    using pre [OF that, of byte_string] pre [OF that, of raw_string] byte_string_reports [OF that] raw_string_reports [OF that]
      byte_loop_flat raw_string_flat by (auto simp: byte_string_def)
  then show ?thesis using None ident fail num quest str unfolding scan_kind_def by (simp split del: prod.splits)
qed

lemma scan_real_yields:
  assumes l: "synced l" "l_pending l = []" "fits (l_hole_nest l) (room + 1)" "\<not> is_at_end l" "peek l \<noteq> c_nl"
  shows "yields l (\<lambda>l' t. goes (l\<lparr>l_at_line_start := False\<rparr>) l' \<and> l_pos l < l_pos l' \<and> \<not> is_layout (tok_kind t) \<and>
     tok_ok (between l (l_pos l) (l_pos l')) t) (scan_real u nt l)"
proof -
  define l1 where "l1 = l\<lparr>l_at_line_start := False\<rparr>"
  define l2 where "l2 = advance l1"
  have l1: "inside l1" "l_chars l1 = l_chars l" "l_file l1 = l_file l" "l_pos l1 = l_pos l" "peek l1 = peek l" "\<not> is_at_end l1"
      "l_hole_nest l1 = l_hole_nest l"
    using l by (auto simp: l1_def inside_def synced_def peek_def char_at_def is_at_end_def)
  have sy: "synced l1" using l1(1) by (simp add: inside_def)
  have a: "on_line l1 l2" unfolding l2_def by (rule advance_on_line) (use l1 l in auto)
  have g: "goes l1 l2" using steps_goes [OF on_line_steps [OF a] sy] .
  have "yields l2 (real_token l2 (l_pos l)) (scan_kind u nt (peek l1) (l_pos l) l2)"
    by (rule scan_kind_yields [OF goes_inside [OF l1(1) g]])
       (use a l1 l line_start_le [OF sy] goes_source [OF g] in \<open>auto simp: on_line_def l2_def advance_def move_def\<close>)
  then have k: "yields l (\<lambda>l' k. goes l1 l' \<and> l_pos l < l_pos l' \<and> kind_ok (between l (l_pos l) (l_pos l')) k \<and> \<not> is_layout k)
      (scan_kind u nt (peek l1) (l_pos l) l2)"
    by (rule yields_from [OF yields_mono])
       (use goes_source [OF g] goes_trans [OF g] l1 in \<open>auto simp: real_token_def l2_def advance_def move_def dest!: goes_source\<close>)
  have sp: "between l (l_pos l) p (span_at l1 (l_pos l1))" if "l_pos l \<le> p" for p
    using placed_mono [OF placed_at [OF sy line_start_le [OF sy]]] l1 that by simp
  show ?thesis unfolding scan_real_def l1_def [symmetric] Let_def l1(4) l2_def [symmetric]
    by (rule yields_map [OF k]) (use sp l1(4) in auto)
qed

text \<open>The token step of one level, on top of the level below.\<close>

lemma scan_token_yields:
  assumes l: "inside l" "fits (l_hole_nest l) (room + 1)"
  shows "yields l (\<lambda>l' t. if is_layout (tok_kind t) then leaves l l'
                     else goes l l' \<and> l_pos l < l_pos l' \<and> tok_ok (between l (l_pos l) (l_pos l')) t) (scan_token u nt l)"
proof -
  have sy: "synced l" "l_pending l = []" "\<not> l_at_line_start l" using l(1) by (auto simp: inside_def)
  note ok = scan_layout_ok [OF sy(1,2)]
  show ?thesis
  proof (cases "scan_layout l")
    case (Emit l' t)
    then show ?thesis using ok sy synced_leaves [of l' l] by (auto simp: scan_token_def yields_def round_ok_def same_source_def)
  next
    case (Fail l' e)
    then show ?thesis using ok sy by (simp add: scan_token_def yields_def round_ok_def)
  next
    case (Again l')
    then show ?thesis using ok by simp
  next
    case (Real l')
    then have s: "settles l l'" "\<not> is_at_end l'" "peek l' \<noteq> c_nl" using ok by (auto simp: round_ok_def)
    have g: "goes l l'" using s(1) sy by (auto simp: settles_def goes_def same_layout_def)
    have eq: "l'\<lparr>l_at_line_start := False\<rparr> = l'" using g sy by (simp add: goes_def same_layout_def)
    have "yields l' (\<lambda>l'' t. goes l' l'' \<and> l_pos l' < l_pos l'' \<and> \<not> is_layout (tok_kind t) \<and>
       tok_ok (between l' (l_pos l') (l_pos l'')) t) (scan_real u nt l')"
      using scan_real_yields [of l' u, unfolded eq] s g l(2) goes_source [OF g] goes_inside [OF l(1) g] by (simp add: inside_def)
    then show ?thesis unfolding scan_token_def sy(2) Real list.case round.case
    proof (rule yields_via [OF _ g])
      fix l'' t
      assume h: "goes l' l'' \<and> l_pos l' < l_pos l'' \<and> \<not> is_layout (tok_kind t) \<and> tok_ok (between l' (l_pos l') (l_pos l'')) t"
      have "between l' (l_pos l') (l_pos l'') sp \<Longrightarrow> between l (l_pos l) (l_pos l'') sp" for sp
        using placed_mono [of _ _ "l_pos l'" "l_pos l''" sp "l_pos l" "l_pos l''"] goes_source [OF g] by simp
      then show "if is_layout (tok_kind t) then leaves l l''
          else goes l l'' \<and> l_pos l < l_pos l'' \<and> tok_ok (between l (l_pos l) (l_pos l'')) t"
        using h goes_trans [OF g] goes_source [OF g] tok_ok_mono [of "between l' (l_pos l') (l_pos l'')"] by auto
    qed
  qed
qed

text \<open>The same step where layout counts.\<close>

lemma scan_token_top:
  assumes l: "synced l" "nested l" "fits (l_hole_nest l) (room + 1)"
  shows "yields l (\<lambda>l' t. synced l' \<and> same_source l l' \<and> tok_ok (between l (l_pos l) (l_pos l')) t \<and> accounts l (tok_kind t) l')
    (scan_token u nt l)"
proof (cases "l_pending l")
  case (Cons t ts)
  have t: "t = Tok Dedent (span_of (l_file l) (l_chars l) (l_pos l)) None"
    "list_all (\<lambda>t. t = Tok Dedent (span_of (l_file l) (l_chars l) (l_pos l)) None) ts"
    using l(2) by (auto simp: nested_def pending_ok_def Cons)
  have "accounts l Dedent (l\<lparr>l_pending := ts\<rparr>)"
    using l(2) t(2) Cons by (auto simp: accounts_def nested_def pending_ok_def level_def token_bound_def remaining_def)
  then show ?thesis using l(1) t Cons
    by (auto simp: scan_token_def yields_def same_source_def synced_def intro: placedI)
next
  case Nil
  note ok = scan_layout_ok [OF l(1) Nil]
  have st: "stack_ok (l_indents l)" using l(2) by (simp add: nested_def)
  show ?thesis
  proof (cases "scan_layout l")
    case (Emit l' t)
    have "kind_ok P k" if "is_layout k" for P k using that by (cases k) auto
    then show ?thesis using ok Emit Nil st by (cases t) (auto simp: scan_token_def yields_def round_ok_def)
  next
    case (Fail l' e)
    then show ?thesis using ok Nil by (simp add: scan_token_def yields_def round_ok_def)
  next
    case (Again l')
    then show ?thesis using ok by simp
  next
    case (Real l1)
    then have s: "settles l l1" "\<not> is_at_end l1" "peek l1 \<noteq> c_nl" using ok by (auto simp: round_ok_def)
    have l1: "synced l1" "l_pending l1 = []" "same_source l l1" "l_indents l1 = l_indents l" "l_hole_nest l1 = l_hole_nest l"
      "l_chars l1 = l_chars l" "l_file l1 = l_file l" "l_pos l \<le> l_pos l1"
      using s(1) by (auto simp: settles_def same_source_def)
    note r = scan_real_yields [OF l1(1,2) _ s(2,3), of u, unfolded l1(5), OF l(3)]
    from r show ?thesis unfolding scan_token_def Nil Real list.case round.case
    proof (rule yields_at [OF _ l1(6,7)])
      fix l2 t
      assume h: "goes (l1\<lparr>l_at_line_start := False\<rparr>) l2 \<and> l_pos l1 < l_pos l2 \<and> \<not> is_layout (tok_kind t) \<and>
        tok_ok (between l1 (l_pos l1) (l_pos l2)) t"
      then have l2: "synced l2" "same_source l l2" "l_indents l2 = l_indents l" "l_pending l2 = []" "l_pos l2 \<le> length (l_chars l)"
          "l_chars l2 = l_chars l" "\<not> l_at_line_start l2"
        using l1 by (auto simp: goes_def same_source_def same_layout_def dest: synced_pos)
      have "between l1 (l_pos l1) (l_pos l2) sp \<Longrightarrow> between l (l_pos l) (l_pos l2) sp" for sp
        using placed_mono [of _ _ "l_pos l1" "l_pos l2" sp "l_pos l" "l_pos l2"] l1 by simp
      then have ok2: "tok_ok (between l (l_pos l) (l_pos l2)) t" using h tok_ok_mono by blast
      have "tok_kind t \<notin> {Indent, Dedent, Eof}" using h by auto
      then have "accounts l (tok_kind t) l2" using h l2 l1 l(2) Nil
        by (auto simp: accounts_def nested_def pending_ok_def level_def token_bound_def remaining_def)
      then show "synced l2 \<and> same_source l l2 \<and> tok_ok (between l (l_pos l) (l_pos l2)) t \<and> accounts l (tok_kind t) l2"
        using l2 ok2 by simp
    qed
  qed
qed

end

lemma note_operand_goes:
  "goes l (l'\<lparr>l_after_operand := b\<rparr>) = goes l l'" "leaves l (l'\<lparr>l_after_operand := b\<rparr>) = leaves l l'"
  "synced (l'\<lparr>l_after_operand := b\<rparr>) = synced l'" "same_source l (l'\<lparr>l_after_operand := b\<rparr>) = same_source l l'"
  "accounts l k (l'\<lparr>l_after_operand := b\<rparr>) = accounts l k l'"
  by (simp_all add: goes_def leaves_def same_source_def same_layout_def synced_def accounts_def nested_def pending_ok_def
      level_def token_bound_def remaining_def)

text \<open>The level below the token step of level \<open>n\<close>.\<close>

fun step_below :: "unicode \<Rightarrow> nat \<Rightarrow> token_step" where
  "step_below u 0 = (\<lambda>_. None)"
| "step_below u (Suc n) = next_token u n"

lemma next_token_step: "next_token u n = (\<lambda>l. map_option note_operand (scan_token u (step_below u n) l))"
  by (cases n) (simp_all add: fun_eq_iff)

lemma step_source: "token_source nt room \<Longrightarrow> token_source (\<lambda>l. map_option note_operand (scan_token u nt l)) (Suc room)"
proof
  fix l assume src: "token_source nt room" and l: "inside l" "fits (l_hole_nest l) (Suc room)"
  from token_source.scan_token_yields [OF src l(1), of u] l(2)
  show "yields l (\<lambda>l' t. if is_layout (tok_kind t) then leaves l l'
                   else goes l l' \<and> l_pos l < l_pos l' \<and> tok_ok (between l (l_pos l) (l_pos l')) t)
         (map_option note_operand (scan_token u nt l))"
    by (auto simp: yields_def note_operand_def note_operand_goes split: option.splits sum.splits prod.splits)
qed

lemma step_below_source: "token_source (step_below u n) n"
proof (induction n)
  case 0
  show ?case by unfold_locales (auto simp: fits_def)
next
  case (Suc n)
  then show ?case using step_source [OF Suc, of u] by (simp add: next_token_step)
qed

interpretation below: token_source "step_below u n" n for u n
  by (rule step_below_source)

lemma next_token_top:
  assumes "synced l" "nested l" "fits (l_hole_nest l) (Suc n)"
  shows "yields l (\<lambda>l' t. synced l' \<and> same_source l l' \<and> tok_ok (between l (l_pos l) (l_pos l')) t \<and> accounts l (tok_kind t) l')
    (next_token u n l)"
  using token_source.scan_token_top [OF step_below_source [of u n] assms(1,2), of u] assms(3)
  by (auto simp: next_token_step yields_def note_operand_def note_operand_goes split: option.splits sum.splits prod.splits)

subsection \<open>The whole source\<close>

text \<open>The level of nesting after a list of tokens; \<open>None\<close> when a Dedent has no Indent.\<close>

fun levels :: "nat \<Rightarrow> tok list \<Rightarrow> nat option" where
  "levels n [] = Some n"
| "levels n (t # ts) =
     (if tok_kind t = Indent then levels (n + 1) ts
      else if tok_kind t = Dedent then (if n = 0 then None else levels (n - 1) ts)
      else levels n ts)"

lemma levels_append: "levels n (xs @ ys) = Option.bind (levels n xs) (\<lambda>m. levels m ys)"
  by (induction xs arbitrary: n) auto

text \<open>Tokens at successive places from \<open>a\<close> to \<open>b\<close>.\<close>

fun in_order :: "u32 \<Rightarrow> nat list \<Rightarrow> nat \<Rightarrow> nat \<Rightarrow> tok list \<Rightarrow> bool" where
  "in_order f cs a b [] \<longleftrightarrow> a \<le> b"
| "in_order f cs a b (t # ts) \<longleftrightarrow> (\<exists>p \<le> b. a \<le> p \<and> tok_ok (placed f cs a p) t \<and> in_order f cs p b ts)"

lemma in_order_snoc: "in_order f cs a b ts \<Longrightarrow> b \<le> c \<Longrightarrow> tok_ok (placed f cs b c) t \<Longrightarrow> in_order f cs a c (ts @ [t])"
proof (induction ts arbitrary: a)
  case Nil
  then have "tok_ok (placed f cs a c) t" using tok_ok_mono placed_mono by (metis in_order.simps(1) le_refl)
  then show ?case using Nil by auto
next
  case (Cons t' ts)
  then show ?case by (auto intro: order_trans)
qed

definition lexed :: "u32 \<Rightarrow> nat list \<Rightarrow> tok list \<Rightarrow> bool" where
  "lexed f cs ts \<longleftrightarrow>
     ts \<noteq> [] \<and> tok_kind (last ts) = Eof \<and> list_all (\<lambda>t. tok_kind t \<noteq> Eof) (butlast ts) \<and>
     levels 0 ts = Some 0 \<and> in_order f cs 0 (length cs) ts"

lemma token_loop_lexed:
  assumes "synced l" "nested l" "l_hole_nest l = 0" "token_bound l < k" "l_file l = f" "l_chars l = cs"
    "levels 0 toks = Some (level l)" "in_order f cs 0 (l_pos l) toks" "list_all (\<lambda>t. tok_kind t \<noteq> Eof) toks"
  shows "case token_loop u k toks l of
     None \<Rightarrow> False | Some (Inl e) \<Rightarrow> error_placed f cs e | Some (Inr (ts, ds)) \<Rightarrow> lexed f cs ts"
  using assms
proof (induction k arbitrary: l toks)
  case (Suc k)
  have "fits (l_hole_nest l) (Suc MAX_HOLE_NEST)" using Suc.prems(3) by (simp add: fits_def)
  from next_token_top [OF Suc.prems(1,2) this, of u]
  have nt: "yields l (\<lambda>l' t. synced l' \<and> same_source l l' \<and> tok_ok (between l (l_pos l) (l_pos l')) t \<and> accounts l (tok_kind t) l')
    (next_token u MAX_HOLE_NEST l)" .
  obtain l' r where r: "next_token u MAX_HOLE_NEST l = Some (l', r)"
    using nt by (cases "next_token u MAX_HOLE_NEST l") (auto simp: yields_def)
  show ?case
  proof (cases r)
    case (Inl e)
    then show ?thesis using nt r Suc.prems(5,6) by (simp add: yields_def)
  next
    case (Inr t)
    then have g: "synced l'" "same_source l l'" "tok_ok (between l (l_pos l) (l_pos l')) t" "accounts l (tok_kind t) l'"
      using nt r by (auto simp: yields_def)
    have src: "l_chars l' = cs" "l_file l' = f" "l_hole_nest l' = 0" "l_pos l \<le> l_pos l'" "l_pos l' \<le> length cs"
      using g(1,2) Suc.prems synced_pos [OF g(1)] by (auto simp: same_source_def)
    have ord: "in_order f cs 0 (l_pos l') (toks @ [t])" using in_order_snoc [OF Suc.prems(8) src(4)] g(3) Suc.prems(5,6) by simp
    have lev: "levels 0 (toks @ [t]) = Some (level l')" using Suc.prems(7) g(4) by (auto simp: levels_append accounts_def split: if_splits)
    show ?thesis
    proof (cases "tok_kind t = Eof")
      case True
      then have "in_order f cs 0 (length cs) (toks @ [t])" 
        using in_order_snoc [OF Suc.prems(8) _ ok_mono_all(1) [OF _ g(3)], of "length cs"] src placed_mono Suc.prems(5,6) by auto
      then show ?thesis using True r Inr Suc.prems(9) lev g(4) by (auto simp: lexed_def accounts_def)
    next
      case False
      have "case token_loop u k (toks @ [t]) l' of
         None \<Rightarrow> False | Some (Inl e) \<Rightarrow> error_placed f cs e | Some (Inr (ts, ds)) \<Rightarrow> lexed f cs ts"
        by (rule Suc.IH) (use g src ord lev False Suc.prems in \<open>auto simp: accounts_def\<close>)
      then show ?thesis using r Inr False by simp
    qed
  qed
qed simp


end
