(* ===== verification/LexerTools.thy ===== *)
theory LexerTools
  imports LexerCorrect "HOL-Library.Sublist"
begin

text \<open>
  What the rest of the program asks of the lexer, \<^verbatim>\<open>src/src/lexer/mod.rs\<close>: the layout tokens the parser
  inserts for a block inside brackets, the identifier words of a token list, and the extents and source
  echoes of diagnostics. Shown: a block opened inside brackets keeps the nesting, loses no token and
  never runs off the list; and the extents measured for a diagnostic are those the lexer takes.
\<close>

subsection \<open>A block inside brackets\<close>

definition is_opener :: "token \<Rightarrow> bool" where
  "is_opener k \<longleftrightarrow> k = T_Delim D_LParen \<or> k = T_Delim D_LBracket \<or> k = T_Delim D_LBrace"

definition is_closer :: "token \<Rightarrow> bool" where
  "is_closer k \<longleftrightarrow> k = T_Delim D_RParen \<or> k = T_Delim D_RBracket \<or> k = T_Delim D_RBrace"

definition layout_tok :: "tok \<Rightarrow> token \<Rightarrow> tok" where
  "layout_tok t k = Tok k (tok_span t) None"

definition close_block :: "nat list \<Rightarrow> tok \<Rightarrow> tok list" where
  "close_block stack t = layout_tok t Newline # replicate (length stack - 1) (layout_tok t Dedent)"

text \<open>The indent a token counts by: the loop reads it outside brackets, and not on a \<^verbatim>\<open>|>\<close>.\<close>

definition line_indent :: "nat \<Rightarrow> tok \<Rightarrow> nat option" where
  "line_indent depth t = (if depth = 0 \<and> tok_kind t \<noteq> T_Op P_Pipe then map_option unat (tok_indent t) else None)"

text \<open>
  The loop from \<^verbatim>\<open>toks[j]\<close> on, with the tokens left in place of the index: the output, and what is left when it
  stops. \<open>None\<close> is the panic of an index past the end.
\<close>

fun open_loop :: "nat \<Rightarrow> nat list \<Rightarrow> nat \<Rightarrow> tok list \<Rightarrow> tok list \<Rightarrow> (tok list \<times> tok list, lex_error) result option" where
  "open_loop base stack depth out [] = None"
| "open_loop base stack depth out (t # ts) =
     (if tok_kind t = Eof \<or> is_closer (tok_kind t) \<and> depth = 0 then Some (Ok (out @ close_block stack t, t # ts))
      else let depth' = (if is_opener (tok_kind t) then depth + 1
                         else if is_closer (tok_kind t) then depth - 1 else depth)
           in case line_indent depth t of
                None \<Rightarrow> open_loop base stack depth' (out @ [t]) ts
              | Some w \<Rightarrow>
                  if w \<le> base then Some (Ok (out @ close_block stack t, t # ts))
                  else (case indent_step stack w of
                          (stack', Inl message) \<Rightarrow> Some (Err (error_span (tok_span t) message))
                        | (stack', Inr layout) \<Rightarrow>
                            open_loop base stack' depth' (out @ layout_tok t Newline # map (layout_tok t) layout @ [t]) ts))"

definition find_indent :: "tok list \<Rightarrow> u32 option" where
  "find_indent ts = (case find (\<lambda>t. tok_indent t \<noteq> None) ts of Some t \<Rightarrow> tok_indent t | None \<Rightarrow> None)"

definition open_layout :: "tok list \<Rightarrow> nat \<Rightarrow> (tok list \<times> bool, lex_error) result option" where
  "open_layout toks at_colon =
     (case (if at_colon + 1 < length toks then tok_indent (toks ! (at_colon + 1)) else None) of
        None \<Rightarrow> Some (Ok (toks, False))
      | Some first_indent \<Rightarrow>
          (case find_indent (rev (take (at_colon + 1) toks)) of
             None \<Rightarrow> Some (Ok (toks, False))
           | Some base \<Rightarrow>
               if unat first_indent \<le> unat base then Some (Ok (toks, False))
               else map_option (map_sum id (\<lambda>(out, after). (take (at_colon + 1) toks @ out @ after, True)))
                      (open_loop (unat base) [unat base] 0 [] (drop (at_colon + 1) toks))))"

subsection \<open>Literals and words\<close>

fun plain :: "str_part list \<Rightarrow> nat list option" where
  "plain [] = Some []"
| "plain [SText t] = Some t"
| "plain _ = None"

definition strlit_from :: "nat list \<Rightarrow> str_part list \<times> nat" where
  "strlit_from txt = ((if txt = [] then [] else [SText txt]), 0)"

text \<open>The calls of \<^verbatim>\<open>each\<close>, in order: line and word.\<close>

fun tok_words :: "tok \<Rightarrow> (u32 \<times> nat list) list"
  and kind_words :: "u32 \<Rightarrow> token \<Rightarrow> (u32 \<times> nat list) list"
  and part_words :: "str_part \<Rightarrow> (u32 \<times> nat list) list"
  and hole_words :: "str_hole \<Rightarrow> (u32 \<times> nat list) list"
  and spec_words :: "spec_part \<Rightarrow> (u32 \<times> nat list) list" where
  "tok_words (Tok k s i) = kind_words (sp_line s) k"
| "kind_words ln (T_Ident word) = [(ln, word)]"
| "kind_words ln (T_Str parts n) = concat (map part_words parts)"
| "kind_words ln _ = []"
| "part_words (SText t) = []"
| "part_words (SHole h) = hole_words h"
| "hole_words (Hole ts spec sp) =
     concat (map tok_words ts) @ (case spec of None \<Rightarrow> [] | Some ss \<Rightarrow> concat (map spec_words ss))"
| "spec_words (SpText t) = []"
| "spec_words (SpField ts) = concat (map tok_words ts)"

definition ident_words :: "tok list \<Rightarrow> (u32 \<times> nat list) list" where
  "ident_words toks = concat (map tok_words toks)"

text \<open>One step of the lexer on the rest of a line, a few levels of holes below the limit.\<close>

definition literal_len :: "unicode \<Rightarrow> nat list \<Rightarrow> nat option" where
  "literal_len u rest_of_line =
     (case next_token u MAX_HOLE_NEST ((new_file rest_of_line 0)\<lparr>l_hole_nest := MAX_HOLE_NEST - ONE_LINE_HOLE_NEST\<rparr>) of
        Some (_, Inr t) \<Rightarrow> (case tok_kind t of T_Str parts n \<Rightarrow> Some n | _ \<Rightarrow> None)
      | _ \<Rightarrow> None)"

definition strip_num_underscores_radix :: "nat list \<Rightarrow> nat \<Rightarrow> nat list option" where
  "strip_num_underscores_radix s radix =
     (if list_ex (\<lambda>i. s ! i = c_underscore \<and>
           \<not> (0 < i \<and> is_digit radix (s ! (i - 1)) \<and> i + 1 < length s \<and> is_digit radix (s ! (i + 1)))) [0..<length s]
      then None else Some (filter (\<lambda>c. c \<noteq> c_underscore) s))"

subsection \<open>Extents\<close>

definition at :: "nat list \<Rightarrow> nat \<Rightarrow> nat option" where
  "at chars i = (if i < length chars then Some (chars ! i) else None)"

definition at_some :: "(nat \<Rightarrow> bool) \<Rightarrow> nat list \<Rightarrow> nat \<Rightarrow> bool" where
  "at_some P chars i = (case at chars i of Some c \<Rightarrow> P c | None \<Rightarrow> False)"

definition run_from :: "(nat \<Rightarrow> bool) \<Rightarrow> nat list \<Rightarrow> nat \<Rightarrow> nat" where
  "run_from P chars i = i + length (takeWhile P (drop i chars))"

definition measure_number :: "nat list \<Rightarrow> nat \<Rightarrow> nat" where
  "measure_number chars start =
     (if at chars start = Some c_0 \<and> at_some (\<lambda>c. c \<in> {c_x, c_X, c_b, c_B, c_o, c_O}) chars (start + 1)
      then run_from (\<lambda>c. ascii_alnum c \<or> c = c_underscore) chars (start + 2) - start
      else
        let i = run_from digit_or_underscore chars start;
            j = (if at chars i = Some c_dot \<and> at_some ascii_digit chars (i + 1)
                 then run_from digit_or_underscore chars (i + 1) else i);
            k = (if at_some (\<lambda>c. c = c_e \<or> c = c_E) chars j then
                   let probe = (if at_some (\<lambda>c. c = c_plus \<or> c = c_minus) chars (j + 1) then j + 2 else j + 1)
                   in if at_some ascii_digit chars probe then run_from ascii_digit chars probe else j
                 else j)
        in k - start)"

definition closes_at :: "nat list \<Rightarrow> nat \<Rightarrow> bool \<Rightarrow> nat \<Rightarrow> bool" where
  "closes_at chars quote triple i \<longleftrightarrow>
     at chars i = Some quote \<and> (triple \<longrightarrow> at chars (i + 1) = Some quote \<and> at chars (i + 2) = Some quote)"

function measure_body :: "nat list \<Rightarrow> nat \<Rightarrow> bool \<Rightarrow> bool \<Rightarrow> nat \<Rightarrow> nat" where
  "measure_body chars quote triple raw i =
     (if at chars i = None \<or> \<not> triple \<and> at chars i = Some c_nl then i
      else if closes_at chars quote triple i then i + close_width triple
      else if at chars i = Some c_backslash \<and> \<not> raw then measure_body chars quote triple raw (i + 2)
      else measure_body chars quote triple raw (i + 1))"
  by pat_completeness auto
termination
  by (relation "measure (\<lambda>(chars, _, _, _, i). length chars - i)") (auto simp: at_def split: if_splits)

declare measure_body.simps [simp del]

definition measure_string :: "nat list \<Rightarrow> nat \<Rightarrow> nat" where
  "measure_string chars start =
     (let prefixed = at_some (\<lambda>c. c \<in> {c_b, c_B, c_r, c_R}) chars start \<and> at_some is_quote chars (start + 1);
          raw = (prefixed \<and> at_some (\<lambda>c. c = c_r \<or> c = c_R) chars start);
          i = (if prefixed then start + 1 else start)
      in case at chars i of
           None \<Rightarrow> i - start
         | Some quote \<Rightarrow>
             if \<not> is_quote quote then i - start
             else let triple = (at chars (i + 1) = Some quote \<and> at chars (i + 2) = Some quote)
                  in measure_body chars quote triple raw (i + close_width triple) - start)"

text \<open>\<^verbatim>\<open>str::lines\<close>: a line ends at a newline, and loses the carriage return before it.\<close>

fun chomp :: "nat list \<Rightarrow> nat list" where
  "chomp line = (if line \<noteq> [] \<and> last line = c_cr then butlast line else line)"

fun split_lines :: "nat list \<Rightarrow> nat list \<Rightarrow> nat list list" where
  "split_lines acc [] = (if acc = [] then [] else [acc])"
| "split_lines acc (c # cs) = (if c = c_nl then chomp acc # split_lines [] cs else split_lines (acc @ [c]) cs)"

definition nth_line :: "nat list \<Rightarrow> nat \<Rightarrow> nat list option" where
  "nth_line source n = (let ls = split_lines [] source in if n < length ls then Some (ls ! n) else None)"

text \<open>The end of the token at \<open>col0\<close> of a line.\<close>

definition token_end :: "unicode \<Rightarrow> nat list \<Rightarrow> nat \<Rightarrow> nat" where
  "token_end u chars col0 =
     (if at_some is_quote chars col0 then
        col0 + (case literal_len u (drop col0 chars) of Some n \<Rightarrow> n | None \<Rightarrow> length chars - col0)
      else if at_some (\<lambda>c. c \<in> {c_b, c_B, c_r, c_R}) chars col0 \<and> at_some is_quote chars (col0 + 1) then
        col0 + measure_string chars col0
      else if at_some ascii_digit chars col0 then col0 + measure_number chars col0
      else if at_some (is_word u) chars col0 then run_from (is_word u) chars col0
      else col0 + 1)"

definition word_end_col :: "unicode \<Rightarrow> nat list \<Rightarrow> nat \<Rightarrow> nat \<Rightarrow> u32" where
  "word_end_col u source line1 col1 =
     of_nat (token_end u (case nth_line source (line1 - 1) of Some l \<Rightarrow> l | None \<Rightarrow> []) (col1 - 1))"

definition is_nowhere :: "span \<Rightarrow> bool" where
  "is_nowhere sp \<longleftrightarrow> sp = \<lparr>sp_line = - 1, sp_col = - 1, sp_file = 0\<rparr>"

text \<open>The path is given as it is displayed.\<close>

definition render_span :: "span \<Rightarrow> nat list option \<Rightarrow> nat list" where
  "render_span sp path =
     (case path of
        None \<Rightarrow> codes ''line '' @ codes (show_nat (unat (sp_line sp))) @ codes '', col '' @ codes (show_nat (unat (sp_col sp)))
      | Some p \<Rightarrow> p @ codes '':'' @ codes (show_nat (unat (sp_line sp))) @ codes '':'' @ codes (show_nat (unat (sp_col sp))))"

definition render_snippet :: "unicode \<Rightarrow> span \<Rightarrow> nat list \<Rightarrow> nat list option" where
  "render_snippet u sp source =
     (if sp_line sp = 0 then None
      else case nth_line source (unat (sp_line sp) - 1) of
             None \<Rightarrow> None
           | Some raw \<Rightarrow>
               let trimmed = rev (dropWhile (\<lambda>c. c = c_cr) (rev raw));
                   shown = map (\<lambda>c. if c = c_tab then c_space else c) trimmed;
                   e = unat (word_end_col u source (unat (sp_line sp)) (unat (sp_col sp)));
                   col0 = unat (sp_col sp) - 1;
                   width = max (e - col0) 1;
                   line_no = codes (show_nat (unat (sp_line sp)));
                   pad = replicate (length line_no) c_space
               in Some (pad @ codes '' |'' @ [c_nl] @ line_no @ codes '' | '' @ shown @ [c_nl] @ pad @ codes '' | '' @
                        replicate col0 c_space @ replicate width c_caret))"

subsection \<open>Opening a block keeps the layout\<close>

lemma levels_replicate_Dedent: "levels (n + k) (replicate k (Tok Dedent s i) @ ts) = levels n ts"
  by (induction k) auto

text \<open>Inserting Indents that are still open lifts the level of what follows.\<close>

lemma levels_lift: "levels n ts = Some m \<Longrightarrow> levels (n + k) ts = Some (m + k)"
proof (induction ts arbitrary: n)
  case (Cons t ts)
  have "levels (n + 1 + k) ts = Some (m + k)" if "levels (n + 1) ts = Some m" using Cons.IH that by blast
  moreover have "levels (n - 1 + k) ts = Some (m + k)" "n - 1 + k = n + k - 1" if "levels (n - 1) ts = Some m" "n \<noteq> 0"
    using Cons.IH [OF that(1)] that by auto
  ultimately show ?case using Cons by (auto split: if_splits)
qed simp

lemma indent_step_levels:
  assumes "indent_step stack w = (stack', Inr layout)" "stack \<noteq> []" "last stack < w"
  shows "stack' \<noteq> [] \<and> last stack' = last stack \<and> list_all is_layout layout \<and>
    levels (n + (length stack - 1)) (map (layout_tok t) layout) = Some (n + (length stack' - 1))"
proof -
  define d where "d = dropWhile (\<lambda>i. w < i) stack"
  define c where "c = takeWhile (\<lambda>i. w < i) stack"
  have cd: "stack = c @ d" by (simp add: c_def d_def)
  have d: "d \<noteq> []" unfolding d_def using assms(3) last_in_set [OF assms(2)] dropWhile_eq_Nil_conv [of "\<lambda>i. w < i" stack]
    by (meson not_less_iff_gr_or_eq)
  obtain x xs where s: "stack = x # xs" using assms(2) by (cases stack) auto
  have lev: "levels (m + length c) (map (layout_tok t) (replicate (length c) Dedent)) = Some m" for m
    using levels_replicate_Dedent [of m "length c" "tok_span t" None "[]"] by (simp add: layout_tok_def)
  consider "w > x" | "w = x" | "w < x" by linarith
  then show ?thesis
  proof cases
    case 1
    then show ?thesis using assms(1) by (auto simp: indent_step_def s layout_tok_def)
  next
    case 2
    then show ?thesis using assms(1) by (auto simp: indent_step_def s)
  next
    case 3
    then have "stack' = d" "layout = replicate (length c) Dedent"
      using assms(1) by (auto simp: indent_step_def Let_def s c_def d_def split: if_splits)
    moreover have "n + (length stack - 1) = n + (length d - 1) + length c" using d by (cases d) (simp_all add: cd)
    ultimately show ?thesis using d lev [of "n + (length d - 1)"] by (simp add: cd list_all_iff add.assoc)
  qed
qed

text \<open>
  What the loop keeps: the tokens passed so far are those of the output that are not layout of its own,
  and the output is nested as they are, with the Indents still open on top.
\<close>

definition content :: "tok list \<Rightarrow> tok list" where
  "content ts = filter (\<lambda>t. \<not> is_layout (tok_kind t)) ts"

definition opens :: "nat list \<Rightarrow> tok list \<Rightarrow> tok list \<Rightarrow> bool" where
  "opens stack passed out \<longleftrightarrow>
     content out = content passed \<and> subseq passed out \<and>
     (\<forall>n m. levels n passed = Some m \<longrightarrow> levels n out = Some (m + (length stack - 1)))"

lemma content_append [simp]: "content (xs @ ys) = content xs @ content ys"
  by (simp add: content_def)

lemma opens_append: "opens stack passed out \<Longrightarrow> opens stack (passed @ [t]) (out @ [t])"
  by (auto simp: opens_def levels_append bind_eq_Some_conv list_emb_append_mono dest: levels_lift simp del: levels.simps)

lemma opens_layout:
  assumes "opens stack passed out" "list_all is_layout (map tok_kind ls)"
    "\<And>n. levels (n + (length stack - 1)) ls = Some (n + (length stack' - 1))"
  shows "opens stack' passed (out @ ls)"
proof -
  have "content ls = []" using assms(2) by (auto simp: content_def list_all_iff filter_empty_conv)
  then show ?thesis using assms by (auto simp: opens_def levels_append)
qed

lemma opens_close: "opens stack passed out \<Longrightarrow> opens [b] passed (out @ close_block stack t)"
  by (rule opens_layout)
     (use levels_replicate_Dedent [of _ "length stack - 1" "tok_span t" None "[]"] in
       \<open>auto simp: close_block_def layout_tok_def list_all_iff\<close>)

definition opened :: "nat \<Rightarrow> tok list \<Rightarrow> tok list \<Rightarrow> (tok list \<times> tok list, lex_error) result option \<Rightarrow> bool" where
  "opened base passed ts res \<longleftrightarrow>
     (case res of
        None \<Rightarrow> False
      | Some (Inl e) \<Rightarrow> (\<exists>t \<in> set ts. e_line e = unat (sp_line (tok_span t)) \<and> e_col e = unat (sp_col (tok_span t)))
      | Some (Inr (out, after)) \<Rightarrow> (\<exists>ts'. ts = ts' @ after \<and> after \<noteq> [] \<and> opens [base] (passed @ ts') out))"

lemma opened_Cons: "opened base (passed @ [t]) ts res \<Longrightarrow> opened base passed (t # ts) res"
  unfolding opened_def by (fastforce split: option.splits sum.splits prod.splits intro: exI [of _ "t # _"])

lemma opened_here: "opens stack passed out \<Longrightarrow> opened base passed (t # ts) (Some (Ok (out @ close_block stack t, t # ts)))"
  unfolding opened_def using opens_close by auto

lemma open_loop_opens:
  assumes "\<exists>t \<in> set ts. tok_kind t = Eof" "stack \<noteq> []" "last stack = base" "opens stack passed out"
  shows "opened base passed ts (open_loop base stack depth out ts)"
  using assms
proof (induction ts arbitrary: stack depth out passed)
  case (Cons t ts)
  let ?depth = "if is_opener (tok_kind t) then depth + 1 else if is_closer (tok_kind t) then depth - 1 else depth"
  note here = opened_here [OF Cons.prems(4)]
  show ?case
  proof (cases "tok_kind t = Eof \<or> is_closer (tok_kind t) \<and> depth = 0")
    case True
    then show ?thesis using here by auto
  next
    case False
    then have eof: "\<exists>t \<in> set ts. tok_kind t = Eof" using Cons.prems(1) by auto
    note step = open_loop.simps(2) [of base stack depth out t ts] if_not_P [OF False] Let_def
    show ?thesis
    proof (cases "line_indent depth t")
      case None
      have "opened base (passed @ [t]) ts (open_loop base stack ?depth (out @ [t]) ts)"
        by (rule Cons.IH [OF eof Cons.prems(2,3) opens_append [OF Cons.prems(4)]])
      then show ?thesis using opened_Cons unfolding step None option.case by blast
    next
      case (Some w)
      obtain stack' r where r: "indent_step stack w = (stack', r)" by force
      consider "w \<le> base" | m where "\<not> w \<le> base" "r = Inl m" | layout where "\<not> w \<le> base" "r = Inr layout"
        by (cases r) auto
      then show ?thesis
      proof cases
        case 1
        then show ?thesis using here unfolding step Some option.case by simp
      next
        case 2
        then show ?thesis unfolding step Some option.case by (simp add: r opened_def error_span_def)
      next
        case 3
        have s: "stack' \<noteq> []" "last stack' = base" "list_all is_layout layout"
          "\<And>n. levels (n + (length stack - 1)) (map (layout_tok t) layout) = Some (n + (length stack' - 1))"
          using indent_step_levels [of stack w stack' layout] r 3 Cons.prems(2,3) by auto
        have "opens stack' passed (out @ layout_tok t Newline # map (layout_tok t) layout)"
          by (rule opens_layout [OF Cons.prems(4)]) (use s in \<open>auto simp: layout_tok_def list_all_iff\<close>)
        from Cons.IH [OF eof s(1,2) opens_append [OF this, of t], of ?depth]
        have "opened base (passed @ [t]) ts
          (open_loop base stack' ?depth (out @ layout_tok t Newline # map (layout_tok t) layout @ [t]) ts)" by simp
        then show ?thesis using opened_Cons unfolding step Some option.case by (simp add: r 3)
      qed
    qed
  qed
qed simp

text \<open>A token list the parser can read: nested, and ended by Eof.\<close>

definition laid_out :: "tok list \<Rightarrow> bool" where
  "laid_out toks \<longleftrightarrow> toks \<noteq> [] \<and> tok_kind (last toks) = Eof \<and> levels 0 toks = Some 0"

lemma lexed_laid_out: "lexed f cs toks \<Longrightarrow> laid_out toks"
  by (simp add: lexed_def laid_out_def)

lemma opens_splice:
  assumes "opens [b] mid out" "laid_out (pre @ mid @ after)" "after \<noteq> []"
  shows "laid_out (pre @ out @ after)" "content (pre @ out @ after) = content (pre @ mid @ after)"
    "subseq (pre @ mid @ after) (pre @ out @ after)"
proof -
  show "laid_out (pre @ out @ after)"
    using assms by (auto simp: laid_out_def opens_def levels_append bind_eq_Some_conv)
  show "content (pre @ out @ after) = content (pre @ mid @ after)" "subseq (pre @ mid @ after) (pre @ out @ after)"
    using assms(1) by (simp_all add: opens_def list_emb_append_mono)
qed

lemma open_layout_cases:
  obtains "open_layout toks at_colon = Some (Ok (toks, False))"
  | base where "at_colon + 1 < length toks" "open_layout toks at_colon =
      map_option (map_sum id (\<lambda>(out, after). (take (at_colon + 1) toks @ out @ after, True)))
        (open_loop base [base] 0 [] (drop (at_colon + 1) toks))"
proof (cases "(if at_colon + 1 < length toks then tok_indent (toks ! (at_colon + 1)) else None)")
  case (Some i)
  then show ?thesis
    by (cases "find_indent (rev (take (at_colon + 1) toks))"; cases "\<exists>b. find_indent (rev (take (at_colon + 1) toks)) = Some b \<and> unat i \<le> unat b")
       (use that in \<open>auto simp: open_layout_def split: if_splits\<close>)
qed (use that in \<open>simp add: open_layout_def\<close>)

text \<open>
  C23. The parser opens layout for a block inside brackets on a token list that is nested and ends in Eof,
  as the lexer's is. It never indexes past the list; it fails only at one of the tokens; otherwise the
  list is nested and ends in Eof again, so the parser may do it any number of times, every token of the old
  list is still there in its place, and only layout tokens were added. An answer of no leaves the list as it was.
\<close>

theorem open_layout_keeps_layout:
  assumes "laid_out toks"
  shows "case open_layout toks at_colon of
      None \<Rightarrow> False
    | Some (Inl e) \<Rightarrow> (\<exists>t \<in> set toks. e_line e = unat (sp_line (tok_span t)) \<and> e_col e = unat (sp_col (tok_span t)))
    | Some (Inr (toks', b)) \<Rightarrow>
        laid_out toks' \<and> content toks' = content toks \<and> subseq toks toks' \<and> (\<not> b \<longrightarrow> toks' = toks)"
proof -
  let ?pre = "take (at_colon + 1) toks" and ?ts = "drop (at_colon + 1) toks"
  show ?thesis
  proof (cases rule: open_layout_cases [of toks at_colon])
    case 1
    then show ?thesis using assms by simp
  next
    case (2 base)
    have "last toks \<in> set ?ts" using 2(1) by (metis drop_eq_Nil last_drop last_in_set leD)
    then have "\<exists>t \<in> set ?ts. tok_kind t = Eof" using assms by (auto simp: laid_out_def)
    then have op: "opened base [] ?ts (open_loop base [base] 0 [] ?ts)"
      by (rule open_loop_opens) (simp_all add: opens_def content_def)
    show ?thesis
    proof (cases "open_loop base [base] 0 [] ?ts")
      case (Some r)
      show ?thesis
      proof (cases r)
        case (Inl e)
        then show ?thesis using op Some 2(2) by (auto simp: opened_def dest: in_set_dropD)
      next
        case (Inr p)
        then obtain out after ts' where p: "r = Inr (out, after)" "?ts = ts' @ after" "after \<noteq> []" "opens [base] ts' out"
          using op Some by (auto simp: opened_def split: prod.splits)
        have "toks = ?pre @ ts' @ after" using p(2) by (metis append_take_drop_id)
        then show ?thesis using opens_splice [OF p(4) _ p(3), of ?pre] assms Some p(1) 2(2) by simp
      qed
    qed (use op in \<open>simp add: opened_def\<close>)
  qed
qed

definition sample_block :: "tok list" where
  "sample_block =
     [Tok (T_Delim D_LParen) \<lparr>sp_line = 1, sp_col = 1, sp_file = 0\<rparr> (Some 0),
      Tok (T_Delim D_Colon) \<lparr>sp_line = 1, sp_col = 2, sp_file = 0\<rparr> None,
      Tok (T_Kw K_Pass) \<lparr>sp_line = 2, sp_col = 3, sp_file = 0\<rparr> (Some 2),
      Tok (T_Delim D_RParen) \<lparr>sp_line = 2, sp_col = 7, sp_file = 0\<rparr> None,
      Tok Newline \<lparr>sp_line = 2, sp_col = 8, sp_file = 0\<rparr> None,
      Tok Eof \<lparr>sp_line = 2, sp_col = 8, sp_file = 0\<rparr> None]"

theorem open_layout_keeps_layout_witness:
  "laid_out sample_block \<and>
   (case open_layout sample_block 1 of
      Some (Inr (toks', b)) \<Rightarrow>
        map tok_kind toks' = [T_Delim D_LParen, T_Delim D_Colon, Newline, Indent, T_Kw K_Pass, Newline, Dedent,
          T_Delim D_RParen, Newline, Eof] \<and> laid_out toks' \<and> subseq sample_block toks'
    | _ \<Rightarrow> False)"
proof -
  have l: "laid_out sample_block" by code_simp
  have e: "map_option (map_sum id (map tok_kind \<circ> fst)) (open_layout sample_block 1) =
     Some (Ok [T_Delim D_LParen, T_Delim D_Colon, Newline, Indent, T_Kw K_Pass, Newline, Dedent,
          T_Delim D_RParen, Newline, Eof])" by code_simp
  then obtain r where r: "open_layout sample_block 1 = Some r" by (cases "open_layout sample_block 1") auto
  then obtain toks' b where o: "open_layout sample_block 1 = Some (Ok (toks', b))" using e by (cases r) auto
  show ?thesis using open_layout_keeps_layout [OF l, of 1] l e unfolding o by simp
qed

subsection \<open>Measured extents are the lexer's\<close>

lemma at_char_at: "at (l_chars l) i = char_at l i"
  by (simp add: at_def char_at_def)

lemma peek_at: "0 < c \<Longrightarrow> peek l = c \<longleftrightarrow> at (l_chars l) (l_pos l) = Some c"
  by (auto simp: peek_def char_at_def at_def)

lemma peek_next_at: "0 < c \<Longrightarrow> peek_next l = c \<longleftrightarrow> at (l_chars l) (l_pos l + 1) = Some c"
  by (auto simp: peek_next_def char_at_def at_def)

lemma peek_sat: "\<not> P 0 \<Longrightarrow> P (peek l) \<longleftrightarrow> at_some P (l_chars l) (l_pos l)"
  by (auto simp: peek_def char_at_def at_def at_some_def)

lemma peek_next_sat: "\<not> P 0 \<Longrightarrow> P (peek_next l) \<longleftrightarrow> at_some P (l_chars l) (l_pos l + 1)"
  by (auto simp: peek_next_def char_at_def at_def at_some_def)

lemma advance_while_run: "l_pos (advance_while P l) = run_from P (l_chars l) (l_pos l)" "l_chars (advance_while P l) = l_chars l"
  by (simp_all add: advance_while_def run_from_def rest_def move_def)

lemma run_from_step: "at_some P chars i \<Longrightarrow> run_from P chars i = run_from P chars (i + 1)"
  by (auto simp: run_from_def at_some_def at_def Cons_nth_drop_Suc [symmetric] split: if_splits)

lemma fraction_extent:
  "l_chars (fst (fraction l)) = l_chars l"
  "l_pos (fst (fraction l)) =
     (if at (l_chars l) (l_pos l) = Some c_dot \<and> at_some ascii_digit (l_chars l) (l_pos l + 1)
      then run_from digit_or_underscore (l_chars l) (l_pos l + 1) else l_pos l)"
  using peek_next_sat [of ascii_digit l] peek_at [of c_dot l]
  by (auto simp: fraction_def advance_while_run advance_def move_def ascii_digit_def run_from_def rest_def)

lemma exponent_extent:
  "l_chars (fst (exponent l)) = l_chars l"
  "l_pos (fst (exponent l)) =
     (if at_some (\<lambda>c. c = c_e \<or> c = c_E) (l_chars l) (l_pos l) then
        let probe = (if at_some (\<lambda>c. c = c_plus \<or> c = c_minus) (l_chars l) (l_pos l + 1) then l_pos l + 2 else l_pos l + 1)
        in if at_some ascii_digit (l_chars l) probe then run_from ascii_digit (l_chars l) probe else l_pos l
      else l_pos l)"
proof -
  have "(case char_at l p of Some c \<Rightarrow> ascii_digit c | None \<Rightarrow> False) = at_some ascii_digit (l_chars l) p" for p
    by (simp add: at_some_def at_char_at)
  moreover have "(char_at l p = Some c_plus \<or> char_at l p = Some c_minus) =
      at_some (\<lambda>c. c = c_plus \<or> c = c_minus) (l_chars l) p" for p
    by (auto simp: at_some_def at_char_at split: option.splits)
  ultimately show "l_chars (fst (exponent l)) = l_chars l" "l_pos (fst (exponent l)) =
     (if at_some (\<lambda>c. c = c_e \<or> c = c_E) (l_chars l) (l_pos l) then
        let probe = (if at_some (\<lambda>c. c = c_plus \<or> c = c_minus) (l_chars l) (l_pos l + 1) then l_pos l + 2 else l_pos l + 1)
        in if at_some ascii_digit (l_chars l) probe then run_from ascii_digit (l_chars l) probe else l_pos l
      else l_pos l)"
    using peek_sat [of "\<lambda>c. c = c_e \<or> c = c_E" l]
    by (simp_all add: exponent_def Let_def run_from_def rest_def)
qed

lemma finish_number_pos: "finish_number u start fl l = (l', r) \<Longrightarrow> l' = l"
  by (auto simp: finish_number_def Let_def split: option.splits if_splits sum.splits)

lemma radix_number_pos: "radix_number start radix name l = (l', r) \<Longrightarrow>
    l_pos l' = run_from (\<lambda>c. ascii_alnum c \<or> c = c_underscore) (l_chars l) (l_pos l + 1)"
  by (auto simp: radix_number_def Let_def run_from_def rest_def advance_def move_def split: option.splits if_splits sum.splits)

lemma number_extent:
  assumes "number u start l = (l', r)" "l_pos l = start + 1" "at_some ascii_digit (l_chars l) start" "\<not> field_index l start"
  shows "l_pos l' = start + measure_number (l_chars l) start"
proof (cases "l_chars l ! start = c_0 \<and> radix_of_marker (peek l) \<noteq> None")
  case True
  then have "at (l_chars l) start = Some c_0" using assms(3) by (auto simp: at_some_def at_def split: if_splits)
  moreover have "radix_of_marker c \<noteq> None \<longleftrightarrow> c \<in> {c_x, c_X, c_b, c_B, c_o, c_O}" for c by (simp add: radix_of_marker_def)
  then have "at_some (\<lambda>c. c \<in> {c_x, c_X, c_b, c_B, c_o, c_O}) (l_chars l) (start + 1)"
    using True peek_sat [of "\<lambda>c. c \<in> {c_x, c_X, c_b, c_B, c_o, c_O}" l] assms(2) by auto
  ultimately show ?thesis using True assms(1,2) radix_number_pos [of start _ _ l l' r]
    by (auto simp: number_def measure_number_def run_from_def split: option.splits prod.splits)
next
  case False
  define l1 where "l1 = advance_while digit_or_underscore l"
  define l2 where "l2 = fst (fraction l1)"
  define l3 where "l3 = fst (exponent l2)"
  have "l' = l3" using assms(1,4) False finish_number_pos [of u start _ _ l' r]
    by (auto simp: number_def Let_def l1_def l2_def l3_def split: prod.splits if_splits option.splits)
  have "digit_or_underscore c" if "ascii_digit c" for c using that by (simp add: digit_or_underscore_def)
  then have "at_some digit_or_underscore (l_chars l) start" using assms(3) by (auto simp: at_some_def split: option.splits)
  then have p1: "l_pos l1 = run_from digit_or_underscore (l_chars l) start" "l_chars l1 = l_chars l"
    by (simp_all add: l1_def assms(2) run_from_step) (simp add: run_from_def rest_def assms(2))
  have radix: "\<not> (at (l_chars l) start = Some c_0 \<and> at_some (\<lambda>c. c \<in> {c_x, c_X, c_b, c_B, c_o, c_O}) (l_chars l) (start + 1))"
    using False peek_sat [of "\<lambda>c. c \<in> {c_x, c_X, c_b, c_B, c_o, c_O}" l] assms(2)
    by (auto simp: radix_of_marker_def at_def split: if_splits)
  have "start \<le> l_pos l1" by (simp add: p1 run_from_def)
  then have "start \<le> l_pos l3"
    using fraction_extent(2) [of l1] exponent_extent(2) [of l2] unfolding l2_def [symmetric] l3_def [symmetric] Let_def
    by (simp add: run_from_def split: if_splits)
  moreover have "l_pos l3 - start = measure_number (l_chars l) start"
    unfolding measure_number_def if_not_P [OF radix] Let_def l3_def exponent_extent(2) l2_def fraction_extent p1 ..
  ultimately show ?thesis using \<open>l' = l3\<close> by simp
qed

text \<open>A literal without holes.\<close>

lemma closes_at_close: "is_quote quote \<Longrightarrow> at_close quote triple l = closes_at (l_chars l) quote triple (l_pos l)"
  using peek_at [of quote l] peek_next_at [of quote l] by (auto simp: at_close_def closes_at_def is_quote_def at_char_at)

lemma at_end_None: "is_at_end l \<longleftrightarrow> at (l_chars l) (l_pos l) = None"
  by (auto simp: is_at_end_def at_def)

lemma at_peek: "\<not> is_at_end l \<Longrightarrow> at (l_chars l) (l_pos l) = Some (peek l)"
  by (auto simp: peek_def at_def char_at_def is_at_end_def)

lemma measure_body_close: "is_quote quote \<Longrightarrow> closes_at chars quote triple i \<Longrightarrow>
    measure_body chars quote triple raw i = i + close_width triple"
  by (auto simp: measure_body.simps [of chars quote triple raw i] closes_at_def is_quote_def)

lemma measure_body_text:
  assumes "at chars i = Some c" "triple \<or> c \<noteq> c_nl" "\<not> closes_at chars quote triple i" "raw \<or> c \<noteq> c_backslash"
  shows "measure_body chars quote triple raw i = measure_body chars quote triple raw (i + 1)"
  using assms by (auto simp: measure_body.simps [of chars quote triple raw i])

lemma raw_loop_extent:
  assumes "raw_loop quote triple acc l = (l', Some txt)" "is_quote quote" "triple \<or> c_nl \<notin> set (drop (l_pos l) (take (l_pos l') (l_chars l)))"
  shows "l_pos l' = measure_body (l_chars l) quote triple True (l_pos l)"
  using assms
proof (induction quote triple acc l rule: raw_loop.induct)
  case (1 quote triple acc l)
  note step = raw_loop.simps [of quote triple acc l]
  consider "at_close quote triple l" | "\<not> at_close quote triple l" "\<not> is_at_end l"
    using "1.prems"(1) by (auto simp: step split: if_splits)
  then show ?case
  proof cases
    case 1
    then show ?thesis using "1.prems"(1,2) measure_body_close [of quote] by (auto simp: step closes_at_close move_def)
  next
    case 2
    then have r: "raw_loop quote triple (acc @ [peek l]) (take_text l) = (l', Some txt)" using "1.prems"(1) by (simp add: step)
    have lt: "l_pos l < l_pos l'" using raw_loop_steps [OF "1.prems"(2) r] by (simp add: steps_def same_source_def)
    note c = at_peek [OF 2(2)]
    have nl: "triple \<or> peek l \<noteq> c_nl \<and> c_nl \<notin> set (drop (l_pos l + 1) (take (l_pos l') (l_chars l)))"
      using "1.prems"(3) lt c by (auto simp: at_def Cons_nth_drop_Suc [symmetric] split: if_splits)
    then show ?thesis using "1.IH" [OF 2 r "1.prems"(2)] measure_body_text [OF c] 2(1) "1.prems"(2) by (auto simp: closes_at_close)
  qed
qed

lemma measure_body_escape:
  assumes "is_quote quote" "at chars i = Some c_backslash"
  shows "measure_body chars quote triple False i = measure_body chars quote triple False (i + 2)"
  using assms by (auto simp: measure_body.simps [of chars quote triple False i] closes_at_def is_quote_def)

lemma hex_digit_Ok: "hex_digit l = (l', Ok d) \<Longrightarrow>
    l_pos l' = l_pos l + 1 \<and> l_chars l' = l_chars l \<and> (\<exists>c. at (l_chars l) (l_pos l) = Some c \<and> to_digit16 c \<noteq> None)"
  using at_peek [of l] by (auto simp: hex_digit_def Let_def advance_def move_def split: if_splits option.splits)

lemma measure_body_hex: "is_quote quote \<Longrightarrow> at chars i = Some c \<Longrightarrow> to_digit16 c \<noteq> None \<Longrightarrow>
    measure_body chars quote triple raw i = measure_body chars quote triple raw (i + 1)"
  by (rule measure_body_text) (auto simp: to_digit16_def closes_at_def is_quote_def split: if_splits)

lemma hex_byte_Ok:
  assumes "hex_byte l = (l', Ok b)" "is_quote quote"
  shows "measure_body (l_chars l) quote triple raw (l_pos l) = measure_body (l_chars l) quote triple raw (l_pos l')"
proof -
  obtain l1 hi lo where h: "hex_digit l = (l1, Ok hi)" "hex_digit l1 = (l', Ok lo)"
    using assms(1) by (auto simp: hex_byte_def split: prod.splits sum.splits)
  show ?thesis using hex_digit_Ok [OF h(1)] hex_digit_Ok [OF h(2)] measure_body_hex [OF assms(2)] by auto
qed

lemma byte_step_extent:
  assumes "byte_step open_sp l = (l', Ok b)" "is_quote quote" "\<not> at_close quote triple l" "\<not> is_at_end l" "triple \<or> peek l \<noteq> c_nl"
  shows "measure_body (l_chars l) quote triple False (l_pos l) = measure_body (l_chars l) quote triple False (l_pos l')"
proof (cases "peek l = c_backslash")
  case True
  let ?l2 = "advance (advance l)"
  have e: "measure_body (l_chars l) quote triple False (l_pos l) = measure_body (l_chars l) quote triple False (l_pos l + 2)"
    using measure_body_escape [OF assms(2)] at_peek [OF assms(4)] True by simp
  consider "l_pos l' = l_pos l + 2" | "hex_byte ?l2 = (l', Ok b)"
    using assms(1) True
    by (auto simp: byte_step_def lex_byte_escape_def Let_def advance_def move_def split: if_splits option.splits)
  then show ?thesis using e hex_byte_Ok [of ?l2 l' b quote triple False] assms(2)
    by cases (simp_all add: advance_def move_def)
next
  case False
  then have "l_pos l' = l_pos l + 1" using assms(1) by (auto simp: byte_step_def Let_def)
  then show ?thesis using measure_body_text [OF at_peek [OF assms(4)]] False assms(2,3,5) by (auto simp: closes_at_close)
qed

lemma byte_loop_mono: "byte_loop quote triple open_sp bytes l = (l', r) \<Longrightarrow> l_chars l' = l_chars l \<and> l_pos l \<le> l_pos l'"
proof (induction quote triple open_sp bytes l rule: byte_loop.induct)
  case (1 quote triple open_sp bytes l)
  show ?case
  proof (cases "at_close quote triple l \<or> is_at_end l")
    case True
    then show ?thesis using "1.prems" by (auto simp: byte_loop.simps [of quote triple open_sp bytes l] move_def split: if_splits)
  next
    case False
    obtain l1 r1 where s: "byte_step open_sp l = (l1, r1)" by force
    show ?thesis using False byte_step_progress [OF s] "1.IH" s "1.prems"
      by (cases r1) (fastforce simp: byte_loop.simps [of quote triple open_sp bytes l])+
  qed
qed

lemma byte_loop_extent:
  assumes "byte_loop quote triple open_sp bytes l = (l', Ok t)" "is_quote quote"
    "triple \<or> c_nl \<notin> set (drop (l_pos l) (take (l_pos l') (l_chars l)))"
  shows "l_pos l' = measure_body (l_chars l) quote triple False (l_pos l)"
  using assms
proof (induction quote triple open_sp bytes l rule: byte_loop.induct)
  case (1 quote triple open_sp bytes l)
  note step = byte_loop.simps [of quote triple open_sp bytes l]
  show ?case
  proof (cases "at_close quote triple l")
    case True
    then show ?thesis using "1.prems"(1,2) measure_body_close [of quote] by (auto simp: step closes_at_close move_def)
  next
    case False
    then have 2: "\<not> is_at_end l" using "1.prems"(1) by (auto simp: step split: if_splits)
    obtain l1 b where b: "byte_step open_sp l = (l1, Inr b)" and r: "byte_loop quote triple open_sp (bytes @ [b]) l1 = (l', Ok t)"
      using "1.prems"(1) False 2 by (auto simp: step split: prod.splits sum.splits)
    have l1: "l_chars l1 = l_chars l" "l_pos l < l_pos l1" "l_pos l1 \<le> l_pos l'"
      using byte_step_progress [OF b] byte_loop_mono [OF r] by auto
    have "drop (l_pos l) (take (l_pos l') (l_chars l)) =
        peek l # drop (l_pos l + 1) (take (l_pos l') (l_chars l))"
      using at_peek [OF 2] l1 2 by (simp add: at_def is_at_end_def Cons_nth_drop_Suc [symmetric] split: if_splits)
    then have nl: "triple \<or> peek l \<noteq> c_nl" "triple \<or> c_nl \<notin> set (drop (l_pos l1) (take (l_pos l') (l_chars l)))"
      using "1.prems"(3) set_drop_subset_set_drop [of "l_pos l + 1" "l_pos l1" "take (l_pos l') (l_chars l)"] l1 by auto
    have "l_pos l' = measure_body (l_chars l1) quote triple False (l_pos l1)"
      using "1.IH" [OF False 2 b [symmetric] refl r "1.prems"(2)] nl(2) l1(1) by simp
    then show ?thesis using byte_step_extent [OF b "1.prems"(2) False 2 nl(1)] l1(1) by simp
  qed
qed

lemma open_literal_at:
  assumes "open_literal quote l = (l1, triple)" "is_quote quote"
  shows "triple = (at (l_chars l) (l_pos l) = Some quote \<and> at (l_chars l) (l_pos l + 1) = Some quote)"
    "l_pos l1 + 1 = l_pos l + close_width triple" "l_chars l1 = l_chars l"
  using assms peek_at [of quote l] peek_next_at [of quote l]
  by (auto simp: open_literal_def triple_here_def is_quote_def move_def close_width_def split: if_splits)

lemma measure_string_prefixed:
  assumes "at chars start = Some c" "c \<in> {c_b, c_B, c_r, c_R}" "at chars (start + 1) = Some quote" "is_quote quote"
    "triple = (at chars (start + 2) = Some quote \<and> at chars (start + 3) = Some quote)"
  shows "start + measure_string chars start =
    max start (measure_body chars quote triple (c = c_r \<or> c = c_R) (start + 1 + close_width triple))"
  using assms by (simp add: measure_string_def at_some_def Let_def eval_nat_numeral)

lemma measure_body_ge: "i \<le> measure_body chars quote triple raw i"
proof (induction chars quote triple raw i rule: measure_body.induct)
  case (1 chars quote triple raw i)
  show ?case using "1.IH" by (subst measure_body.simps) (auto intro: Suc_leD)
qed

text \<open>Both kinds of literal without holes, past their prefix: \<open>raw\<close> tells which.\<close>

lemma prefixed_extent:
  assumes "at (l_chars l) (l_pos l) = Some c" "c \<in> {c_b, c_B, c_r, c_R}" "is_quote (peek (advance l))"
    "open_literal (peek (advance l)) (advance (advance l)) = (l1, triple)" "raw = (c = c_r \<or> c = c_R)"
    "(if raw then raw_string (peek (advance l)) triple l1 else byte_string (peek (advance l)) triple l1) = (l', Ok t)"
    "c_nl \<notin> set (drop (l_pos l) (take (l_pos l') (l_chars l)))"
  shows "l_pos l' = l_pos l + measure_string (l_chars l) (l_pos l)"
proof -
  let ?q = "peek (advance l)"
  note o = open_literal_at [OF assms(4,3)]
  have l1: "l_chars l1 = l_chars l" "l_pos l1 = l_pos l + 1 + close_width triple"
    using o by (simp_all add: advance_def move_def)
  have q: "at (l_chars l) (l_pos l + 1) = Some ?q"
    using assms(3) peek_at [of ?q "advance l"] by (auto simp: is_quote_def advance_def move_def)
  have nl: "c_nl \<notin> set (drop (l_pos l1) (take (l_pos l') (l_chars l1)))"
    using assms(7) set_drop_subset_set_drop [of "l_pos l" "l_pos l1" "take (l_pos l') (l_chars l)"] l1 by auto
  have "l_pos l' = measure_body (l_chars l1) ?q triple raw (l_pos l1)"
  proof (cases raw)
    case True
    then obtain ct where "raw_loop ?q triple [] l1 = (l', Some ct)"
      using assms(6) by (auto simp: raw_string_def Let_def split: prod.splits option.splits)
    then show ?thesis using raw_loop_extent [OF _ assms(3)] nl True by simp
  next
    case False
    then show ?thesis using byte_loop_extent [of ?q triple _ "[]" l1 l' t] assms(3,6) nl by (simp add: byte_string_def)
  qed
  moreover have "l_pos l + measure_string (l_chars l) (l_pos l) = max (l_pos l) (measure_body (l_chars l) ?q triple raw (l_pos l1))"
    unfolding assms(5) l1(2) by (rule measure_string_prefixed [OF assms(1,2) q assms(3)])
      (use o in \<open>simp add: advance_def move_def eval_nat_numeral\<close>)
  ultimately show ?thesis using l1 measure_body_ge [of "l_pos l1" "l_chars l" ?q triple raw] by simp
qed

lemma munch_cases: "munch l alts short = (l', t) \<Longrightarrow> t = short \<or> t \<in> snd ` set alts"
  by (induction l alts short rule: munch.induct) (auto split: if_splits)

lemma scan_punct_PUNCTUATION: "scan_punct c l = Some (l', t) \<Longrightarrow> t \<in> set PUNCTUATION"
  by (auto simp: scan_punct_def PUNCTUATION_def shift_op_def dots_def colon_def open_bracket_def close_bracket_def
      split: if_splits dest!: munch_cases)

lemma question_PUNCTUATION: "question u start l = (l', Ok t) \<Longrightarrow> t \<in> set PUNCTUATION"
  by (auto simp: question_def Let_def PUNCTUATION_def split: if_splits)

lemma identifier_extent:
  assumes "lex_identifier u start l = (l', t)" "l_pos l = start + 1" "at_some (is_word u) (l_chars l) start"
  shows "l_pos l' = run_from (is_word u) (l_chars l) start"
  using assms run_from_step [OF assms(3)] by (auto simp: lex_identifier_def Let_def run_from_def rest_def)

lemma scan_kind_cases:
  assumes "scan_kind u nt c start l = Some (l', Ok t)" "t \<notin> set PUNCTUATION" "\<not> is_quote c"
  obtains raw l1 triple where "c \<in> {c_b, c_B, c_r, c_R}" "is_quote (peek l)" "raw = (c = c_r \<or> c = c_R)"
      "open_literal (peek l) (advance l) = (l1, triple)"
      "(if raw then raw_string (peek l) triple l1 else byte_string (peek l) triple l1) = (l', Ok t)"
  | "\<not> (c \<in> {c_b, c_B, c_r, c_R} \<and> is_quote (peek l))" "ascii_digit c" "number u start l = (l', Ok t)"
  | "\<not> (c \<in> {c_b, c_B, c_r, c_R} \<and> is_quote (peek l))" "\<not> ascii_digit c" "is_alphabetic u c \<or> c = c_underscore"
      "lex_identifier u start l = (l', t)"
proof -
  have p: "scan_punct c l = None" using assms(1,2) scan_punct_PUNCTUATION
    by (cases "scan_punct c l") (auto simp: scan_kind_def)
  have q: "c \<noteq> c_question" using assms(1,2) question_PUNCTUATION p by (auto simp: scan_kind_def)
  obtain l1 triple where o: "open_literal (peek l) (advance l) = (l1, triple)" by force
  note k = assms(1) [unfolded scan_kind_def p option.case if_not_P [OF q] if_not_P [OF assms(3)] o prod.case]
  consider "(c = c_b \<or> c = c_B) \<and> is_quote (peek l)" | "(c = c_r \<or> c = c_R) \<and> is_quote (peek l)"
    | "\<not> (c \<in> {c_b, c_B, c_r, c_R} \<and> is_quote (peek l))" "ascii_digit c"
    | "\<not> (c \<in> {c_b, c_B, c_r, c_R} \<and> is_quote (peek l))" "\<not> ascii_digit c" by blast
  then show thesis
  proof cases
    case 1
    then show thesis using k by (intro that(1) [OF _ _ refl o]) auto
  next
    case 2
    then show thesis using k by (intro that(1) [OF _ _ refl o]) auto
  next
    case 3
    then show thesis using k by (intro that(2)) auto
  next
    case 4
    then show thesis using k by (intro that(3)) (auto split: if_splits prod.splits)
  qed
qed

text \<open>
  C25. The end that a diagnostic's caret and the editor's ranges compute for a token on a line, by a scan of
  their own, is where the lexer ends that token: for every name, keyword, number, byte string and raw
  string the lexer accepts. The exception is the number after a dot, which the lexer reads as a field index.
\<close>

theorem token_end_lexed:
  assumes "\<not> is_at_end l" "scan_kind u nt (peek l) (l_pos l) (advance l) = Some (l', Ok t)"
    "t \<notin> set PUNCTUATION" "\<not> is_quote (peek l)" "\<not> (ascii_digit (peek l) \<and> field_index l (l_pos l))"
    "c_nl \<notin> set (drop (l_pos l) (take (l_pos l') (l_chars l)))"
  shows "l_pos l' = token_end u (l_chars l) (l_pos l)"
proof -
  let ?c = "peek l" and ?pre = "\<lambda>c. c \<in> {c_b, c_B, c_r, c_R}"
  have c: "at (l_chars l) (l_pos l) = Some ?c" using at_peek assms(1) by blast
  have here: "at_some P (l_chars l) (l_pos l) = P ?c" for P using c by (simp add: at_some_def)
  have quote: "at_some is_quote (l_chars l) (l_pos l + 1) = is_quote (peek (advance l))"
    using peek_sat [of is_quote "advance l"] by (simp add: is_quote_def advance_def move_def)
  have adv: "l_chars (advance l) = l_chars l" "l_pos (advance l) = l_pos l + 1" by (simp_all add: advance_def move_def)
  note te = token_end_def [of u "l_chars l" "l_pos l", unfolded here quote if_not_P [OF assms(4)]]
  from assms(2,3,4) show ?thesis
  proof (cases rule: scan_kind_cases)
    case (1 raw l1 triple)
    then show ?thesis using prefixed_extent [OF c 1(1,2,4,3,5) assms(6)] by (simp add: te)
  next
    case 2
    have "field_index (advance l) (l_pos l) = field_index l (l_pos l)" by (simp add: field_index_def adv)
    then show ?thesis using number_extent [OF 2(3) adv(2)] 2(1,2) assms(5) here by (auto simp: te adv)
  next
    case 3
    have "is_word u ?c" using 3(3) by (auto simp: is_word_def is_alphabetic_def is_alphanumeric_def ascii_alnum_def split: if_splits)
    then show ?thesis using identifier_extent [OF 3(4) adv(2)] 3(1,2) here by (auto simp: te adv)
  qed
qed

definition ascii_tables :: unicode where
  "ascii_tables = \<lparr>wide_alphabetic = \<lambda>_. False, wide_numeric = \<lambda>_. False, wide_whitespace = \<lambda>_. False,
     debug_char = \<lambda>c. [c], parse_f64 = \<lambda>_. Ok 0\<rparr>"

definition sample_line :: lexer where
  "sample_line = new_file [98, 39, 97, 92, 120, 52, 49, 39, 32, 43, 32, 121] 0"

lemmas cursor_eval = new_file_def source_chars_def strip_bom_def move_def advance_def peek_def peek_next_def
  char_at_def is_at_end_def take_text_def

theorem token_end_lexed_witness:
  "byte_string 39 False (move 2 sample_line) = (move 8 sample_line, Ok (T_Bytes [97, 65])) \<and>
   l_pos (move 8 sample_line) = token_end ascii_tables (l_chars sample_line) 0"
proof -
  have b: "byte_string 39 False (move 2 sample_line) = (move 8 sample_line, Ok (T_Bytes [97, 65]))"
    by (simp add: byte_string_def byte_loop.simps sample_line_def cursor_eval at_close_def close_width_def byte_step_def
        push_raw_byte_def lex_byte_escape_def simple_escape_def hex_byte_def hex_digit_def to_digit16_def)
  have f: "\<not> is_at_end sample_line" "peek sample_line = 98" "l_pos sample_line = 0" "peek (advance sample_line) = 39"
    "advance (advance sample_line) = move 2 sample_line" "open_literal 39 (move 2 sample_line) = (move 2 sample_line, False)"
    "c_nl \<notin> set (drop 0 (take (l_pos (move 8 sample_line)) (l_chars sample_line)))"
    by (simp_all add: sample_line_def cursor_eval open_literal_def triple_here_def)
  have "scan_kind ascii_tables (\<lambda>_. None) 98 0 (advance sample_line) = Some (move 8 sample_line, Ok (T_Bytes [97, 65]))"
    using b f by (simp add: scan_kind_def scan_punct_def is_quote_def)
  then show ?thesis
    using token_end_lexed [of sample_line ascii_tables "\<lambda>_. None" "move 8 sample_line" "T_Bytes [97, 65]"] f b
    by (simp add: PUNCTUATION_def is_quote_def ascii_digit_def)
qed

text \<open>After a dot the two differ: in \<^verbatim>\<open>t.0.1\<close> the lexer takes the index \<^verbatim>\<open>0\<close>, the caret runs to the end of \<^verbatim>\<open>0.1\<close>.\<close>

lemma field_index_measured:
  "fst (number u 2 (move 3 (new_file [116, 46, 48, 46, 49] 0))) = move 3 (new_file [116, 46, 48, 46, 49] 0)"
  "2 + measure_number [116, 46, 48, 46, 49] 2 = 5"
proof -
  show "2 + measure_number [116, 46, 48, 46, 49] 2 = 5" by code_simp
  let ?l = "move 3 (new_file [116, 46, 48, 46, 49] 0)"
  have "field_index ?l 2" "radix_of_marker (peek ?l) = None" "advance_while digit_or_underscore ?l = ?l"
    by (simp_all add: field_index_def cursor_eval radix_of_marker_def advance_while_def rest_def digit_or_underscore_def ascii_digit_def)
  then have "number u 2 ?l = finish_number u 2 False ?l" by (simp add: number_def)
  then show "fst (number u 2 ?l) = ?l" using finish_number_pos by (metis prod.collapse)
qed

subsection \<open>The longest operator\<close>

definition spelling :: "token \<Rightarrow> nat list" where
  "spelling t = (case lexeme t of Some s \<Rightarrow> codes s | None \<Rightarrow> [])"

lemmas munch_simps = scan_punct_def shift_op_def dots_def colon_def open_bracket_def close_bracket_def

text \<open>The tokens whose spelling starts with \<open>c\<close>.\<close>

definition family :: "nat \<Rightarrow> token list" where
  "family c = filter (\<lambda>s. hd (spelling s) = c) PUNCTUATION"

lemma spelling_nonempty: "s \<in> set PUNCTUATION \<Longrightarrow> spelling s \<noteq> []"
  by (auto simp: PUNCTUATION_def spelling_def codes_def)

lemma family_prefix: "s \<in> set PUNCTUATION \<Longrightarrow> prefix (spelling s) (c # cs) \<Longrightarrow> s \<in> set (family c)"
  using spelling_nonempty [of s] by (cases "spelling s") (auto simp: family_def)

lemma family_simps:
  "family 43 = map T_Op [P_Plus, P_PlusEq]"
  "family 45 = map T_Op [P_Minus, P_MinusEq, P_Arrow]"
  "family 42 = map T_Op [P_Star, P_StarEq]"
  "family 47 = map T_Op [P_Slash, P_SlashEq]"
  "family 37 = map T_Op [P_Percent, P_PercentEq]"
  "family 58 = [T_Op P_Walrus, T_Delim D_Colon]"
  "family 61 = map T_Op [P_Assign, P_EqEq]"
  "family 33 = map T_Op [P_NotEq, P_Bang]"
  "family 60 = map T_Op [P_Lt, P_LtEq, P_ShlEq, P_Shl]"
  "family 62 = map T_Op [P_Gt, P_GtEq, P_ShrEq, P_Shr]"
  "family 124 = map T_Op [P_PipeEq, P_Pipe, P_BitOr]"
  "family 38 = map T_Op [P_AmpEq, P_Amp]"
  "family 94 = map T_Op [P_CaretEq, P_Caret]"
  "family 40 = [T_Delim D_LParen]" "family 91 = [T_Delim D_LBracket]" "family 123 = [T_Delim D_LBrace]"
  "family 41 = [T_Delim D_RParen]" "family 93 = [T_Delim D_RBracket]" "family 125 = [T_Delim D_RBrace]"
  "family 44 = [T_Delim D_Comma]"
  "family 46 = map T_Delim [D_Dot, D_DotDot, D_DotDotEq, D_DotDotDot]"
  by (simp_all add: family_def PUNCTUATION_def spelling_def codes_def)

lemma munch_longest:
  assumes "rest l = cs" "l_hole_base l = 0" "scan_punct c l = Some (l', t)"
  shows "l_pos l' = l_pos l + length (spelling t) - 1 \<and> prefix (spelling t) (c # cs) \<and>
     list_all (\<lambda>s. prefix (spelling s) (c # cs) \<longrightarrow> length (spelling s) \<le> length (spelling t)) (family c)"
proof -
  have p: "peek l = (case cs of d # _ \<Rightarrow> d | [] \<Rightarrow> 0)" using assms(1) by (simp add: peek_rest)
  have p1: "peek (advance l) = (case cs of _ # d # _ \<Rightarrow> d | _ \<Rightarrow> 0)"
    using assms(1) by (auto simp: peek_rest rest_def advance_def move_def drop_Suc drop_tl split: list.splits)
  have a: "l_pos (advance l) = l_pos l + 1" for l by (simp add: advance_def move_def)
  note q = assms(3) [unfolded munch_simps munch.simps p p1]
  show ?thesis
  proof (cases cs)
    case Nil
    then show ?thesis using q assms(2) by (auto simp: family_simps spelling_def codes_def a split: if_splits)
  next
    case (Cons d ds)
    then show ?thesis using q assms(2)
      by (cases ds) (auto simp: family_simps spelling_def codes_def a split: if_splits)
  qed
qed


end
