(* ===== verification/Literals.thy ===== *)
theory Literals
  imports SliceRange LexerTools
begin

text \<open>
  Printed values read back by the lexer: the composition of \<^verbatim>\<open>src/src/slice.rs\<close> and the integer printer with
  \<^verbatim>\<open>src/src/lexer/mod.rs\<close>. A source that is one token is lexed as that token, the newline every file ends
  in, and Eof.
\<close>

subsection \<open>A source of one token\<close>

lemma rest_move: "rest (move n l) = drop n (rest l)"
  by (simp add: rest_def move_def add.commute)

lemma rest_new_file: "rest (new_file s f) = source_chars s"
  by (simp add: rest_def new_file_def)

lemma source_chars_id: "13 \<notin> set s \<Longrightarrow> s = [] \<or> hd s \<noteq> 65279 \<Longrightarrow> source_chars s = s"
proof -
  have "13 \<notin> set cs \<Longrightarrow> join_crlf cs = cs" for cs by (induction cs rule: join_crlf.induct) auto
  then show "13 \<notin> set s \<Longrightarrow> s = [] \<or> hd s \<noteq> 65279 \<Longrightarrow> source_chars s = s" by (auto simp: source_chars_def strip_bom_def)
qed

lemma skip_inline_here: "peek l \<notin> {9, 13, 32, 35} \<Longrightarrow> skip_inline l = l"
  by (simp add: skip_inline.simps [of l])

lemma skip_blank_here: "peek l \<notin> {9, 10, 32, 35} \<Longrightarrow> skip_blank l = l"
  by (cases "rest l") (auto simp: skip_blank_def Let_def peek_rest move_def)

lemma indent_line_here:
  assumes "rest l = c # cs" "c \<notin> {9, 10, 13, 32, 35}"
  shows "indent_line l = Content l 0"
proof -
  have "peek l = c" "\<not> is_at_end l" using assms(1) rest_Nil_iff [of l] by (auto simp: peek_rest)
  then show ?thesis using skip_blank_here [of l] assms by (simp add: indent_line_def Let_def advance_while_def move_def)
qed

lemma indent_line_end: "is_at_end l \<Longrightarrow> indent_line l = At_End l"
  using rest_Nil_iff [of l] skip_blank_here [of l]
  by (auto simp: indent_line_def Let_def advance_while_def move_def peek_rest)

text \<open>Where the lexer stands after the only token: the end of the input, at the left margin.\<close>

definition finished :: "lexer \<Rightarrow> bool" where
  "finished l \<longleftrightarrow> is_at_end l \<and> l_indents l = [0] \<and> l_pending l = [] \<and> l_bracket_depth l = 0"

lemma finished_layout:
  assumes "finished l"
  shows "layout_round l =
    (if l_at_line_start l then Emit l (Tok Eof (span_at l (l_pos l)) None)
     else Emit (l\<lparr>l_at_line_start := True\<rparr>) (Tok Newline (span_at l (l_pos l)) None))"
proof -
  have "rest l = []" "is_at_end l" using assms rest_Nil_iff by (auto simp: finished_def)
  then have "skip_inline l = l" using skip_inline_here [of l] by (simp add: peek_rest)
  moreover have "scan_indentation l = (l, Ok None)"
    using indent_line_end [OF \<open>is_at_end l\<close>] by (simp add: scan_indentation.simps [of l])
  ultimately show ?thesis using assms by (simp add: layout_round_def after_indent_def at_input_end_def finished_def)
qed

lemma next_token_finished:
  assumes "finished l"
  shows "next_token u n l = Some
    (if l_at_line_start l then (l\<lparr>l_after_operand := False\<rparr>, Ok (Tok Eof (span_at l (l_pos l)) None))
     else (l\<lparr>l_at_line_start := True, l_after_operand := False\<rparr>, Ok (Tok Newline (span_at l (l_pos l)) None)))"
  using assms finished_layout [OF assms]
  by (simp add: next_token_step scan_token_def scan_layout.simps [of l] finished_def note_operand_def)

lemma token_loop_finished:
  assumes "finished l" "\<not> l_at_line_start l"
  shows "token_loop u (Suc (Suc k)) toks l =
    Some (Ok (toks @ [Tok Newline (span_at l (l_pos l)) None, Tok Eof (span_at l (l_pos l)) None], l_doc_comments l))"
proof -
  let ?l = "l\<lparr>l_at_line_start := True, l_after_operand := False\<rparr>"
  have "finished ?l" using assms(1) by (simp add: finished_def is_at_end_def)
  then show ?thesis using next_token_finished [OF assms(1), of u] next_token_finished [of ?l u] assms(2)
    by (simp add: span_at_def)
qed

lemma tokenize_single:
  assumes s: "s = c # cs" "source_chars s = s" "c \<notin> {9, 10, 13, 32, 35}"
    and k: "\<And>l nt. rest l = s \<Longrightarrow> l_pos l = 0 \<Longrightarrow>
      \<exists>r'. scan_kind u nt c 0 (advance l) = Some (move (length s) l, r') \<and> map_sum e_message id r' = r"
    and no: "r \<noteq> Ok Eof"
  shows "map_option (map_sum e_message (map tok_kind)) (tokenize u s) = Some (map_sum id (\<lambda>k. [k, Newline, Eof]) r)"
proof -
  define l where "l = new_file s 0"
  let ?l1 = "l\<lparr>l_at_line_start := False, l_pending := []\<rparr>"
  have l: "l_chars l = s" "l_pos l = 0" "l_indents l = [0]" "l_at_line_start l" "l_pending l = []" "l_bracket_depth l = 0"
    by (simp_all add: l_def new_file_def s(2))
  have comm: "l\<lparr>l_pending := [], l_at_line_start := False\<rparr> = ?l1" by (cases l) simp
  have r: "rest l = s" "rest ?l1 = s" by (simp_all add: rest_def l)
  have p: "peek l = c" "peek ?l1 = c" using r s(1) by (simp_all add: peek_rest)
  have "scan_indentation l = (l, Ok (Some []))"
    using indent_line_here [OF r(1) [unfolded s(1)] s(3)] by (simp add: scan_indentation.simps [of l] indent_step_def l)
  moreover have "skip_inline ?l1 = ?l1" "\<not> is_at_end ?l1" "peek ?l1 \<noteq> 10"
    using skip_inline_here [of ?l1] s(1,3) p r(2) rest_Nil_iff [of ?l1] by auto
  ultimately have "layout_round l = Real ?l1" by (simp add: layout_round_def after_indent_def Let_def l)
  then have "scan_token u nt l = scan_real u nt ?l1" for nt
    by (simp add: scan_token_def scan_layout.simps [of l] l)
  moreover have "\<exists>t. scan_real u nt ?l1 = Some (move (length s) ?l1, t) \<and> map_sum e_message tok_kind t = r" for nt
  proof -
    obtain r' where r': "scan_kind u nt c 0 (advance ?l1) = Some (move (length s) ?l1, r')" "map_sum e_message id r' = r"
      using k [OF r(2)] l by auto
    then show ?thesis using p by (cases r') (auto simp: scan_real_def Let_def l comm)
  qed
  ultimately obtain t where t: "scan_token u (step_below u MAX_HOLE_NEST) l = Some (move (length s) ?l1, t)" "map_sum e_message tok_kind t = r"
    by metis
  obtain m where m: "token_bound l + 1 = Suc (Suc (Suc m))" using s(1) by (simp add: token_bound_def remaining_def l)
  show ?thesis
  proof (cases t)
    case (Inl e)
    then have "next_token u MAX_HOLE_NEST l = Some (move (length s) ?l1, Err e)" by (simp add: next_token_step t note_operand_def)
    then show ?thesis unfolding tokenize_def tokenize_with_comments_def Let_def l_def [symmetric] m using Inl t(2) by auto
  next
    case (Inr t')
    then obtain b where n: "next_token u MAX_HOLE_NEST l = Some ((move (length s) ?l1)\<lparr>l_after_operand := b\<rparr>, Ok t')"
      by (simp add: next_token_step t note_operand_def)
    let ?l2 = "(move (length s) ?l1)\<lparr>l_after_operand := b\<rparr>"
    have "finished ?l2" "\<not> l_at_line_start ?l2" by (simp_all add: finished_def is_at_end_def l move_def)
    then show ?thesis unfolding tokenize_def tokenize_with_comments_def Let_def l_def [symmetric] m
      using n no Inr t(2) token_loop_finished [of ?l2 u m "[t']"] by auto
  qed
qed

subsection \<open>Bytes\<close>

lemma peek_hd: "rest l = c # cs \<Longrightarrow> peek l = c \<and> \<not> is_at_end l"
  using rest_Nil_iff [of l] by (simp add: peek_rest)

lemma move_simps: "move m (move n l) = move (n + m) l" "advance l = move 1 l" "move 0 l = l"
  by (simp_all add: move_def advance_def add.assoc)

lemma hex_digit_reads: "rest l = hex_lower d # cs \<Longrightarrow> d < 16 \<Longrightarrow> hex_digit l = (move 1 l, Ok d)"
  using peek_hd [of l] by (simp add: hex_digit_def advance_def)

lemma hex_byte_reads:
  assumes "rest l = hex_pad 2 n @ cs" "n < 256"
  shows "hex_byte l = (move 2 l, Ok (of_nat n))"
proof -
  have d: "n div 16 < 16" "n mod 16 < 16" using assms(2) by (simp_all add: less_mult_imp_div_less)
  have l: "rest l = hex_lower (n div 16) # hex_lower (n mod 16) # cs" using assms d by (simp add: numeral_2_eq_2)
  have "hex_digit l = (move 1 l, Ok (n div 16))" "hex_digit (move 1 l) = (move 1 (move 1 l), Ok (n mod 16))"
    using hex_digit_reads [OF l d(1)] hex_digit_reads [OF _ d(2), of "move 1 l"] l by (simp_all add: rest_move)
  moreover have "of_nat (n div 16 * 16 + n mod 16) = (of_nat n :: u8)" by simp
  ultimately show ?thesis by (simp only: hex_byte_def prod.case sum.case move_simps one_add_one)
qed

lemma byte_escape_cases:
  obtains c d where "byte_escape al quote b = [92, c]" "simple_escape c = Some d" "b = of_nat d" "c \<noteq> 120"
  | "byte_escape al quote b = [unat b]" "unat b \<noteq> 92" "unat b \<noteq> 10" "unat b \<le> 0x7F"
  | "byte_escape al quote b = [92, 120] @ hex_pad 2 (unat b)"
proof -
  consider "b = 10" | "b = 9" | "b = 13" | "b = 92" | "b = 39" "al \<or> quote = 39"
    | "b \<notin> {10, 9, 13, 92}" "\<not> (b = 39 \<and> (al \<or> quote = 39))" "0x20 \<le> b \<and> b \<le> 0x7E"
    | "b \<notin> {10, 9, 13, 92}" "\<not> (b = 39 \<and> (al \<or> quote = 39))" "\<not> (0x20 \<le> b \<and> b \<le> 0x7E)" by blast
  then show thesis
  proof cases
    case 6
    then show thesis by (intro that(2)) (auto simp: byte_escape_def word_unat_eq_iff word_le_nat_alt)
  next
    case 7
    then show thesis by (intro that(3)) (auto simp: byte_escape_def)
  qed (rule that(1) [of 110 10] that(1) [of 116 9] that(1) [of 114 13] that(1) [of 92 92] that(1) [of 39 39];
       simp add: byte_escape_def simple_escape_def; fail)+
qed

lemma byte_step_reads:
  assumes "rest l = byte_escape al quote b @ cs" "quote = 39 \<or> quote = 34"
  shows "byte_step sp l = (move (length (byte_escape al quote b)) l, Ok b)"
proof -
  have lt: "unat b < 256" using unsigned_less [of b, where ?'a = nat] by simp
  have four: "move (Suc (Suc (Suc (Suc 0)))) l = move 4 l" by (simp add: numeral_eq_Suc)
  show ?thesis
  proof (cases rule: byte_escape_cases [of al quote b])
    case (1 c d)
    then show ?thesis using peek_hd [of l 92] peek_hd [of "move 1 l" c cs] assms(1)
      by (simp add: byte_step_def lex_byte_escape_def Let_def rest_move move_simps numeral_2_eq_2)
  next
    case 2
    then show ?thesis using peek_hd [of l "unat b"] assms(1)
      by (simp add: byte_step_def take_text_def push_raw_byte_def move_simps)
  next
    case 3
    have "rest (move 2 l) = hex_pad 2 (unat b) @ cs" using 3 assms(1) by (simp add: rest_move numeral_2_eq_2)
    from hex_byte_reads [OF this lt, unfolded numeral_2_eq_2]
    show ?thesis using peek_hd [of l 92] peek_hd [of "move 1 l" 120] assms(1) 3
      by (simp add: byte_step_def lex_byte_escape_def Let_def rest_move move_simps simple_escape_def four)
  qed
qed

lemma byte_loop_reads:
  assumes "rest l = concat (map (byte_escape al quote) bs) @ [quote]" "quote = 39 \<or> quote = 34"
    "quote = 34 \<longrightarrow> 34 \<notin> set bs"
  shows "byte_loop quote False sp acc l = (move (length (rest l)) l, Ok (T_Bytes (acc @ bs)))"
  using assms(1,3)
proof (induction bs arbitrary: acc l)
  case Nil
  then have "at_close quote False l" using peek_hd [of l quote] by (simp add: at_close_def)
  then show ?case using Nil by (simp add: byte_loop.simps [of quote False] close_width_def)
next
  case (Cons b bs)
  let ?e = "byte_escape al quote b" and ?r = "concat (map (byte_escape al quote) bs) @ [quote]"
  have r: "rest l = ?e @ ?r" using Cons.prems(1) by simp
  have "hd ?e \<noteq> quote" "?e \<noteq> []" using assms(2) Cons.prems(2)
    by (auto simp: byte_escape_def word_unat_eq_iff split: if_splits)
  then obtain c e' where e: "?e = c # e'" "c \<noteq> quote" by (cases ?e) auto
  then have "\<not> at_close quote False l" "\<not> is_at_end l" using peek_hd [of l c] r by (auto simp: at_close_def)
  moreover have "byte_loop quote False sp (acc @ [b]) (move (length ?e) l) =
      (move (length (rest l)) l, Ok (T_Bytes (acc @ b # bs)))"
    using Cons.IH [of "move (length ?e) l" "acc @ [b]"] Cons.prems(2) r by (simp add: rest_move move_simps)
  ultimately show ?case using byte_step_reads [OF r assms(2)] by (simp add: byte_loop.simps [of quote False])
qed

lemma hex_pad_chars: "c \<in> set (hex_pad w n) \<Longrightarrow> 48 \<le> c \<and> c \<le> 102"
proof (induction w arbitrary: n)
  case (Suc w)
  have "n mod 16 < 16" by simp
  then show ?case using Suc by (auto simp: hex_lower_def)
qed simp

lemma byte_escape_chars: "13 \<notin> set (byte_escape al quote b)"
  using hex_pad_chars [of 13 2 "unat b"] by (auto simp: byte_escape_def word_unat_eq_iff split: if_splits)

lemma byte_escape_hd:
  "quote = 39 \<or> quote = 34 \<Longrightarrow> quote = 34 \<longrightarrow> b \<noteq> 34 \<Longrightarrow> \<exists>c cs. byte_escape al quote b = c # cs \<and> c \<noteq> quote"
  by (cases "byte_escape al quote b") (auto simp: byte_escape_def word_unat_eq_iff split: if_splits)

lemma open_bytes_body:
  assumes "rest l = concat (map (byte_escape al quote) bs) @ [quote]" "quote = 39 \<or> quote = 34" "quote = 34 \<longrightarrow> 34 \<notin> set bs"
  shows "open_literal quote l = (l, False)"
proof (cases bs)
  case Nil
  then have "rest l = [quote]" using assms(1) by simp
  then have "length (rest l) = 1" by simp
  then have "peek_next l = 0" by (auto simp: peek_next_def char_at_def rest_def)
  then show ?thesis using assms(2) by (auto simp: open_literal_def triple_here_def)
next
  case (Cons b bs')
  then obtain c cs where "rest l = c # cs" "c \<noteq> quote"
    using assms byte_escape_hd [of quote b al] by fastforce
  then show ?thesis using peek_hd [of l c] by (simp add: open_literal_def triple_here_def)
qed

lemma bytes_repr_scan:
  assumes "rest l = bytes_repr_quoted bs al" "l_pos l = 0"
  shows "scan_kind u nt 98 0 (advance l) = Some (move (length (rest l)) l, Ok (T_Bytes bs))"
proof -
  define quote where "quote = repr_quote (39 \<in> set bs) (34 \<in> set bs)"
  have q: "quote = 39 \<or> quote = 34" "quote = 34 \<longrightarrow> 34 \<notin> set bs" "is_quote quote"
    by (auto simp: quote_def repr_quote_def is_quote_def)
  have r: "rest l = 98 # quote # concat (map (byte_escape al quote) bs) @ [quote]"
    using assms(1) by (simp add: bytes_repr_quoted_def quote_def Let_def)
  have r2: "rest (move 2 l) = concat (map (byte_escape al quote) bs) @ [quote]" by (simp add: rest_move r)
  have p: "peek (advance l) = quote" "advance (advance l) = move 2 l"
    using peek_hd [of "move 1 l" quote] by (simp_all add: move_simps rest_move r numeral_2_eq_2)
  have "byte_string quote False (move 2 l) = (move (length (rest l)) l, Ok (T_Bytes bs))"
    using byte_loop_reads [OF r2 q(1,2), of _ "[]"] by (simp add: byte_string_def r2) (simp add: r move_simps)
  then show ?thesis using open_bytes_body [OF r2 q(1,2)] q(3)
    by (simp add: scan_kind_def scan_punct_def p is_quote_def)
qed

text \<open>
  C24. The text printed for a bytes value is a literal of the language that denotes it: lexed as a source, it is
  the one token with those bytes, whatever the bytes are.
\<close>

theorem bytes_literal_roundtrip:
  "map_option (map_sum e_message (map tok_kind)) (tokenize u (bytes_repr bs)) = Some (Ok [T_Bytes bs, Newline, Eof])"
proof -
  obtain cs where cs: "bytes_repr bs = 98 # cs" by (simp add: bytes_repr_def bytes_repr_quoted_def Let_def)
  have "13 \<notin> set (bytes_repr bs)" using byte_escape_chars
    by (auto simp: bytes_repr_def bytes_repr_quoted_def Let_def repr_quote_def)
  then have "source_chars (bytes_repr bs) = bytes_repr bs" using cs source_chars_id by simp
  then show ?thesis using tokenize_single [OF cs, of u "Ok (T_Bytes bs)"] bytes_repr_scan by (simp add: bytes_repr_def)
qed

subsection \<open>Integers\<close>

lemma codes_append [simp]: "codes (xs @ ys) = codes xs @ codes ys"
  by (simp add: codes_def)

lemma show_nat_codes: "codes (show_nat n) = (if n < 10 then [48 + n] else codes (show_nat (n div 10)) @ [48 + n mod 10])"
proof -
  have "of_char (char_of (48 + k :: nat) :: char) = 48 + k" if "k < 10" for k :: nat using that by simp
  then show ?thesis by (subst show_nat.simps) (simp add: codes_def)
qed

lemma show_nat_digits:
  "list_all ascii_digit (codes (show_nat n)) \<and> codes (show_nat n) \<noteq> [] \<and> digits_value (codes (show_nat n)) = n \<and>
   (hd (codes (show_nat n)) = 48 \<longrightarrow> n = 0)"
proof (induction n rule: show_nat.induct)
  case (1 n)
  show ?case
  proof (cases "n < 10")
    case True
    then show ?thesis by (simp add: show_nat_codes [of n] ascii_digit_def digits_value_def)
  next
    case False
    have "n mod 10 \<le> 9" "n div 10 \<noteq> 0" using False by (auto simp: less_Suc_eq_le [symmetric] div_eq_0_iff)
    then show ?thesis using 1 [OF False] False by (auto simp: show_nat_codes [of n] ascii_digit_def digits_value_def)
  qed
qed

lemma advance_while_all: "list_all P (rest l) \<Longrightarrow> advance_while P l = move (length (rest l)) l"
  by (simp add: advance_while_def list_all_iff takeWhile_eq_all_conv [THEN iffD2])

lemma bad_underscore_none: "c_underscore \<notin> set word \<Longrightarrow> n \<le> length word \<Longrightarrow> bad_underscore digit lead word n = None"
proof -
  assume a: "c_underscore \<notin> set word" "n \<le> length word"
  then have "word ! i \<noteq> c_underscore" if "i < n" for i using that by (metis nth_mem order_less_le_trans)
  then show ?thesis by (auto simp: bad_underscore_def find_None_iff)
qed

text \<open>What the lexer makes of a run of digits without a leading zero.\<close>

definition int_token :: "nat \<Rightarrow> (token, nat list) result" where
  "int_token n =
     (if int n \<le> i64_max then Ok (T_Int (of_nat n))
      else if n = 9223372036854775808 then Ok T_IntMinMagnitude else Err parse_too_large)"

lemma number_digits:
  assumes "rest l = codes (show_nat n)" "l_pos l = 0"
  shows "number u 0 (advance l) =
    (move (length (rest l)) l, map_sum (error_at (move (length (rest l)) l) 0) id (int_token n))"
proof -
  note d = show_nat_digits [of n]
  obtain c cs where c: "rest l = c # cs" using d assms(1) by (cases "codes (show_nat n)") auto
  have all: "list_all ascii_digit (c # cs)" using d assms(1) c by simp
  have r1: "rest (advance l) = cs" by (simp add: move_simps rest_move c)
  have "peek (advance l) = 0 \<or> ascii_digit (peek (advance l))" using all r1 by (cases cs) (auto simp: peek_rest)
  then have radix: "radix_of_marker (peek (advance l)) = None" by (auto simp: radix_of_marker_def ascii_digit_def)
  let ?e = "move (length (rest l)) l"
  have dl: "advance_while digit_or_underscore (advance l) = ?e"
    using all r1 by (subst advance_while_all) (auto simp: list_all_iff digit_or_underscore_def move_simps c)
  have "rest ?e = []" by (simp add: rest_move)
  then have fe: "fraction ?e = (?e, False)" "exponent ?e = (?e, False)" by (simp_all add: fraction_def exponent_def peek_rest)
  have sl: "slice ?e 0 = codes (show_nat n)" using assms by (simp add: slice_def move_def rest_def)
  have us: "c_underscore \<notin> set (codes (show_nat n))" using d by (auto simp: list_all_iff ascii_digit_def)
  have "bad_underscore ascii_digit False (codes (show_nat n)) (length (takeWhile (\<lambda>c. c \<noteq> c_e \<and> c \<noteq> c_E) (codes (show_nat n)))) = None"
    using bad_underscore_none [OF us] length_takeWhile_le by blast
  moreover have "filter (\<lambda>c. c \<noteq> c_underscore) (codes (show_nat n)) = codes (show_nat n)" using us by (auto simp: filter_id_conv)
  moreover have "\<not> (1 < length (codes (show_nat n)) \<and> hd (codes (show_nat n)) = c_0)"
    using d by (auto simp: show_nat_codes [of 0])
  ultimately have "finish_number u 0 False ?e = (?e, map_sum (error_at ?e 0) id (int_token n))"
    using d by (auto simp: finish_number_def sl Let_def int_token_def)
  then show ?thesis using radix by (simp add: number_def field_index_def dl fe)
qed

text \<open>
  C34. An integer printed in decimal is lexed back as that integer when it fits 64 bits. The one magnitude
  beyond, that of the least integer, has a token of its own, and every larger one is refused as too large.
\<close>

theorem int_literal_roundtrip:
  "map_option (map_sum e_message (map tok_kind)) (tokenize u (codes (show_nat n))) =
     Some (if int n \<le> i64_max then Ok [T_Int (of_nat n), Newline, Eof]
           else if int n = i64_max + 1 then Ok [T_IntMinMagnitude, Newline, Eof]
           else Err parse_too_large)"
proof -
  note d = show_nat_digits [of n]
  obtain c cs where c: "codes (show_nat n) = c # cs" using d by (cases "codes (show_nat n)") auto
  then have dig: "ascii_digit c" "list_all ascii_digit cs" using d by auto
  have src: "source_chars (codes (show_nat n)) = codes (show_nat n)"
    by (rule source_chars_id) (use c dig in \<open>auto simp: ascii_digit_def list_all_iff\<close>)
  have plain: "scan_punct c l = None" "\<not> is_quote c" "c \<notin> {c_question, c_b, c_B, c_r, c_R}" for l
    using dig(1) by (auto simp: ascii_digit_def scan_punct_def is_quote_def)
  have "\<exists>r'. scan_kind u nt c 0 (advance l) = Some (move (length (codes (show_nat n))) l, r') \<and> map_sum e_message id r' = int_token n"
    if "rest l = codes (show_nat n)" "l_pos l = 0" for l nt
    using number_digits [OF that, of u] plain dig(1) that(1)
    by (cases "int_token n") (auto simp: scan_kind_def error_at_def error_span_def)
  moreover have "int_token n \<noteq> Ok Eof" by (simp add: int_token_def)
  ultimately have "map_option (map_sum e_message (map tok_kind)) (tokenize u (codes (show_nat n))) =
      Some (map_sum id (\<lambda>k. [k, Newline, Eof]) (int_token n))"
    using tokenize_single [OF c src, of u "int_token n"] dig(1) by (auto simp: ascii_digit_def)
  then show ?thesis by (auto simp: int_token_def i64_bounds)
qed

end
