(* ===== verification/Rand.thy ===== *)
theory Rand
  imports Prelude
begin

unbundle bit_operations_syntax

text \<open>
  The random numbers of \<^verbatim>\<open>std.rand\<close>, \<^verbatim>\<open>src/src/native/rand.rs\<close>: SplitMix64 and the draws made from it. The
  process-wide state is passed explicitly; the seed it starts from when no program sets one is whatever
  the operating system gives. Shown: a draw from a range always ends, whatever the state, and gives every
  number of the range for equally many random words.
\<close>

subsection \<open>The generator\<close>

definition GOLDEN :: u64 where "GOLDEN = 0x9E3779B97F4A7C15"

definition mix :: "u64 \<Rightarrow> u64" where
  "mix z0 =
     (let z1 = (z0 XOR drop_bit 30 z0) * 0xBF58476D1CE4E5B9;
          z2 = (z1 XOR drop_bit 27 z1) * 0x94D049BB133111EB
      in z2 XOR drop_bit 31 z2)"

definition next_u64 :: "u64 \<Rightarrow> u64 \<times> u64" where
  "next_u64 state = (let s = state + GOLDEN in (s, mix s))"

subsection \<open>The members\<close>

definition rand_seed :: "i64 \<Rightarrow> u64" where
  "rand_seed n = n"

text \<open>The 53 bits that \<open>float\<close> scales.\<close>

definition rand_float_bits :: "u64 \<Rightarrow> u64 \<times> u64" where
  "rand_float_bits state = (let (s, r) = next_u64 state in (s, drop_bit 11 r))"

definition rand_bool :: "u64 \<Rightarrow> u64 \<times> bool" where
  "rand_bool state = (let (s, r) = next_u64 state in (s, r AND 1 = 1))"

definition zone :: "u64 \<Rightarrow> u64" where
  "zone width = - 1 - (- 1 mod width)"

partial_function (option) draw_below :: "u64 \<Rightarrow> u64 \<Rightarrow> (u64 \<times> u64) option" where
  "draw_below z state = (let (s, r) = next_u64 state in if r < z then Some (s, r) else draw_below z s)"

definition hi_must_exceed :: string where
  "hi_must_exceed = ''rand.int(lo, hi): hi must be > lo''"

definition int_range :: "i64 \<Rightarrow> i64 \<Rightarrow> u64" where
  "int_range lo hi = word_of_int (sint hi - sint lo)"

definition rand_int :: "i64 \<Rightarrow> i64 \<Rightarrow> u64 \<Rightarrow> (u64 \<times> i64, string) result option" where
  "rand_int lo hi state =
     (if sint hi \<le> sint lo then Some (Err hi_must_exceed)
      else map_option (\<lambda>(s, r). Ok (s, lo + r mod int_range lo hi)) (draw_below (zone (int_range lo hi)) state))"

subsection \<open>Every word is drawn\<close>

text \<open>Mixing is a bijection: a shift-and-xor keeps the high bits, and the multipliers are odd.\<close>

lemma xorshift_inj:
  assumes "0 < k" "x XOR drop_bit k x = y XOR drop_bit k (y :: u64)"
  shows "x = y"
proof -
  have b: "bit x n = bit y n" if "64 - m \<le> n" for m n
    using that
  proof (induction m arbitrary: n)
    case 0
    then show ?case using bit_imp_le_length [of x n] bit_imp_le_length [of y n] by auto
  next
    case (Suc m)
    have "bit x (k + n) = bit y (k + n)" using Suc.IH [of "k + n"] Suc.prems assms(1) by simp
    moreover have "bit (x XOR drop_bit k x) n = bit (y XOR drop_bit k y) n" using assms(2) by simp
    ultimately show ?case by (auto simp: bit_xor_iff bit_drop_bit_eq)
  qed
  show ?thesis by (rule bit_eqI) (use b [of 64] in simp)
qed

lemma mult_unit_inj:
  assumes "c * d = 1" "x * c = y * c"
  shows "x = (y :: u64)"
proof -
  have "x * c * d = y * c * d" using assms(2) by simp
  then show ?thesis by (simp add: mult.assoc assms(1))
qed

lemma odd_inverse:
  fixes a b :: int
  assumes "a * b mod 2 ^ 64 = 1"
  shows "word_of_int a * word_of_int b = (1 :: u64)"
proof -
  have "word_of_int a * word_of_int b = (word_of_int (a * b) :: u64)" by simp
  also have "\<dots> = word_of_int (a * b mod 2 ^ 64)" by (rule word_uint_eqI) (simp only: uint_word_of_int, simp)
  finally show ?thesis using assms by simp
qed

lemma mix_inj: "inj mix"
proof (rule injI)
  fix x y assume m: "mix x = mix y"
  have u: "(0xBF58476D1CE4E5B9 :: u64) * 0x96DE1B173F119089 = 1" "(0x94D049BB133111EB :: u64) * 0x319642B2D24D8EC3 = 1"
    using odd_inverse [of "0xBF58476D1CE4E5B9" "0x96DE1B173F119089"] odd_inverse [of "0x94D049BB133111EB" "0x319642B2D24D8EC3"]
    by simp_all
  define p where "p z = (z XOR drop_bit 30 z) * 0xBF58476D1CE4E5B9" for z :: u64
  define q where "q z = (z XOR drop_bit 27 z) * 0x94D049BB133111EB" for z :: u64
  have "mix z = q (p z) XOR drop_bit 31 (q (p z))" for z by (simp add: mix_def p_def q_def Let_def)
  then have eq: "q (p x) XOR drop_bit 31 (q (p x)) = q (p y) XOR drop_bit 31 (q (p y))" using m by metis
  have "q (p x) = q (p y)" by (rule xorshift_inj [OF _ eq]) simp
  then have "p x XOR drop_bit 27 (p x) = p y XOR drop_bit 27 (p y)" unfolding q_def by (rule mult_unit_inj [OF u(2)])
  then have "p x = p y" by (rule xorshift_inj [rotated]) simp
  then have "x XOR drop_bit 30 x = y XOR drop_bit 30 y" unfolding p_def by (rule mult_unit_inj [OF u(1)])
  then show "x = y" by (rule xorshift_inj [rotated]) simp
qed

lemma mix_surj: "\<exists>x. mix x = z"
  using finite_UNIV_inj_surj [OF finite mix_inj] by (metis surjD)

lemma golden_steps: "\<exists>n. s + of_nat (Suc n) * GOLDEN = t"
proof -
  have g: "0xF1DE83E19937733D * GOLDEN = 1"
    using odd_inverse [of "0xF1DE83E19937733D" "0x9E3779B97F4A7C15"] by (simp add: GOLDEN_def)
  let ?k = "(t - s - GOLDEN) * 0xF1DE83E19937733D"
  have "?k * GOLDEN = t - s - GOLDEN" by (simp only: mult.assoc g mult_1_right)
  then have "s + of_nat (Suc (unat ?k)) * GOLDEN = t" by (simp add: algebra_simps)
  then show ?thesis by blast
qed

lemma draw_below_returns:
  "mix (s + of_nat (Suc n) * GOLDEN) < z \<Longrightarrow> \<exists>s' r. draw_below z s = Some (s', r) \<and> r < z"
proof (induction n arbitrary: s)
  case 0
  then show ?case by (simp add: draw_below.simps [of z s] next_u64_def Let_def)
next
  case (Suc n)
  have "s + GOLDEN + of_nat (Suc n) * GOLDEN = s + of_nat (Suc (Suc n)) * GOLDEN" by (simp add: algebra_simps)
  then have "\<exists>s' r. draw_below z (s + GOLDEN) = Some (s', r) \<and> r < z" using Suc.IH [of "s + GOLDEN"] Suc.prems by presburger
  then show ?case
    by (cases "mix (s + GOLDEN) < z") (simp_all add: draw_below.simps [of z s] next_u64_def Let_def)
qed

lemma draw_below_total: "0 < z \<Longrightarrow> \<exists>s' r. draw_below z s = Some (s', r) \<and> r < z"
  by (metis mix_surj golden_steps draw_below_returns)

subsection \<open>The range\<close>

lemma sint_bounds: "- (2 ^ 63) \<le> sint (x :: i64)" "sint x < 2 ^ 63"
  using sint_ge [of x] sint_lt [of x] by simp_all

lemma int_range_nat:
  assumes "sint lo < sint hi"
  shows "uint (int_range lo hi) = sint hi - sint lo"
proof -
  have "0 \<le> sint hi - sint lo" "sint hi - sint lo < 2 ^ 64"
    using assms sint_bounds [of lo] sint_bounds [of hi] by simp_all
  then show ?thesis unfolding int_range_def uint_word_of_int by simp
qed

lemma zone_nat:
  assumes "w \<noteq> 0"
  shows "0 < zone w" "unat w dvd unat (zone w)"
proof -
  have m: "unat (- 1 :: u64) = 2 ^ 64 - 1" by (simp add: unat_eq_nat_uint unsigned_minus_1_eq_mask mask_eq_exp_minus_1)
  have le: "- 1 mod w \<le> (- 1 :: u64)" by simp
  have z: "unat (zone w) = (2 ^ 64 - 1) - (2 ^ 64 - 1) mod unat w"
    unfolding zone_def unat_sub [OF le] unat_mod m ..
  have w: "0 < unat w" "unat w \<le> 2 ^ 64 - 1" using assms unsigned_less [of w, where ?'a = nat] by (simp_all add: unat_gt_0)
  show "unat w dvd unat (zone w)" unfolding z by (rule dvd_minus_mod)
  have "(2 ^ 64 - 1) mod unat w < unat w" using w(1) by simp
  then have "0 < unat (zone w)" unfolding z using w(2) by linarith
  then show "0 < zone w" by (simp add: word_less_nat_alt)
qed

lemma sint_offset:
  assumes "sint lo < sint hi" "x < int_range lo hi"
  shows "sint (lo + x) = sint lo + uint x"
proof -
  have "uint x < sint hi - sint lo" using int_range_nat [OF assms(1)] assms(2) by (simp add: word_less_def)
  then have in_range: "- (2 ^ 63) \<le> sint lo + uint x" "sint lo + uint x < 2 ^ 63"
    using sint_bounds [of lo] sint_bounds [of hi] uint_ge_0 [of x] by linarith+
  have "lo + x = word_of_int (sint lo + uint x)" by simp
  moreover have "in_i64 (sint lo + uint x)" using in_range by (simp add: in_i64_def i64_bounds)
  ultimately show ?thesis using sint_word_of_int by metis
qed

text \<open>
  C28. A draw from a range returns, from every state of the generator, a number of the range; the rejection loop
  cannot run for ever, because every word is the next draw of some state and every state is met.
\<close>

theorem rand_int_returns:
  assumes "sint lo < sint hi"
  shows "\<exists>s v. rand_int lo hi state = Some (Ok (s, v)) \<and> sint lo \<le> sint v \<and> sint v < sint hi"
proof -
  let ?w = "int_range lo hi"
  have w: "?w \<noteq> 0" using int_range_nat [OF assms] assms by auto
  obtain s r where "draw_below (zone ?w) state = Some (s, r)" using draw_below_total [OF zone_nat(1) [OF w]] by blast
  then have "rand_int lo hi state = Some (Ok (s, lo + r mod ?w))" using assms by (simp add: rand_int_def)
  moreover have "r mod ?w < ?w" using w by (simp add: word_mod_less_divisor word_gt_0)
  ultimately show ?thesis
    using sint_offset [OF assms] int_range_nat [OF assms] by (simp add: word_less_def)
qed

theorem rand_int_returns_witness:
  "\<exists>s v. rand_int (- 3) 4 7 = Some (Ok (s, v)) \<and> - 3 \<le> sint v \<and> sint v < 4"
  using rand_int_returns [of "- 3" 4 7] by simp

subsection \<open>No number is favoured\<close>

lemma card_residues:
  assumes "(w :: nat) dvd z" "d < w"
  shows "card {n. n < z \<and> n mod w = d} = z div w"
proof -
  have "{n. n < z \<and> n mod w = d} = (\<lambda>q. q * w + d) ` {..<z div w}"
  proof (intro equalityI subsetI)
    fix n assume "n \<in> {n. n < z \<and> n mod w = d}"
    then have "n = (n div w) * w + d" "n div w < z div w"
      using assms(1) by (auto simp: div_mult_mod_eq dvd_def less_mult_imp_div_less mult.commute)
    then show "n \<in> (\<lambda>q. q * w + d) ` {..<z div w}" by blast
  next
    fix n assume "n \<in> (\<lambda>q. q * w + d) ` {..<z div w}"
    then obtain q where q: "n = q * w + d" "q < z div w" by auto
    then have "(q + 1) * w \<le> z" using assms(1) by (metis Suc_eq_plus1 Suc_leI dvd_div_mult_self mult_le_mono1)
    then show "n \<in> {n. n < z \<and> n mod w = d}" using q(1) assms(2) by simp
  qed
  moreover have "inj_on (\<lambda>q. q * w + d) {..<z div w}" using assms(2) by (auto simp: inj_on_def)
  ultimately show ?thesis by (simp add: card_image)
qed

text \<open>
  C31. The range is drawn from without bias: each number of the range is the result of equally many of the
  \<open>2 ^ 64\<close> states of the generator that the rejection loop accepts at once.
\<close>

theorem rand_int_unbiased:
  assumes "sint lo < sint hi" "sint lo \<le> sint v" "sint v < sint hi"
  shows "card {state. rand_int lo hi state = Some (Ok (fst (next_u64 state), v)) \<and>
      snd (next_u64 state) < zone (int_range lo hi)} = unat (zone (int_range lo hi)) div unat (int_range lo hi)"
proof -
  let ?w = "int_range lo hi" and ?d = "v - lo"
  let ?r = "\<lambda>state. snd (next_u64 state)"
  have w: "?w \<noteq> 0" using int_range_nat [OF assms(1)] assms(1) by auto
  have "0 \<le> sint v - sint lo" "sint v - sint lo < 2 ^ 64"
    using assms sint_bounds [of lo] sint_bounds [of hi] by simp_all
  then have "uint (word_of_int (sint v - sint lo) :: u64) = sint v - sint lo" unfolding uint_word_of_int by simp
  then have d: "uint ?d = sint v - sint lo" by simp
  then have dw: "?d < ?w" using int_range_nat [OF assms(1)] assms(3) by (simp add: word_less_def)
  have "draw_below (zone ?w) state = Some (next_u64 state)" if "?r state < zone ?w" for state
    using that by (cases "next_u64 state") (simp add: draw_below.simps [of "zone ?w" state])
  then have "rand_int lo hi state = Some (Ok (fst (next_u64 state), lo + ?r state mod ?w))" if "?r state < zone ?w" for state
    using that assms(1) by (simp add: rand_int_def case_prod_beta)
  then have sets: "{state. rand_int lo hi state = Some (Ok (fst (next_u64 state), v)) \<and> ?r state < zone ?w} =
      {state. ?r state < zone ?w \<and> ?r state mod ?w = ?d}"
    by auto
  have img: "card {state. ?r state < zone ?w \<and> ?r state mod ?w = ?d} = card ((\<lambda>state. unat (?r state)) ` {state. ?r state < zone ?w \<and> ?r state mod ?w = ?d})"
    by (rule card_image [symmetric]) (auto simp: inj_on_def next_u64_def Let_def simp flip: word_unat_eq_iff dest: injD [OF mix_inj])
  have nats: "(\<lambda>state. unat (?r state)) ` {state. ?r state < zone ?w \<and> ?r state mod ?w = ?d} =
      {n. n < unat (zone ?w) \<and> n mod unat ?w = unat ?d}"
  proof (intro equalityI subsetI)
    fix n assume n: "n \<in> {n. n < unat (zone ?w) \<and> n mod unat ?w = unat ?d}"
    then have "n < 2 ^ 64" using unsigned_less [of "zone ?w", where ?'a = nat] by simp
    then have u: "unat (of_nat n :: u64) = n" by (simp add: unsigned_of_nat take_bit_nat_eq_self)
    obtain x where x: "mix x = of_nat n" using mix_surj by blast
    then have "?r (x - GOLDEN) = of_nat n" by (simp add: next_u64_def Let_def)
    then show "n \<in> (\<lambda>state. unat (?r state)) ` {state. ?r state < zone ?w \<and> ?r state mod ?w = ?d}"
      using n u by (intro image_eqI [of _ _ "x - GOLDEN"]) (auto simp: word_less_nat_alt word_unat_eq_iff unat_mod)
  qed (auto simp: word_less_nat_alt simp flip: unat_mod)
  have res: "card {n. n < unat (zone ?w) \<and> n mod unat ?w = unat ?d} = unat (zone ?w) div unat ?w"
    by (rule card_residues [OF zone_nat(2) [OF w]]) (use dw in \<open>simp add: word_less_nat_alt\<close>)
  show ?thesis unfolding sets img nats res ..
qed

theorem rand_int_unbiased_witness:
  "card {state. rand_int 0 3 state = Some (Ok (fst (next_u64 state), 2)) \<and>
      snd (next_u64 state) < zone (int_range 0 3)} = unat (zone (int_range 0 3)) div unat (int_range 0 3)"
  using rand_int_unbiased [of 0 3 2] by simp

end
