(* ===== verification/Channel.thy ===== *)
theory Channel
  imports Prelude
begin

text \<open>
  Channels, \<^verbatim>\<open>src/src/vm/core.rs\<close> with the steps of \<^verbatim>\<open>vm/channel.rs\<close>, \<^verbatim>\<open>vm/blocking.rs\<close> and \<^verbatim>\<open>vm/mnsched_park.rs\<close> that use
  them: a buffer, the offers of blocked senders, the slots of blocked receivers of a channel without a
  buffer, and the commit record that decides which of a party's offers and slots, on several channels
  in a \<^verbatim>\<open>wait:\<close>, moved its value. A commit record is known by a number and its state is kept in a store,
  since the entries of several channels share it; the state word \<^verbatim>\<open>PENDING_DONE + arm\<close> is \<open>Done_P arm\<close>. Each operation on a
  channel runs under that channel's lock and is one step.
\<close>

subsection \<open>The commit record\<close>

datatype pending = Queued | Cancelled_P | Closed_P | Done_P nat

type_synonym pends = "nat \<Rightarrow> pending"

definition is_queued :: "pends \<Rightarrow> nat \<Rightarrow> bool" where
  "is_queued ps p \<longleftrightarrow> ps p = Queued"

definition try_commit :: "pends \<Rightarrow> nat \<Rightarrow> nat \<Rightarrow> pends \<times> bool" where
  "try_commit ps p arm = (if ps p = Queued then (ps(p := Done_P arm), True) else (ps, False))"

definition try_cancel :: "pends \<Rightarrow> nat \<Rightarrow> pends \<times> (unit, pending) result" where
  "try_cancel ps p = (if ps p = Queued then (ps(p := Cancelled_P), Ok ()) else (ps, Err (ps p)))"

definition try_close :: "pends \<Rightarrow> nat \<Rightarrow> pends \<times> bool" where
  "try_close ps p = (if ps p = Queued then (ps(p := Closed_P), True) else (ps, False))"

definition is_me :: "nat \<Rightarrow> nat option \<Rightarrow> bool" where
  "is_me p me \<longleftrightarrow> me = Some p"

subsection \<open>The state of a channel\<close>

record 'v offer =
  o_p :: nat
  o_arm :: nat
  o_v :: 'v

record 'v slot =
  s_p :: nat
  s_arm :: nat
  s_got :: "'v option"

record 'v chan_state =
  queue :: "'v list"
  sendq :: "'v offer list"
  recvq :: "'v slot list"
  closed :: bool
  sealed :: bool
  unbuilt :: "string option"

definition chan_new :: "'v chan_state" where
  "chan_new = \<lparr>queue = [], sendq = [], recvq = [], closed = False, sealed = False, unbuilt = None\<rparr>"

datatype send_outcome = Sent | Offered | Full | SendClosed

definition push_value :: "'v chan_state \<Rightarrow> 'v \<Rightarrow> 'v chan_state" where
  "push_value ch v = ch\<lparr>queue := queue ch @ [v]\<rparr>"

definition seal :: "'v chan_state \<Rightarrow> 'v \<Rightarrow> 'v chan_state \<times> bool" where
  "seal ch v = (if sealed ch then (ch, False) else (ch\<lparr>queue := queue ch @ [v], sealed := True, closed := True\<rparr>, True))"

definition seal_err :: "'v chan_state \<Rightarrow> string \<Rightarrow> 'v chan_state \<times> bool" where
  "seal_err ch msg = (if sealed ch then (ch, False) else (ch\<lparr>unbuilt := Some msg, sealed := True, closed := True\<rparr>, True))"

definition build_outcome :: "'v chan_state \<Rightarrow> 'v \<Rightarrow> 'v chan_state" where
  "build_outcome ch v = (if unbuilt ch \<noteq> None then ch\<lparr>unbuilt := None, queue := queue ch @ [v]\<rparr> else ch)"

definition publish_offer :: "'v chan_state \<Rightarrow> nat \<Rightarrow> nat \<Rightarrow> 'v \<Rightarrow> 'v chan_state" where
  "publish_offer ch p arm v = ch\<lparr>sendq := sendq ch @ [\<lparr>o_p = p, o_arm = arm, o_v = v\<rparr>]\<rparr>"

definition publish_slot :: "'v chan_state \<Rightarrow> nat \<Rightarrow> nat \<Rightarrow> 'v chan_state" where
  "publish_slot ch p arm = ch\<lparr>recvq := recvq ch @ [\<lparr>s_p = p, s_arm = arm, s_got = None\<rparr>]\<rparr>"

text \<open>The scan of \<^verbatim>\<open>give\<close> from the index on: dead slots are dropped on the way.\<close>

fun give_scan :: "pends \<Rightarrow> nat option \<Rightarrow> 'v \<Rightarrow> 'v slot list \<Rightarrow> pends \<times> 'v slot list \<times> bool" where
  "give_scan ps me v [] = (ps, [], False)"
| "give_scan ps me v (s # ss) =
     (if s_got s \<noteq> None \<or> is_me (s_p s) me then
        (case give_scan ps me v ss of (ps', ss', b) \<Rightarrow> (ps', s # ss', b))
      else case try_commit ps (s_p s) (s_arm s) of
             (ps', True) \<Rightarrow> (ps', s\<lparr>s_got := Some v\<rparr> # ss, True)
           | (ps', False) \<Rightarrow> give_scan ps me v ss)"

definition give :: "pends \<Rightarrow> 'v chan_state \<Rightarrow> 'v \<Rightarrow> nat option \<Rightarrow> pends \<times> 'v chan_state \<times> bool" where
  "give ps ch v me = (case give_scan ps me v (recvq ch) of (ps', ss, b) \<Rightarrow> (ps', ch\<lparr>recvq := ss\<rparr>, b))"

definition offer_or_full :: "pends \<Rightarrow> 'v chan_state \<Rightarrow> 'v \<Rightarrow> (nat \<times> nat) option \<Rightarrow> pends \<times> 'v chan_state \<times> send_outcome" where
  "offer_or_full ps ch v off =
     (case off of
        Some (p, arm) \<Rightarrow> (ps, publish_offer ch p arm v, Offered)
      | None \<Rightarrow> (ps, ch, Full))"

definition send :: "pends \<Rightarrow> 'v chan_state \<Rightarrow> nat option \<Rightarrow> 'v \<Rightarrow> (nat \<times> nat) option \<Rightarrow> pends \<times> 'v chan_state \<times> send_outcome" where
  "send ps ch cap v off =
     (if closed ch then (ps, ch, SendClosed)
      else case cap of
             None \<Rightarrow> (ps, push_value ch v, Sent)
           | Some 0 \<Rightarrow>
               (case give ps ch v (map_option fst off) of
                  (ps', ch', True) \<Rightarrow> (ps', ch', Sent)
                | (ps', ch', False) \<Rightarrow> offer_or_full ps' ch' v off)
           | Some n \<Rightarrow>
               if length (queue ch) < n then (ps, push_value ch v, Sent)
               else offer_or_full ps ch v off)"

text \<open>The scan of \<^verbatim>\<open>take_offer\<close>.\<close>

fun take_scan :: "pends \<Rightarrow> nat option \<Rightarrow> 'v offer list \<Rightarrow> pends \<times> 'v offer list \<times> 'v option" where
  "take_scan ps me [] = (ps, [], None)"
| "take_scan ps me (ofr # os) =
     (if is_me (o_p ofr) me then (case take_scan ps me os of (ps', os', r) \<Rightarrow> (ps', ofr # os', r))
      else case try_commit ps (o_p ofr) (o_arm ofr) of
             (ps', True) \<Rightarrow> (ps', os, Some (o_v ofr))
           | (ps', False) \<Rightarrow> take_scan ps me os)"

definition take_offer :: "pends \<Rightarrow> 'v chan_state \<Rightarrow> nat option \<Rightarrow> pends \<times> 'v chan_state \<times> 'v option" where
  "take_offer ps ch me = (case take_scan ps me (sendq ch) of (ps', os, r) \<Rightarrow> (ps', ch\<lparr>sendq := os\<rparr>, r))"

definition pop_for :: "pends \<Rightarrow> 'v chan_state \<Rightarrow> nat option \<Rightarrow> pends \<times> 'v chan_state \<times> 'v option" where
  "pop_for ps ch me =
     (if sealed ch then (ps, ch, if queue ch = [] then None else Some (last (queue ch)))
      else case queue ch of
             v # vs \<Rightarrow>
               (case take_offer ps (ch\<lparr>queue := vs\<rparr>) me of
                  (ps', ch', Some ov) \<Rightarrow> (ps', push_value ch' ov, Some v)
                | (ps', ch', None) \<Rightarrow> (ps', ch', Some v))
           | [] \<Rightarrow> take_offer ps ch me)"

definition pop :: "pends \<Rightarrow> 'v chan_state \<Rightarrow> pends \<times> 'v chan_state \<times> 'v option" where
  "pop ps ch = pop_for ps ch None"

fun take_slot :: "nat \<Rightarrow> 'v slot list \<Rightarrow> 'v slot list \<times> 'v option" where
  "take_slot p [] = ([], None)"
| "take_slot p (s # ss) =
     (if s_got s \<noteq> None \<and> s_p s = p then (ss, s_got s)
      else case take_slot p ss of (ss', r) \<Rightarrow> (s # ss', r))"

definition take_filled :: "'v chan_state \<Rightarrow> nat \<Rightarrow> 'v chan_state \<times> 'v option" where
  "take_filled ch p = (case take_slot p (recvq ch) of (ss, r) \<Rightarrow> (ch\<lparr>recvq := ss\<rparr>, r))"

definition withdraw :: "'v chan_state \<Rightarrow> nat \<Rightarrow> 'v chan_state" where
  "withdraw ch p = ch\<lparr>sendq := filter (\<lambda>o'. o_p o' \<noteq> p) (sendq ch), recvq := filter (\<lambda>s. s_p s \<noteq> p) (recvq ch)\<rparr>"

definition close :: "pends \<Rightarrow> 'v chan_state \<Rightarrow> pends \<times> 'v chan_state" where
  "close ps ch =
     (fold (\<lambda>o' ps. fst (try_close ps (o_p o'))) (sendq ch) ps,
      ch\<lparr>closed := True, sendq := [], recvq := filter (\<lambda>s. s_got s \<noteq> None) (recvq ch)\<rparr>)"

definition chan_len :: "'v chan_state \<Rightarrow> nat" where
  "chan_len ch = length (queue ch)"

definition chan_values :: "'v chan_state \<Rightarrow> 'v list" where
  "chan_values ch = queue ch @ map o_v (sendq ch) @ List.map_filter s_got (recvq ch)"

definition recv_ready_for :: "pends \<Rightarrow> 'v chan_state \<Rightarrow> nat option \<Rightarrow> bool" where
  "recv_ready_for ps ch me \<longleftrightarrow>
     queue ch \<noteq> [] \<or> sealed ch \<or> list_ex (\<lambda>o'. is_queued ps (o_p o') \<and> \<not> is_me (o_p o') me) (sendq ch)"

definition send_ready_for :: "pends \<Rightarrow> 'v chan_state \<Rightarrow> nat option \<Rightarrow> nat option \<Rightarrow> bool" where
  "send_ready_for ps ch cap me =
     (case cap of
        None \<Rightarrow> True
      | Some 0 \<Rightarrow> list_ex (\<lambda>s. s_got s = None \<and> is_queued ps (s_p s) \<and> \<not> is_me (s_p s) me) (recvq ch)
      | Some n \<Rightarrow> length (queue ch) < n)"

text \<open>
  The decision of a receive; \<open>latched\<close> is a tripped latch or a passed deadline, \<open>built\<close> the value made of an
  outcome that was sealed as text.
\<close>

datatype 'v recv_result = RValue 'v | Fired | RClosed | RWait

definition recv_ready :: "(string \<Rightarrow> 'v) \<Rightarrow> bool \<Rightarrow> pends \<Rightarrow> 'v chan_state \<Rightarrow> pends \<times> 'v chan_state \<times> 'v recv_result" where
  "recv_ready built latched ps ch0 =
     (let ch = (case unbuilt ch0 of Some msg \<Rightarrow> build_outcome ch0 (built msg) | None \<Rightarrow> ch0)
      in case pop ps ch of
           (ps', ch', Some v) \<Rightarrow> (ps', ch', RValue v)
         | (ps', ch', None) \<Rightarrow> (ps', ch', if latched then Fired else if closed ch' then RClosed else RWait))"

subsection \<open>A blocked party\<close>

datatype 'v settled = SCancelled | SClosed | SSent nat | SGot nat 'v

text \<open>All channels by number, the commit records, and each blocked party's entries: channel, arm and whether it sends.\<close>

record 'v world =
  pend :: pends
  chan :: "nat \<Rightarrow> 'v chan_state"
  ops :: "nat \<Rightarrow> (nat \<times> nat \<times> bool) list option"

definition set_chan :: "'v world \<Rightarrow> nat \<Rightarrow> 'v chan_state \<Rightarrow> 'v world" where
  "set_chan w c ch = w\<lparr>chan := (chan w)(c := ch)\<rparr>"

definition withdraw_all :: "'v world \<Rightarrow> nat \<Rightarrow> (nat \<times> nat \<times> bool) list \<Rightarrow> 'v world" where
  "withdraw_all w p at = fold (\<lambda>(c, _, _) w. set_chan w c (withdraw (chan w c) p)) at w"

definition settled_of :: "'v world \<Rightarrow> nat \<Rightarrow> (nat \<times> nat \<times> bool) list \<Rightarrow> 'v world \<times> 'v settled" where
  "settled_of w p at =
     (case try_cancel (pend w) p of
        (ps, Inr _) \<Rightarrow> (w\<lparr>pend := ps\<rparr>, SCancelled)
      | (ps, Inl (Done_P arm)) \<Rightarrow>
          (case find (\<lambda>(_, a, _). a = arm) at of
             Some (_, _, True) \<Rightarrow> (w, SSent arm)
           | Some (c, _, False) \<Rightarrow>
               (case take_filled (chan w c) p of
                  (ch, Some v) \<Rightarrow> (set_chan w c ch, SGot arm v)
                | (ch, None) \<Rightarrow> (set_chan w c ch, SCancelled))
           | None \<Rightarrow> (w, SCancelled))
      | (ps, Inl Closed_P) \<Rightarrow> (w, SClosed)
      | (ps, Inl _) \<Rightarrow> (w, SCancelled))"

definition settle_op :: "'v world \<Rightarrow> nat \<Rightarrow> 'v world \<times> 'v settled" where
  "settle_op w p =
     (let at = (case ops w p of Some xs \<Rightarrow> xs | None \<Rightarrow> []);
          (w', r) = settled_of w p at
      in ((withdraw_all w' p at)\<lparr>ops := (ops w')(p := None)\<rparr>, r))"

subsection \<open>The steps of the parties\<close>

text \<open>
  What a party does in one hold of a channel's lock. A send that finds no taker publishes an offer; a \<^verbatim>\<open>wait:\<close>
  registers its arms one by one, publishing an offer per send arm and, on a channel without a buffer, a slot per
  receive arm, each only when the arm is not ready; a party that wakes settles. \<open>Try_Send\<close> and \<open>Send_Now\<close> are \<^verbatim>\<open>send_commit\<close> without and
  with a place to wait, \<open>Send_Offer\<close> the blocking send of \<^verbatim>\<open>chan_send_step\<close>; the \<open>Wait\<close> rules are the publishing loop
  of \<^verbatim>\<open>op_wait_poll\<close>, and \<open>Wait_Begin\<close>, \<open>Wait_Recv\<close> and \<open>Wait_Slot\<close> with one arm the receives that block or park (\<^verbatim>\<open>block_recv\<close>,
  \<^verbatim>\<open>MnSched::park\<close>, \<^verbatim>\<open>park_wait\<close>, \<^verbatim>\<open>demote_recv_block\<close>); \<open>Withdraw_Early\<close> is the withdrawal of a demoted receive that found a value.
\<close>

definition update :: "'v world \<Rightarrow> nat \<Rightarrow> pends \<Rightarrow> 'v chan_state \<Rightarrow> 'v world" where
  "update w c ps ch = set_chan (w\<lparr>pend := ps\<rparr>) c ch"

definition register_op :: "'v world \<Rightarrow> nat \<Rightarrow> (nat \<times> nat \<times> bool) list \<Rightarrow> 'v world" where
  "register_op w p at = w\<lparr>ops := (ops w)(p := Some at)\<rparr>"

definition arms_of :: "(nat \<times> nat \<times> bool) list \<Rightarrow> nat list" where
  "arms_of at = map (\<lambda>(_, a, _). a) at"

inductive chan_step :: "(string \<Rightarrow> 'v) \<Rightarrow> (nat \<Rightarrow> nat option) \<Rightarrow> 'v world \<Rightarrow> 'v world \<Rightarrow> bool" for built cap where
  Try_Send: "send (pend w) (chan w c) (cap c) v None = (ps, ch, out) \<Longrightarrow> chan_step built cap w (update w c ps ch)"
| Send_Now: "ops w p = None \<Longrightarrow> pend w p = Queued \<Longrightarrow>
    send (pend w) (chan w c) (cap c) v (Some (p, 0)) = (ps, ch, out) \<Longrightarrow> out \<noteq> Offered \<Longrightarrow>
    chan_step built cap w (update w c ps ch)"
| Send_Offer: "ops w p = None \<Longrightarrow> pend w p = Queued \<Longrightarrow>
    send (pend w) (chan w c) (cap c) v (Some (p, 0)) = (ps, ch, Offered) \<Longrightarrow>
    chan_step built cap w (register_op (update w c ps ch) p [(c, 0, True)])"
| Wait_Begin: "ops w p = None \<Longrightarrow> pend w p = Queued \<Longrightarrow> chan_step built cap w (register_op w p [])"
| Wait_Offer: "ops w p = Some at \<Longrightarrow> arm \<notin> set (arms_of at) \<Longrightarrow> \<not> closed (chan w c) \<Longrightarrow>
    \<not> send_ready_for (pend w) (chan w c) (cap c) (Some p) \<Longrightarrow>
    chan_step built cap w (register_op (set_chan w c (publish_offer (chan w c) p arm v)) p (at @ [(c, arm, True)]))"
| Wait_Recv: "ops w p = Some at \<Longrightarrow> arm \<notin> set (arms_of at) \<Longrightarrow>
    chan_step built cap w (register_op w p (at @ [(c, arm, False)]))"
| Wait_Slot: "ops w p = Some at \<Longrightarrow> (c, arm, False) \<in> set at \<Longrightarrow> cap c = Some 0 \<Longrightarrow> \<not> closed (chan w c) \<Longrightarrow>
    \<not> recv_ready_for (pend w) (chan w c) (Some p) \<Longrightarrow>
    \<not> list_ex (\<lambda>s. s_p s = p \<and> s_arm s = arm) (recvq (chan w c)) \<Longrightarrow>
    chan_step built cap w (set_chan w c (publish_slot (chan w c) p arm))"
| Recv: "recv_ready built latched (pend w) (chan w c) = (ps, ch, r) \<Longrightarrow> chan_step built cap w (update w c ps ch)"
| Close: "close (pend w) (chan w c) = (ps, ch) \<Longrightarrow> chan_step built cap w (update w c ps ch)"
| Seal: "seal (chan w c) v = (ch, b) \<Longrightarrow> chan_step built cap w (set_chan w c ch)"
| Seal_Err: "seal_err (chan w c) msg = (ch, b) \<Longrightarrow> chan_step built cap w (set_chan w c ch)"
| Withdraw_Early: "ops w p = Some [(c, arm, False)] \<Longrightarrow> pend w p = Queued \<Longrightarrow>
    chan_step built cap w (update w c (fst (try_cancel (pend w) p)) (withdraw (chan w c) p))"
| Settle: "ops w p = Some at \<Longrightarrow> settle_op w p = (w', r) \<Longrightarrow> chan_step built cap w w'"

definition world_init :: "'v world \<Rightarrow> bool" where
  "world_init w \<longleftrightarrow> pend w = (\<lambda>_. Queued) \<and> chan w = (\<lambda>_. chan_new) \<and> ops w = (\<lambda>_. None)"

end
