(* ===== verification/ChannelCorrect.thy ===== *)
theory ChannelCorrect
  imports Channel "HOL-Library.Sublist"
begin

text \<open>
  What channels promise. Receives take values first in, first out, from the buffer and then from the blocked
  senders; a commit record changes once; a party that settles learns exactly what happened to it; buffers
  stay within their capacity; and a sender never waits where a receiver waits, or where there is room.
\<close>

subsection \<open>First in, first out\<close>

text \<open>A channel as the user sees it: the buffer and the line of waiting senders, each with its value.\<close>

type_synonym 'v line = "'v list \<times> (nat \<times> 'v) list"

fun fifo_recv :: "'v line \<Rightarrow> 'v line \<times> 'v option" where
  "fifo_recv ([], []) = (([], []), None)"
| "fifo_recv (v # vs, []) = ((vs, []), Some v)"
| "fifo_recv ([], (p, x) # ws) = (([], filter (\<lambda>w. fst w \<noteq> p) ws), Some x)"
| "fifo_recv (v # vs, (p, x) # ws) = ((vs @ [x], filter (\<lambda>w. fst w \<noteq> p) ws), Some v)"

fun fifo_send :: "nat option \<Rightarrow> 'v line \<Rightarrow> 'v \<Rightarrow> nat option \<Rightarrow> 'v line \<times> send_outcome" where
  "fifo_send cap (vs, ws) v off =
     (if (case cap of None \<Rightarrow> True | Some n \<Rightarrow> length vs < n) then ((vs @ [v], ws), Sent)
      else case off of Some p \<Rightarrow> ((vs, ws @ [(p, v)]), Offered) | None \<Rightarrow> ((vs, ws), Full))"

definition line_values :: "'v line \<Rightarrow> 'v list" where
  "line_values l = fst l @ map snd (snd l)"

definition waiting :: "pends \<Rightarrow> nat option \<Rightarrow> 'v offer list \<Rightarrow> (nat \<times> 'v) list" where
  "waiting ps me os = map (\<lambda>o'. (o_p o', o_v o')) (filter (\<lambda>o'. ps (o_p o') = Queued \<and> \<not> is_me (o_p o') me) os)"

definition line_of_chan :: "pends \<Rightarrow> nat option \<Rightarrow> 'v chan_state \<Rightarrow> 'v line" where
  "line_of_chan ps me ch = (queue ch, waiting ps me (sendq ch))"

lemma waiting_simps [simp]:
  "waiting ps me [] = []" "waiting ps me (xs @ ys) = waiting ps me xs @ waiting ps me ys"
  "waiting ps me (x # xs) = (if ps (o_p x) = Queued \<and> \<not> is_me (o_p x) me then (o_p x, o_v x) # waiting ps me xs else waiting ps me xs)"
  by (simp_all add: waiting_def)

lemma waiting_commit: "waiting (ps(p := Done_P a)) me os = filter (\<lambda>w. fst w \<noteq> p) (waiting ps me os)"
  by (induction os) (auto simp: waiting_def)

lemma take_scan_waiting:
  "take_scan ps me os = (ps', os', r) \<Longrightarrow>
   (case waiting ps me os of
      [] \<Rightarrow> ps' = ps \<and> waiting ps me os' = [] \<and> r = None
    | (p, v) # ws \<Rightarrow> (\<exists>a. ps' = ps(p := Done_P a)) \<and> waiting ps' me os' = filter (\<lambda>w. fst w \<noteq> p) ws \<and> r = Some v)"
proof (induction os arbitrary: ps' os' r)
  case (Cons x os)
  obtain ps1 os1 r1 where t: "take_scan ps me os = (ps1, os1, r1)" by (cases "take_scan ps me os") auto
  show ?case
  proof (cases "is_me (o_p x) me")
    case True
    then show ?thesis using Cons.prems Cons.IH [OF t] t by (auto split: list.splits)
  next
    case False
    then show ?thesis using Cons.prems Cons.IH
      by (cases "ps (o_p x) = Queued") (auto simp: try_commit_def waiting_commit split: list.splits)
  qed
qed simp

lemma pop_for_fifo:
  assumes "\<not> sealed ch" "pop_for ps ch me = (ps', ch', r)"
  shows "(line_of_chan ps' me ch', r) = fifo_recv (line_of_chan ps me ch)"
proof -
  obtain ps1 os1 r1 where t: "take_scan ps me (sendq ch) = (ps1, os1, r1)" by (cases "take_scan ps me (sendq ch)") auto
  note w = take_scan_waiting [OF t]
  show ?thesis
  proof (cases "waiting ps me (sendq ch)")
    case Nil
    then show ?thesis using assms w t
      by (cases "queue ch") (auto simp: pop_for_def take_offer_def line_of_chan_def)
  next
    case (Cons pv ws)
    then show ?thesis using assms w t
      by (cases pv; cases "queue ch") (auto simp: pop_for_def take_offer_def line_of_chan_def push_value_def)
  qed
qed

lemma send_fifo:
  assumes "\<not> closed ch" "cap \<noteq> Some 0" "send ps ch cap v off = (ps', ch', out)"
    "\<And>p a. off = Some (p, a) \<Longrightarrow> ps p = Queued \<and> \<not> is_me p me"
  shows "ps' = ps \<and> (line_of_chan ps' me ch', out) = fifo_send cap (line_of_chan ps me ch) v (map_option fst off)"
  using assms
  by (cases cap; cases off)
     (auto simp: send_def line_of_chan_def push_value_def offer_or_full_def publish_offer_def split: nat.splits if_splits)

lemma fifo_recv_head:
  "distinct (map fst ws) \<Longrightarrow> fifo_recv (vs, ws) = ((vs', ws'), Some x) \<Longrightarrow> vs @ map snd ws = x # vs' @ map snd ws'"
proof -
  have k: "filter (\<lambda>w. fst w \<noteq> p) us = us" if "p \<notin> fst ` set us" for p and us :: "(nat \<times> 'v) list"
    using that by (auto simp: filter_id_conv)
  show "distinct (map fst ws) \<Longrightarrow> fifo_recv (vs, ws) = ((vs', ws'), Some x) \<Longrightarrow> vs @ map snd ws = x # vs' @ map snd ws'"
    by (cases "(vs, ws)" rule: fifo_recv.cases) (auto simp: k)
qed

subsection \<open>The entries of the blocked parties\<close>

text \<open>
  Every offer and slot belongs to a registered party under one of its arms; a slot is filled exactly when its
  party is done on that arm; a party that is done on an arm has its value: taken from its offer, or waiting in its slot.
\<close>

definition offer_key :: "'v offer \<Rightarrow> nat \<times> nat" where
  "offer_key x = (o_p x, o_arm x)"

definition slot_key :: "'v slot \<Rightarrow> nat \<times> nat" where
  "slot_key s = (s_p s, s_arm s)"

definition entry_of :: "'v world \<Rightarrow> nat \<Rightarrow> nat \<times> nat \<Rightarrow> bool \<Rightarrow> bool" where
  "entry_of w c k b \<longleftrightarrow> (\<exists>at. ops w (fst k) = Some at \<and> (c, snd k, b) \<in> set at)"

definition wf_offers :: "'v world \<Rightarrow> bool" where
  "wf_offers w \<longleftrightarrow> (\<forall>c x. x \<in> set (sendq (chan w c)) \<longrightarrow> entry_of w c (offer_key x) True \<and> pend w (o_p x) \<noteq> Done_P (o_arm x))"

definition wf_slots :: "'v world \<Rightarrow> bool" where
  "wf_slots w \<longleftrightarrow> (\<forall>c s. s \<in> set (recvq (chan w c)) \<longrightarrow>
     entry_of w c (slot_key s) False \<and> (s_got s \<noteq> None \<longleftrightarrow> pend w (s_p s) = Done_P (s_arm s)))"

definition wf_keys :: "'v world \<Rightarrow> bool" where
  "wf_keys w \<longleftrightarrow> (\<forall>c. distinct (map offer_key (sendq (chan w c))) \<and> distinct (map slot_key (recvq (chan w c))))"

definition wf_arms :: "'v world \<Rightarrow> bool" where
  "wf_arms w \<longleftrightarrow> (\<forall>p at. ops w p = Some at \<longrightarrow> distinct (arms_of at))"

definition filled_at :: "'v chan_state \<Rightarrow> nat \<times> nat \<Rightarrow> bool" where
  "filled_at ch k \<longleftrightarrow> (\<exists>s\<in>set (recvq ch). slot_key s = k \<and> s_got s \<noteq> None)"

definition wf_done :: "'v world \<Rightarrow> bool" where
  "wf_done w \<longleftrightarrow> (\<forall>p a. ops w p \<noteq> None \<longrightarrow> pend w p = Done_P a \<longrightarrow>
     (\<exists>c. entry_of w c (p, a) True \<or> entry_of w c (p, a) False \<and> filled_at (chan w c) (p, a)))"

definition wf_world :: "'v world \<Rightarrow> bool" where
  "wf_world w \<longleftrightarrow> wf_offers w \<and> wf_slots w \<and> wf_keys w \<and> wf_arms w \<and> wf_done w"

lemma subseq_set: "subseq xs ys \<Longrightarrow> set xs \<subseteq> set ys"
  by (auto simp: subseq_conv_nths dest: in_set_nthsD)

lemma subseq_distinct: "subseq xs ys \<Longrightarrow> distinct ys \<Longrightarrow> distinct xs"
  by (auto simp: subseq_conv_nths intro: distinct_nthsI)

lemma entry_of_unique:
  assumes "wf_arms w" "entry_of w c k b" "entry_of w c' k b'"
  shows "c = c' \<and> b = b'"
proof -
  have "distinct (map (\<lambda>(_, a, _). a) at) \<Longrightarrow> (c, a, b) \<in> set at \<Longrightarrow> (c', a, b') \<in> set at \<Longrightarrow> c = c' \<and> b = b'" for at a
    by (induction at) (auto simp: image_iff)
  then show ?thesis using assms unfolding wf_arms_def entry_of_def arms_of_def by (metis option.inject)
qed

text \<open>
  What an operation on one channel may do to the entries: settle queued parties, drop offers and unfilled slots,
  and fill a slot of a party it settles. A party it settles as done had its offer here, now gone, or has a filled slot.
\<close>

definition chan_move :: "pends \<Rightarrow> 'v chan_state \<Rightarrow> pends \<Rightarrow> 'v chan_state \<Rightarrow> bool" where
  "chan_move ps ch ps' ch' \<longleftrightarrow>
     (\<forall>p. ps p \<noteq> Queued \<longrightarrow> ps' p = ps p) \<and>
     subseq (sendq ch') (sendq ch) \<and> subseq (map slot_key (recvq ch')) (map slot_key (recvq ch)) \<and>
     (\<forall>s\<in>set (recvq ch'). s \<in> set (recvq ch) \<or> s_got s \<noteq> None \<and> ps' (s_p s) = Done_P (s_arm s)) \<and>
     (\<forall>s\<in>set (recvq ch). s_got s \<noteq> None \<longrightarrow> s \<in> set (recvq ch')) \<and>
     (\<forall>p a. ps p = Queued \<longrightarrow> ps' p = Done_P a \<longrightarrow>
        (p, a) \<in> offer_key ` set (sendq ch) \<and> (p, a) \<notin> offer_key ` set (sendq ch') \<or>
        filled_at ch' (p, a))"

lemma chan_moveD:
  assumes "chan_move ps ch ps' ch'"
  shows "\<And>p. ps p \<noteq> Queued \<Longrightarrow> ps' p = ps p"
    and "subseq (sendq ch') (sendq ch)" "subseq (map slot_key (recvq ch')) (map slot_key (recvq ch))"
    and "\<And>s. s \<in> set (recvq ch') \<Longrightarrow> s \<in> set (recvq ch) \<or> s_got s \<noteq> None \<and> ps' (s_p s) = Done_P (s_arm s)"
    and "\<And>s. s \<in> set (recvq ch) \<Longrightarrow> s_got s \<noteq> None \<Longrightarrow> s \<in> set (recvq ch')"
    and "\<And>p a. ps p = Queued \<Longrightarrow> ps' p = Done_P a \<Longrightarrow>
        (p, a) \<in> offer_key ` set (sendq ch) \<and> (p, a) \<notin> offer_key ` set (sendq ch') \<or> filled_at ch' (p, a)"
  using assms by (auto simp: chan_move_def)

lemma ops_update [simp]: "ops (update w c ps ch) = ops w" "pend (update w c ps ch) = ps"
  "chan (update w c ps ch) = (chan w)(c := ch)"
  by (simp_all add: update_def set_chan_def)

lemma entry_of_update [simp]: "entry_of (update w c ps ch) = entry_of w"
  by (simp add: entry_of_def fun_eq_iff)

lemma move_entry:
  assumes wf: "wf_world w" and m: "chan_move (pend w) (chan w c) ps ch" and q: "pend w p = Queued" and d: "ps p = Done_P a"
  shows "entry_of w c (p, a) True \<and> (p, a) \<notin> offer_key ` set (sendq ch) \<or> entry_of w c (p, a) False \<and> filled_at ch (p, a)"
proof -
  have so: "entry_of w c (slot_key s) False" if s: "s \<in> set (recvq ch)" for s
  proof -
    have "slot_key s \<in> set (map slot_key (recvq ch))" using s by simp
    then have "slot_key s \<in> set (map slot_key (recvq (chan w c)))"
      using chan_moveD(3) [OF m] by (blast dest: subseq_set)
    then show ?thesis using wf by (auto simp: wf_world_def wf_slots_def)
  qed
  from chan_moveD(6) [OF m q d] show ?thesis
  proof
    assume "(p, a) \<in> offer_key ` set (sendq (chan w c)) \<and> (p, a) \<notin> offer_key ` set (sendq ch)"
    then show ?thesis using wf by (auto simp: wf_world_def wf_offers_def)
  next
    assume f: "filled_at ch (p, a)"
    then obtain s where "s \<in> set (recvq ch)" "slot_key s = (p, a)" by (auto simp: filled_at_def)
    then show ?thesis using so [of s] f by simp
  qed
qed

lemma move_wf_offers:
  assumes wf: "wf_world w" and m: "chan_move (pend w) (chan w c) ps ch"
  shows "wf_offers (update w c ps ch)"
proof -
  have "entry_of w d (offer_key x) True \<and> ps (o_p x) \<noteq> Done_P (o_arm x)"
    if x: "x \<in> set (sendq (((chan w)(c := ch)) d))" for d x
  proof -
    have old: "x \<in> set (sendq (chan w d))"
      using x chan_moveD(2) [OF m] by (auto split: if_splits dest: subseq_set)
    then have e: "entry_of w d (offer_key x) True" and n: "pend w (o_p x) \<noteq> Done_P (o_arm x)"
      using wf by (auto simp: wf_world_def wf_offers_def)
    have False if d: "ps (o_p x) = Done_P (o_arm x)"
    proof -
      have q: "pend w (o_p x) = Queued" using n d chan_moveD(1) [OF m, of "o_p x"] by (cases "pend w (o_p x)") auto
      from move_entry [OF wf m q d] show False
        using entry_of_unique [of w c "offer_key x" True d True] entry_of_unique [of w c "offer_key x" False d True] e wf x
        by (auto simp: wf_world_def offer_key_def split: if_splits)
    qed
    then show ?thesis using e by blast
  qed
  then show ?thesis by (simp add: wf_offers_def)
qed

lemma move_wf_slots:
  assumes wf: "wf_world w" and m: "chan_move (pend w) (chan w c) ps ch"
  shows "wf_slots (update w c ps ch)"
proof -
  have kd: "distinct (map slot_key (recvq ch))"
    using chan_moveD(3) [OF m] wf by (auto simp: wf_world_def wf_keys_def intro: subseq_distinct)
  have "entry_of w d (slot_key s) False \<and> (s_got s \<noteq> None \<longleftrightarrow> ps (s_p s) = Done_P (s_arm s))"
    if s: "s \<in> set (recvq (((chan w)(c := ch)) d))" for d s
  proof (cases "s \<in> set (recvq (chan w d))")
    case True
    then have e: "entry_of w d (slot_key s) False" and g: "s_got s \<noteq> None \<longleftrightarrow> pend w (s_p s) = Done_P (s_arm s)"
      using wf by (auto simp: wf_world_def wf_slots_def)
    have False if q: "pend w (s_p s) = Queued" and d: "ps (s_p s) = Done_P (s_arm s)"
    proof -
      have f: "d = c \<and> filled_at ch (slot_key s)" using move_entry [OF wf m q d] e wf
          entry_of_unique [of w c "slot_key s" True d False] entry_of_unique [of w c "slot_key s" False d False]
        by (auto simp: wf_world_def slot_key_def)
      then obtain s' where s': "s' \<in> set (recvq ch)" "slot_key s' = slot_key s" "s_got s' \<noteq> None"
        by (auto simp: filled_at_def)
      then have "s' = s" using kd s f by (auto simp: distinct_map dest: inj_onD)
      then show False using s' g q by simp
    qed
    then show ?thesis using e g chan_moveD(1) [OF m, of "s_p s"] by (cases "pend w (s_p s) = Queued") auto
  next
    case False
    then have c: "d = c" "s \<in> set (recvq ch)" using s by (auto split: if_splits)
    then have "slot_key s \<in> slot_key ` set (recvq (chan w c))" using chan_moveD(3) [OF m] by (fastforce dest: subseq_set)
    then show ?thesis using c False chan_moveD(4) [OF m c(2)] wf by (auto simp: wf_world_def wf_slots_def)
  qed
  then show ?thesis by (simp add: wf_slots_def)
qed

lemma move_wf_done:
  assumes wf: "wf_world w" and m: "chan_move (pend w) (chan w c) ps ch"
  shows "wf_done (update w c ps ch)"
proof -
  have keep: "filled_at (((chan w)(c := ch)) d) k" if "filled_at (chan w d) k" for d k
    using that chan_moveD(5) [OF m] by (auto simp: filled_at_def)
  have "\<exists>d. entry_of w d (p, a) True \<or> entry_of w d (p, a) False \<and> filled_at (((chan w)(c := ch)) d) (p, a)"
    if o': "ops w p \<noteq> None" and d: "ps p = Done_P a" for p a
  proof (cases "pend w p = Queued")
    case True
    from move_entry [OF wf m True d] show ?thesis by (metis fun_upd_same)
  next
    case False
    then have "pend w p = Done_P a" using d chan_moveD(1) [OF m] by simp
    then obtain d where "entry_of w d (p, a) True \<or> entry_of w d (p, a) False \<and> filled_at (chan w d) (p, a)"
      using wf o' by (auto simp: wf_world_def wf_done_def)
    then show ?thesis using keep [of d "(p, a)"] by blast
  qed
  then show ?thesis by (simp add: wf_done_def)
qed

lemma move_wf: "wf_world w \<Longrightarrow> chan_move (pend w) (chan w c) ps ch \<Longrightarrow> wf_world (update w c ps ch)"
  using move_wf_offers [of w c ps ch] move_wf_slots [of w c ps ch] move_wf_done [of w c ps ch]
  by (auto simp: wf_world_def wf_keys_def wf_arms_def dest: chan_moveD(2,3) intro: subseq_distinct subseq_map)

subsection \<open>The operations on one channel\<close>

text \<open>A move depends on the two lists of entries only.\<close>

lemma chan_move_cong:
  "chan_move ps ch ps' ch' \<Longrightarrow> sendq c = sendq ch \<Longrightarrow> recvq c = recvq ch \<Longrightarrow> sendq c' = sendq ch' \<Longrightarrow> recvq c' = recvq ch' \<Longrightarrow>
   chan_move ps c ps' c'"
  by (simp add: chan_move_def filled_at_def)

lemma chan_move_same: "sendq ch' = sendq ch \<Longrightarrow> recvq ch' = recvq ch \<Longrightarrow> chan_move ps ch ps ch'"
  by (simp add: chan_move_def)

lemma chan_move_drop_slot:
  "chan_move ps (ch\<lparr>recvq := ss\<rparr>) ps' ch' \<Longrightarrow> s_got s = None \<Longrightarrow> chan_move ps (ch\<lparr>recvq := s # ss\<rparr>) ps' ch'"
  by (auto simp: chan_move_def)

lemma give_scan_move:
  "give_scan ps me v ss = (ps', ss', b) \<Longrightarrow> chan_move ps (ch\<lparr>recvq := ss\<rparr>) ps' (ch\<lparr>recvq := ss'\<rparr>)"
proof (induction ss arbitrary: ps' ss' b)
  case (Cons s ss)
  obtain ps1 ss1 b1 where t: "give_scan ps me v ss = (ps1, ss1, b1)" by (cases "give_scan ps me v ss") auto
  note ih = Cons.IH [OF t]
  show ?case
  proof (cases "s_got s \<noteq> None \<or> is_me (s_p s) me")
    case True
    then have "ps' = ps1" "ss' = s # ss1" using Cons.prems t by auto
    then show ?thesis using ih by (fastforce simp: chan_move_def filled_at_def)
  next
    case False
    show ?thesis
    proof (cases "ps (s_p s) = Queued")
      case True
      then have "ps' = ps(s_p s := Done_P (s_arm s))" "ss' = s\<lparr>s_got := Some v\<rparr> # ss"
        using False Cons.prems by (auto simp: try_commit_def)
      then show ?thesis using True False by (auto simp: chan_move_def filled_at_def slot_key_def)
    next
      case nq: False
      then have "ps' = ps1" "ss' = ss1" using False Cons.prems t by (auto simp: try_commit_def)
      then show ?thesis using ih False by (simp add: chan_move_drop_slot)
    qed
  qed
qed (simp add: chan_move_def)

lemma give_move: "give ps ch v me = (ps', ch', b) \<Longrightarrow> chan_move ps ch ps' ch'"
  using give_scan_move [of ps me v "recvq ch" _ _ _ ch] by (auto simp: give_def split: prod.splits)

lemma take_scan_move:
  "take_scan ps me os = (ps', os', r) \<Longrightarrow> distinct (map offer_key os) \<Longrightarrow> chan_move ps (ch\<lparr>sendq := os\<rparr>) ps' (ch\<lparr>sendq := os'\<rparr>)"
proof (induction os arbitrary: ps' os' r)
  case (Cons x os)
  obtain ps1 os1 r1 where t: "take_scan ps me os = (ps1, os1, r1)" by (cases "take_scan ps me os") auto
  have ih: "chan_move ps (ch\<lparr>sendq := os\<rparr>) ps1 (ch\<lparr>sendq := os1\<rparr>)" using Cons.IH [OF t] Cons.prems by simp
  show ?case
  proof (cases "is_me (o_p x) me")
    case True
    then have "ps' = ps1" "os' = x # os1" using Cons.prems t by auto
    then show ?thesis using ih Cons.prems by (fastforce simp: chan_move_def filled_at_def)
  next
    case False
    show ?thesis
    proof (cases "ps (o_p x) = Queued")
      case True
      then have "ps' = ps(o_p x := Done_P (o_arm x))" "os' = os" using False Cons.prems by (auto simp: try_commit_def)
      then show ?thesis using True Cons.prems(2) by (auto simp: chan_move_def filled_at_def offer_key_def)
    next
      case nq: False
      then have "ps' = ps1" "os' = os1" using False Cons.prems t by (auto simp: try_commit_def)
      then show ?thesis using ih nq by (auto simp: chan_move_def)
    qed
  qed
qed (simp add: chan_move_def)

lemma take_offer_move:
  "take_offer ps ch me = (ps', ch', r) \<Longrightarrow> distinct (map offer_key (sendq ch)) \<Longrightarrow> chan_move ps ch ps' ch'"
  using take_scan_move [of ps me "sendq ch" _ _ _ ch] by (auto simp: take_offer_def split: prod.splits)

lemma pop_for_move:
  assumes "pop_for ps ch me = (ps', ch', r)" "distinct (map offer_key (sendq ch))"
  shows "chan_move ps ch ps' ch'"
proof -
  obtain ps1 os1 r1 where t: "take_scan ps me (sendq ch) = (ps1, os1, r1)" by (cases "take_scan ps me (sendq ch)") auto
  have m: "chan_move ps ch ps1 (ch\<lparr>sendq := os1\<rparr>)" using take_scan_move [OF t assms(2), of ch] by simp
  have c: "chan_move ps ch ps1 c" if "sendq c = os1" "recvq c = recvq ch" for c
    by (rule chan_move_cong [OF m]) (use that in auto)
  show ?thesis using assms(1) t c
    by (auto simp: pop_for_def take_offer_def push_value_def split: if_splits list.splits option.splits intro: chan_move_same)
qed

lemma build_outcome_entries [simp]: "sendq (build_outcome ch v) = sendq ch" "recvq (build_outcome ch v) = recvq ch"
  by (simp_all add: build_outcome_def)

lemma recv_ready_move:
  assumes "recv_ready built latched ps ch = (ps', ch', r)" "distinct (map offer_key (sendq ch))"
  shows "chan_move ps ch ps' ch'"
proof -
  define ch1 where "ch1 = (case unbuilt ch of Some msg \<Rightarrow> build_outcome ch (built msg) | None \<Rightarrow> ch)"
  have e: "sendq ch1 = sendq ch" "recvq ch1 = recvq ch" by (simp_all add: ch1_def split: option.split)
  obtain r' where "pop_for ps ch1 None = (ps', ch', r')"
    using assms(1) by (auto simp: recv_ready_def Let_def pop_def ch1_def [symmetric] split: prod.splits option.splits)
  from pop_for_move [OF this] show ?thesis using assms(2) e by (auto intro: chan_move_cong)
qed

lemma fold_try_close:
  "fold (\<lambda>x ps. fst (try_close ps (o_p x))) os ps = (\<lambda>p. if ps p = Queued \<and> p \<in> o_p ` set os then Closed_P else ps p)"
  by (induction os arbitrary: ps) (auto simp: try_close_def fun_eq_iff)

lemma close_move: "close ps ch = (ps', ch') \<Longrightarrow> chan_move ps ch ps' ch'"
  by (auto simp: close_def fold_try_close chan_move_def intro: subseq_map split: if_splits)

definition within :: "nat option \<Rightarrow> nat \<Rightarrow> bool" where
  "within cap n \<longleftrightarrow> (case cap of None \<Rightarrow> True | Some m \<Rightarrow> n \<le> m)"

lemma send_now_cases:
  assumes "send ps ch cap v off = (ps', ch', out)" "out \<noteq> Offered"
  obtains "ps' = ps" "ch' = ch" | "ps' = ps" "ch' = push_value ch v" "within cap (length (queue ch) + 1)"
    | me b where "give ps ch v me = (ps', ch', b)"
proof (cases "closed ch")
  case True
  then show ?thesis using assms that(1) by (simp add: send_def)
next
  case False
  show ?thesis
  proof (cases cap)
    case None
    then show ?thesis using assms False that(2) by (simp add: send_def within_def)
  next
    case (Some n)
    show ?thesis
    proof (cases "n = 0")
      case True
      obtain ps1 ch1 b where g: "give ps ch v (map_option fst off) = (ps1, ch1, b)"
        by (cases "give ps ch v (map_option fst off)") auto
      then have "ps' = ps1 \<and> ch' = ch1" using assms False Some True
        by (cases b; cases off) (auto simp: send_def offer_or_full_def)
      then show ?thesis using g that(3) by blast
    next
      case nz: False
      then obtain m where "n = Suc m" by (cases n) auto
      then show ?thesis using assms False Some that(1,2)
        by (cases "length (queue ch) < n"; cases off) (auto simp: send_def offer_or_full_def within_def)
    qed
  qed
qed

lemma send_now_move: "send ps ch cap v off = (ps', ch', out) \<Longrightarrow> out \<noteq> Offered \<Longrightarrow> chan_move ps ch ps' ch'"
  by (erule send_now_cases, assumption) (auto simp: push_value_def intro: chan_move_same dest: give_move)

lemma give_scan_none:
  "give_scan ps me v ss = (ps', ss', False) \<Longrightarrow> ps' = ps \<and> (\<forall>s\<in>set ss'. s_got s \<noteq> None \<or> is_me (s_p s) me)"
  by (induction ss arbitrary: ps' ss') (auto simp: try_commit_def split: if_splits prod.splits)

lemma send_offered:
  assumes "send ps ch cap v (Some (p, a)) = (ps', ch', Offered)"
  shows "\<exists>ch1. chan_move ps ch ps ch1 \<and> ps' = ps \<and> ch' = publish_offer ch1 p a v \<and> queue ch1 = queue ch \<and> \<not> closed ch \<and>
    closed ch1 = closed ch \<and> sealed ch1 = sealed ch \<and> unbuilt ch1 = unbuilt ch \<and> \<not> send_ready_for ps ch1 cap (Some p)"
proof -
  obtain ps1 ss b where g: "give_scan ps (Some p) v (recvq ch) = (ps1, ss, b)" by (cases "give_scan ps (Some p) v (recvq ch)") auto
  have nc: "\<not> closed ch" using assms by (auto simp: send_def)
  obtain n where n: "cap = Some n" using assms by (auto simp: send_def split: if_splits option.splits)
  show ?thesis
  proof (cases "n = 0")
    case True
    then have "b = False" "ps' = ps1" "ch' = publish_offer (ch\<lparr>recvq := ss\<rparr>) p a v"
      using assms g n by (auto simp: send_def give_def offer_or_full_def split: if_splits bool.splits)
    then show ?thesis using g nc n True give_move [of ps ch v "Some p" ps1 "ch\<lparr>recvq := ss\<rparr>" b]
      by (intro exI [of _ "ch\<lparr>recvq := ss\<rparr>"])
         (auto simp: give_def send_ready_for_def list_ex_iff is_me_def dest!: give_scan_none)
  next
    case False
    then have "\<not> length (queue ch) < n" "ps' = ps" "ch' = publish_offer ch p a v"
      using assms n nc by (auto simp: send_def offer_or_full_def split: if_splits nat.splits)
    then show ?thesis using nc n False
      by (intro exI [of _ ch]) (auto simp: send_ready_for_def chan_move_same split: nat.splits)
  qed
qed

subsection \<open>Nobody waits in vain\<close>

text \<open>
  A live offer waits where there is no room; a live slot only on a channel without a buffer, and never beside a
  live offer of another party; a closed channel has no waiting party; and the buffer keeps within the capacity.
\<close>

definition waiting_offer :: "pends \<Rightarrow> 'v chan_state \<Rightarrow> nat \<Rightarrow> bool" where
  "waiting_offer ps ch p \<longleftrightarrow> ps p = Queued \<and> p \<in> o_p ` set (sendq ch)"

definition waiting_slot :: "pends \<Rightarrow> 'v chan_state \<Rightarrow> nat \<Rightarrow> bool" where
  "waiting_slot ps ch p \<longleftrightarrow> ps p = Queued \<and> (\<exists>s\<in>set (recvq ch). s_p s = p \<and> s_got s = None)"

definition at_cap :: "nat option \<Rightarrow> nat \<Rightarrow> bool" where
  "at_cap cap n \<longleftrightarrow> (case cap of None \<Rightarrow> False | Some m \<Rightarrow> m \<le> n)"

definition chan_ok :: "nat option \<Rightarrow> pends \<Rightarrow> 'v chan_state \<Rightarrow> bool" where
  "chan_ok cap ps ch \<longleftrightarrow>
     (closed ch \<and> \<not> sealed ch \<longrightarrow> sendq ch = [] \<and> (\<forall>s\<in>set (recvq ch). s_got s \<noteq> None)) \<and>
     (\<not> sealed ch \<longrightarrow> within cap (length (queue ch))) \<and>
     (\<forall>p. waiting_offer ps ch p \<longrightarrow> at_cap cap (length (queue ch))) \<and>
     (\<forall>p q. waiting_offer ps ch p \<longrightarrow> waiting_slot ps ch q \<longrightarrow> p = q) \<and>
     (recvq ch \<noteq> [] \<longrightarrow> cap = Some 0) \<and>
     (unbuilt ch \<noteq> None \<longrightarrow> sealed ch)"

lemma live_shrink:
  assumes "\<And>q. ps' q = Queued \<Longrightarrow> ps q = Queued" "set (sendq ch') \<subseteq> set (sendq ch)"
    "\<And>s. s \<in> set (recvq ch') \<Longrightarrow> s_got s = None \<Longrightarrow> s \<in> set (recvq ch)"
  shows "waiting_offer ps' ch' p \<Longrightarrow> waiting_offer ps ch p" "waiting_slot ps' ch' p \<Longrightarrow> waiting_slot ps ch p"
  using assms by (auto simp: waiting_offer_def waiting_slot_def)

lemma ok_shrink:
  assumes ok: "chan_ok cap ps ch"
    and sh: "\<And>q. ps' q = Queued \<Longrightarrow> ps q = Queued" "set (sendq ch') \<subseteq> set (sendq ch)"
      "\<And>s. s \<in> set (recvq ch') \<Longrightarrow> s_got s = None \<Longrightarrow> s \<in> set (recvq ch)"
    and e: "recvq ch = [] \<Longrightarrow> recvq ch' = []"
    and cl: "closed ch' \<Longrightarrow> sealed ch' \<or> closed ch \<and> \<not> sealed ch"
    and wi: "\<not> sealed ch' \<Longrightarrow> \<not> sealed ch \<and> within cap (length (queue ch'))"
    and at: "\<And>p. waiting_offer ps' ch' p \<Longrightarrow> length (queue ch) \<le> length (queue ch')"
    and un: "unbuilt ch' \<noteq> None \<Longrightarrow> sealed ch'"
  shows "chan_ok cap ps' ch'"
proof -
  have live: "waiting_offer ps' ch' p \<Longrightarrow> waiting_offer ps ch p" "waiting_slot ps' ch' p \<Longrightarrow> waiting_slot ps ch p" for p
    using live_shrink [of ps' ps ch' ch p] sh by blast+
  have "at_cap cap (length (queue ch'))" if "waiting_offer ps' ch' p" for p
    using at [OF that] live(1) [OF that] ok by (fastforce simp: chan_ok_def at_cap_def split: option.splits)
  moreover have "sendq ch' = [] \<and> (\<forall>s\<in>set (recvq ch'). s_got s \<noteq> None)" if "closed ch'" "\<not> sealed ch'"
    using cl that ok sh(2,3) by (fastforce simp: chan_ok_def)
  ultimately show ?thesis using ok live e wi un unfolding chan_ok_def by blast
qed

lemma move_ok:
  assumes "chan_ok cap ps ch" "chan_move ps ch ps' ch'"
    "closed ch' \<Longrightarrow> sealed ch' \<or> closed ch \<and> \<not> sealed ch"
    "\<not> sealed ch' \<Longrightarrow> \<not> sealed ch \<and> within cap (length (queue ch'))"
    "\<And>p. waiting_offer ps' ch' p \<Longrightarrow> length (queue ch) \<le> length (queue ch')"
    "unbuilt ch' \<noteq> None \<Longrightarrow> sealed ch'"
  shows "chan_ok cap ps' ch'"
proof (rule ok_shrink [OF assms(1) _ _ _ _ assms(3-6)])
  show "ps q = Queued" if "ps' q = Queued" for q using that chan_moveD(1) [OF assms(2), of q] by (cases "ps q") auto
  show "set (sendq ch') \<subseteq> set (sendq ch)" by (rule subseq_set [OF chan_moveD(2) [OF assms(2)]])
  show "s \<in> set (recvq ch)" if "s \<in> set (recvq ch')" "s_got s = None" for s
    using that chan_moveD(4) [OF assms(2) that(1)] by simp
  show "recvq ch' = []" if "recvq ch = []" using that chan_moveD(3) [OF assms(2)] by (auto dest: subseq_set)
qed simp_all

lemma give_frame: "give ps ch v me = (ps', ch', b) \<Longrightarrow> \<exists>ss. ch' = ch\<lparr>recvq := ss\<rparr>"
  by (auto simp: give_def split: prod.splits)

lemma send_now_ok:
  assumes ok: "chan_ok cap ps ch" and s: "send ps ch cap v off = (ps', ch', out)" and n: "out \<noteq> Offered"
  shows "chan_ok cap ps' ch'"
  using s n
proof (cases rule: send_now_cases)
  case 1
  then show ?thesis using ok by simp
next
  case 2
  show ?thesis by (rule move_ok [OF ok send_now_move [OF s n]]) (use 2 ok in \<open>simp_all add: chan_ok_def push_value_def\<close>)
next
  case (3 me b)
  obtain ss where "ch' = ch\<lparr>recvq := ss\<rparr>" using give_frame [OF 3] by blast
  then show ?thesis by (intro move_ok [OF ok send_now_move [OF s n]]) (use ok in \<open>simp_all add: chan_ok_def\<close>)
qed

lemma live_waiting: "waiting ps None (sendq ch) = [] \<Longrightarrow> \<not> waiting_offer ps ch p"
  by (auto simp: waiting_def waiting_offer_def is_me_def filter_empty_conv)

lemma pop_ok:
  assumes ok: "chan_ok cap ps ch" and r: "pop ps ch = (ps', ch', r)" and d: "distinct (map offer_key (sendq ch))"
  shows "chan_ok cap ps' ch'"
proof -
  have fr: "closed ch' = closed ch" "sealed ch' = sealed ch" "unbuilt ch' = unbuilt ch"
    using r by (auto simp: pop_def pop_for_def take_offer_def push_value_def split: if_splits list.splits option.splits prod.splits)
  have q: "queue ch' = queue ch \<or>
    \<not> sealed ch \<and> length (queue ch') \<le> length (queue ch) \<and> (waiting ps' None (sendq ch') = [] \<or> length (queue ch) \<le> length (queue ch'))"
  proof (cases "sealed ch")
    case True
    then show ?thesis using r by (auto simp: pop_def pop_for_def)
  next
    case False
    have "(line_of_chan ps' None ch', r) = fifo_recv (line_of_chan ps None ch)"
      using pop_for_fifo [OF False r [unfolded pop_def]] .
    then show ?thesis using False
      by (cases "line_of_chan ps None ch" rule: fifo_recv.cases) (auto simp: line_of_chan_def)
  qed
  show ?thesis
    by (rule move_ok [OF ok pop_for_move [OF r [unfolded pop_def] d]])
       (use q ok fr live_waiting [of ps' ch'] in \<open>auto simp: chan_ok_def within_def split: option.splits\<close>)
qed

lemma build_outcome_ok:
  assumes ok: "chan_ok cap ps ch"
  shows "chan_ok cap ps (build_outcome ch v)"
  by (rule move_ok [OF ok chan_move_same]) (use ok in \<open>auto simp: build_outcome_def chan_ok_def split: if_splits\<close>)

lemma recv_ready_ok:
  assumes ok: "chan_ok cap ps ch" and r: "recv_ready built latched ps ch = (ps', ch', r)" and d: "distinct (map offer_key (sendq ch))"
  shows "chan_ok cap ps' ch'"
proof -
  define ch1 where "ch1 = (case unbuilt ch of Some msg \<Rightarrow> build_outcome ch (built msg) | None \<Rightarrow> ch)"
  have "chan_ok cap ps ch1" "sendq ch1 = sendq ch" using ok by (auto simp: ch1_def build_outcome_ok split: option.split)
  moreover obtain r' where "pop ps ch1 = (ps', ch', r')"
    using r by (auto simp: recv_ready_def Let_def ch1_def [symmetric] split: prod.splits option.splits)
  ultimately show ?thesis using pop_ok d by metis
qed

lemma close_ok:
  assumes ok: "chan_ok cap ps ch" and c: "close ps ch = (ps', ch')"
  shows "chan_ok cap ps' ch'"
proof -
  have e: "ch' = ch\<lparr>closed := True, sendq := [], recvq := filter (\<lambda>s. s_got s \<noteq> None) (recvq ch)\<rparr>"
    using c by (simp add: close_def)
  have "\<not> waiting_offer ps' ch' p" for p by (simp add: e waiting_offer_def)
  moreover have "recvq ch' = [] \<or> recvq ch \<noteq> []" by (auto simp: e)
  ultimately show ?thesis using ok unfolding chan_ok_def by (simp add: e) blast
qed

lemma seal_ok: "chan_ok cap ps ch \<Longrightarrow> seal ch v = (ch', b) \<Longrightarrow> chan_ok cap ps ch'"
  by (erule move_ok [OF _ chan_move_same]) (auto simp: seal_def chan_ok_def split: if_splits)

lemma seal_err_ok: "chan_ok cap ps ch \<Longrightarrow> seal_err ch m = (ch', b) \<Longrightarrow> chan_ok cap ps ch'"
  by (erule move_ok [OF _ chan_move_same]) (auto simp: seal_err_def chan_ok_def split: if_splits)

lemma withdraw_ok:
  assumes "chan_ok cap ps ch" "\<And>q. ps' q = Queued \<Longrightarrow> ps q = Queued"
  shows "chan_ok cap ps' (withdraw ch p)"
  by (rule ok_shrink [OF assms(1)]) (use assms in \<open>auto simp: withdraw_def chan_ok_def\<close>)

lemma publish_offer_ok:
  assumes "chan_ok cap ps ch" "\<not> closed ch" "\<not> send_ready_for ps ch cap (Some p)"
  shows "chan_ok cap ps (publish_offer ch p a v)"
  using assms
  by (auto simp: chan_ok_def publish_offer_def waiting_offer_def waiting_slot_def send_ready_for_def list_ex_iff is_queued_def is_me_def at_cap_def
      split: option.splits nat.splits)

lemma publish_slot_ok:
  assumes "chan_ok (Some 0) ps ch" "\<not> closed ch" "\<not> recv_ready_for ps ch (Some p)"
  shows "chan_ok (Some 0) ps (publish_slot ch p a)"
  using assms
  by (auto simp: chan_ok_def publish_slot_def waiting_offer_def waiting_slot_def recv_ready_for_def list_ex_iff is_queued_def is_me_def)

subsection \<open>The parties\<close>

lemma register_op_simps [simp]: "ops (register_op w p at) = (ops w)(p := Some at)" "pend (register_op w p at) = pend w"
  "chan (register_op w p at) = chan w"
  by (simp_all add: register_op_def)

lemma set_chan_simps [simp]: "ops (set_chan w c ch) = ops w" "pend (set_chan w c ch) = pend w" "chan (set_chan w c ch) = (chan w)(c := ch)"
  by (simp_all add: set_chan_def)

lemma set_chan_update: "set_chan w c ch = update w c (pend w) ch"
  by (simp add: update_def)

text \<open>Registering more arms keeps every entry; an arm that is new can carry a new offer or slot.\<close>

lemma entry_of_register:
  assumes "ops w p = None \<or> ops w p = Some at" "entry_of w c k b"
  shows "entry_of (register_op w p (at @ xs)) c k b"
  using assms by (auto simp: entry_of_def)

lemma register_op_wf:
  assumes wf: "wf_world w" and o': "ops w p = None \<and> pend w p = Queued \<and> at = [] \<or> ops w p = Some at"
    and d: "distinct (arms_of (at @ xs))"
  shows "wf_world (register_op w p (at @ xs))"
proof -
  have e: "entry_of w c k b \<Longrightarrow> entry_of (register_op w p (at @ xs)) c k b" for c k b
    using entry_of_register [of w p at c k b xs] o' by blast
  have "wf_offers (register_op w p (at @ xs))" "wf_slots (register_op w p (at @ xs))"
    using wf by (simp_all add: wf_world_def wf_offers_def wf_slots_def e)
  moreover have "wf_done (register_op w p (at @ xs))"
    unfolding wf_done_def
  proof (intro allI impI)
    fix q a assume q: "ops (register_op w p (at @ xs)) q \<noteq> None" and pa: "pend (register_op w p (at @ xs)) q = Done_P a"
    then have "ops w q \<noteq> None" using o' by (auto split: if_splits)
    then obtain c where "entry_of w c (q, a) True \<or> entry_of w c (q, a) False \<and> filled_at (chan w c) (q, a)"
      using pa wf by (auto simp: wf_world_def wf_done_def)
    then show "\<exists>c. entry_of (register_op w p (at @ xs)) c (q, a) True \<or>
        entry_of (register_op w p (at @ xs)) c (q, a) False \<and> filled_at (chan (register_op w p (at @ xs)) c) (q, a)"
      by (auto intro: e)
  qed
  ultimately show ?thesis using wf d by (auto simp: wf_world_def wf_keys_def wf_arms_def)
qed

lemma wf_done_mono:
  assumes "wf_done w" "ops w' = ops w" "pend w' = pend w" "\<And>c k. filled_at (chan w c) k \<Longrightarrow> filled_at (chan w' c) k"
  shows "wf_done w'"
  using assms unfolding wf_done_def entry_of_def by metis

lemma publish_offer_wf:
  assumes wf: "wf_world w" and e: "entry_of w c (p, a) True" and n: "(p, a) \<notin> offer_key ` set (sendq (chan w c))"
    and q: "pend w p \<noteq> Done_P a"
  shows "wf_world (set_chan w c (publish_offer (chan w c) p a v))"
proof -
  have "wf_done (set_chan w c (publish_offer (chan w c) p a v))"
    by (rule wf_done_mono [of w]) (use wf in \<open>auto simp: wf_world_def filled_at_def publish_offer_def\<close>)
  then show ?thesis using wf e n q
    by (auto simp: wf_world_def wf_offers_def wf_slots_def wf_keys_def wf_arms_def entry_of_def publish_offer_def offer_key_def)
qed

lemma publish_slot_wf:
  assumes wf: "wf_world w" and e: "entry_of w c (p, a) False" and n: "(p, a) \<notin> slot_key ` set (recvq (chan w c))"
    and q: "pend w p \<noteq> Done_P a"
  shows "wf_world (set_chan w c (publish_slot (chan w c) p a))"
proof -
  have "wf_done (set_chan w c (publish_slot (chan w c) p a))"
    by (rule wf_done_mono [of w]) (use wf in \<open>auto simp: wf_world_def filled_at_def publish_slot_def\<close>)
  then show ?thesis using wf e n q
    by (auto simp: wf_world_def wf_offers_def wf_slots_def wf_keys_def wf_arms_def entry_of_def publish_slot_def slot_key_def)
qed

lemma done_arm:
  assumes "wf_world w" "ops w p = Some at" "pend w p = Done_P a"
  shows "a \<in> set (arms_of at)"
proof -
  obtain c b where "entry_of w c (p, a) b" using assms by (fastforce simp: wf_world_def wf_done_def)
  then show ?thesis using assms(2) by (force simp: entry_of_def arms_of_def)
qed

lemma offer_arm:
  assumes "wf_world w" "ops w p = Some at" "(p, a) \<in> offer_key ` set (sendq (chan w c))"
  shows "a \<in> set (arms_of at)"
proof -
  have "entry_of w c (p, a) True" using assms by (auto simp: wf_world_def wf_offers_def)
  then show ?thesis using assms(2) by (force simp: entry_of_def arms_of_def)
qed

lemma unfilled_not_done:
  assumes wf: "wf_world w" and e: "entry_of w c (p, a) False" and n: "(p, a) \<notin> slot_key ` set (recvq (chan w c))"
  shows "pend w p \<noteq> Done_P a"
proof
  assume "pend w p = Done_P a"
  moreover have "ops w p \<noteq> None" using e by (auto simp: entry_of_def)
  ultimately obtain d where d: "entry_of w d (p, a) True \<or> entry_of w d (p, a) False \<and> filled_at (chan w d) (p, a)"
    using wf unfolding wf_world_def wf_done_def by blast
  have "wf_arms w" using wf by (simp add: wf_world_def)
  note u = entry_of_unique [OF this e]
  from d show False
  proof
    assume "entry_of w d (p, a) True" then show False using u by blast
  next
    assume f: "entry_of w d (p, a) False \<and> filled_at (chan w d) (p, a)"
    then have "filled_at (chan w c) (p, a)" using u by blast
    then show False using n by (force simp: filled_at_def)
  qed
qed

text \<open>A party that settles leaves every channel it is on.\<close>

lemma withdraw_idem [simp]: "withdraw (withdraw ch p) p = withdraw ch p"
  by (simp add: withdraw_def)

lemma take_slot_filter: "take_slot p ss = (ss', r) \<Longrightarrow> filter (\<lambda>s. s_p s \<noteq> p) ss' = filter (\<lambda>s. s_p s \<noteq> p) ss"
  by (induction ss arbitrary: ss') (auto split: if_splits prod.splits)

lemma withdraw_take: "take_filled ch p = (ch', r) \<Longrightarrow> withdraw ch' p = withdraw ch p"
  by (auto simp: take_filled_def withdraw_def take_slot_filter split: prod.splits)

lemma withdraw_all_eq:
  "withdraw_all w p at = w\<lparr>chan := (\<lambda>c. if c \<in> fst ` set at then withdraw (chan w c) p else chan w c)\<rparr>"
  unfolding withdraw_all_def
  by (induction at arbitrary: w) (auto simp: set_chan_def fun_eq_iff)

lemma withdraw_none:
  assumes "wf_world w" "ops w p = Some at" "c \<notin> fst ` set at"
  shows "withdraw (chan w c) p = chan w c"
proof -
  have "o_p x \<noteq> p" if "x \<in> set (sendq (chan w c))" for x
    using that assms by (force simp: wf_world_def wf_offers_def entry_of_def offer_key_def)
  moreover have "s_p s \<noteq> p" if "s \<in> set (recvq (chan w c))" for s
    using that assms by (force simp: wf_world_def wf_slots_def entry_of_def slot_key_def)
  ultimately show ?thesis by (simp add: withdraw_def filter_id_conv [THEN iffD2])
qed

lemma find_in_set: "find P xs = Some x \<Longrightarrow> x \<in> set xs \<and> P x"
  by (auto simp: find_Some_iff)

lemma settled_of_frame:
  assumes "settled_of w p at = (w', r)"
  shows "withdraw (chan w' c) p = withdraw (chan w c) p" "c \<notin> fst ` set at \<Longrightarrow> chan w' c = chan w c"
    "ops w' = ops w" "pend w' = fst (try_cancel (pend w) p)"
proof -
  have k: "w' = w\<lparr>pend := fst (try_cancel (pend w) p)\<rparr> \<or>
    (\<exists>d. d \<in> fst ` set at \<and> w' = set_chan w d (fst (take_filled (chan w d) p)) \<and> pend w p \<noteq> Queued)"
  proof (cases "pend w p")
    case (Done_P a)
    show ?thesis
    proof (cases "find (\<lambda>(_, b, _). b = a) at")
      case (Some e)
      obtain d a' b where e: "e = (d, a', b)" by (cases e) auto
      then have "d \<in> fst ` set at" using find_in_set [OF Some] by force
      moreover have "w' = (if b then w else set_chan w d (fst (take_filled (chan w d) p)))"
        using assms Done_P Some e
        by (cases b; cases "take_filled (chan w d) p") (auto simp: settled_of_def try_cancel_def split: option.splits)
      ultimately show ?thesis using Done_P by (cases b) (auto simp: try_cancel_def)
    qed (rule disjI1, use assms Done_P in \<open>simp add: settled_of_def try_cancel_def\<close>)
  qed (rule disjI1, use assms in \<open>simp add: settled_of_def try_cancel_def\<close>)+
  show "withdraw (chan w' c) p = withdraw (chan w c) p" using k
    by (auto simp: withdraw_take [of "chan w c" p "fst (take_filled (chan w c) p)" "snd (take_filled (chan w c) p)"])
  show "chan w' c = chan w c" if "c \<notin> fst ` set at"
    using k that by (elim disjE exE conjE) auto
  show "ops w' = ops w" "pend w' = fst (try_cancel (pend w) p)"
    using k by (auto simp: try_cancel_def)
qed

lemma settle_world:
  assumes wf: "wf_world w" and o': "ops w p = Some at" and s: "settle_op w p = (w', r)"
  shows "w' = w\<lparr>pend := fst (try_cancel (pend w) p), chan := (\<lambda>c. withdraw (chan w c) p), ops := (ops w)(p := None)\<rparr>"
proof -
  obtain w1 where w1: "settled_of w p at = (w1, r)" and w': "w' = (withdraw_all w1 p at)\<lparr>ops := (ops w1)(p := None)\<rparr>"
    using s o' by (auto simp: settle_op_def split: prod.splits)
  note f = settled_of_frame [OF w1]
  have "(if c \<in> fst ` set at then withdraw (chan w1 c) p else chan w1 c) = withdraw (chan w c) p" for c
    using f(1,2) [of c] withdraw_none [OF wf o', of c] by auto
  then show ?thesis using w' f(3,4) by (simp add: withdraw_all_eq)
qed

lemma withdraw_entries [simp]:
  "set (sendq (withdraw ch p)) = {x \<in> set (sendq ch). o_p x \<noteq> p}" "set (recvq (withdraw ch p)) = {s \<in> set (recvq ch). s_p s \<noteq> p}"
  by (auto simp: withdraw_def)

lemma try_cancel_pends: "fst (try_cancel ps p) = ps(p := (if ps p = Queued then Cancelled_P else ps p))"
  by (auto simp: try_cancel_def)

lemma leave_wf:
  assumes wf: "wf_world w" and c: "\<And>c. chan w' c = withdraw (chan w c) p" and o': "ops w' = (ops w)(p := None)"
    and ps: "\<And>q. q \<noteq> p \<Longrightarrow> pend w' q = pend w q"
  shows "wf_world w'"
proof -
  have e: "entry_of w' c k b = entry_of w c k b" if "fst k \<noteq> p" for c k b using that o' by (simp add: entry_of_def)
  have "wf_offers w'" "wf_slots w'"
    using wf c ps e by (simp_all add: wf_world_def wf_offers_def wf_slots_def offer_key_def slot_key_def) blast+
  moreover have "wf_keys w'" "wf_arms w'"
    using wf c o' by (auto simp: wf_world_def wf_keys_def wf_arms_def withdraw_def distinct_map_filter)
  moreover have "wf_done w'" unfolding wf_done_def
  proof (intro allI impI)
    fix q a assume q: "ops w' q \<noteq> None" and d: "pend w' q = Done_P a"
    then have n: "q \<noteq> p" using o' by auto
    then obtain c' where c': "entry_of w c' (q, a) True \<or> entry_of w c' (q, a) False \<and> filled_at (chan w c') (q, a)"
      using wf q d o' ps unfolding wf_world_def wf_done_def by (metis fun_upd_other)
    then have "entry_of w' c' (q, a) True \<or> entry_of w' c' (q, a) False \<and> filled_at (chan w' c') (q, a)"
      using e [of "(q, a)"] n c by (auto simp: filled_at_def slot_key_def)
    then show "\<exists>c. entry_of w' c (q, a) True \<or> entry_of w' c (q, a) False \<and> filled_at (chan w' c) (q, a)" by blast
  qed
  ultimately show ?thesis by (simp add: wf_world_def)
qed

subsection \<open>The steps keep the invariant\<close>

definition chan_inv :: "(nat \<Rightarrow> nat option) \<Rightarrow> 'v world \<Rightarrow> bool" where
  "chan_inv cap w \<longleftrightarrow> wf_world w \<and> (\<forall>c. chan_ok (cap c) (pend w) (chan w c))"

lemma chan_ok_fewer:
  assumes "chan_ok cap ps ch" "\<And>q. ps' q = Queued \<Longrightarrow> ps q = Queued"
  shows "chan_ok cap ps' ch"
  by (rule ok_shrink [OF assms]) (use assms(1) in \<open>auto simp: chan_ok_def\<close>)

lemma update_inv:
  assumes inv: "chan_inv cap w" and m: "chan_move (pend w) (chan w c) ps ch" and ok: "chan_ok (cap c) ps ch"
  shows "chan_inv cap (update w c ps ch)"
proof -
  have q: "pend w p = Queued" if "ps p = Queued" for p using that chan_moveD(1) [OF m, of p] by (cases "pend w p") auto
  have "chan_ok (cap d) ps (chan w d)" for d by (rule chan_ok_fewer [of _ "pend w"]) (use inv q in \<open>auto simp: chan_inv_def\<close>)
  then show ?thesis using inv move_wf [OF _ m] ok by (simp add: chan_inv_def)
qed

lemma inv_offers_distinct: "chan_inv cap w \<Longrightarrow> distinct (map offer_key (sendq (chan w c)))"
  by (simp add: chan_inv_def wf_world_def wf_keys_def)

lemma inv_ok: "chan_inv cap w \<Longrightarrow> chan_ok (cap c) (pend w) (chan w c)"
  by (simp add: chan_inv_def)

lemma send_now_inv:
  "chan_inv cap w \<Longrightarrow> send (pend w) (chan w c) (cap c) v off = (ps, ch, out) \<Longrightarrow> out \<noteq> Offered \<Longrightarrow> chan_inv cap (update w c ps ch)"
  by (rule update_inv [OF _ send_now_move send_now_ok [OF inv_ok]])

lemma send_none_now: "send ps ch cap v None = (ps', ch', out) \<Longrightarrow> out \<noteq> Offered"
  by (cases "give ps ch v None"; cases "snd (snd (give ps ch v None))")
     (auto simp: send_def offer_or_full_def split: if_splits option.splits nat.splits)

lemma offer_step_inv:
  assumes inv: "chan_inv cap w" and o': "ops w p = None \<and> pend w p = Queued \<and> at = [] \<or> ops w p = Some at"
    and a: "arm \<notin> set (arms_of at)" and nc: "\<not> closed (chan w c)" and ns: "\<not> send_ready_for (pend w) (chan w c) (cap c) (Some p)"
  shows "chan_inv cap (register_op (set_chan w c (publish_offer (chan w c) p arm v)) p (at @ [(c, arm, True)]))"
proof -
  let ?r = "register_op w p (at @ [(c, arm, True)])"
  have wf: "wf_world w" using inv by (simp add: chan_inv_def)
  have "distinct (arms_of (at @ [(c, arm, True)]))" using o' a wf by (auto simp: wf_world_def wf_arms_def arms_of_def)
  then have wr: "wf_world ?r" using register_op_wf [OF wf o'] by blast
  have f: "(p, arm) \<notin> offer_key ` set (sendq (chan w c))"
  proof
    assume i: "(p, arm) \<in> offer_key ` set (sendq (chan w c))"
    then have "entry_of w c (p, arm) True" using wf by (auto simp: wf_world_def wf_offers_def)
    then have "ops w p = Some at" using o' by (auto simp: entry_of_def)
    then show False using offer_arm [OF wf _ i] a by blast
  qed
  have "pend w p \<noteq> Done_P arm" using o' a done_arm [OF wf] by auto
  then have "wf_world (set_chan ?r c (publish_offer (chan ?r c) p arm v))"
    by (intro publish_offer_wf [OF wr]) (use f in \<open>auto simp: entry_of_def\<close>)
  moreover have "chan_ok (cap c) (pend w) (publish_offer (chan w c) p arm v)"
    using inv nc ns by (auto simp: chan_inv_def intro: publish_offer_ok)
  moreover have eq: "register_op (set_chan w c (publish_offer (chan w c) p arm v)) p (at @ [(c, arm, True)]) =
      set_chan ?r c (publish_offer (chan ?r c) p arm v)"
    by (simp add: set_chan_def register_op_def)
  ultimately show ?thesis using inv unfolding eq by (simp add: chan_inv_def)
qed

lemma slot_step_inv:
  assumes inv: "chan_inv cap w" and o': "ops w p = Some at" "(c, arm, False) \<in> set at" and z: "cap c = Some 0"
    and nc: "\<not> closed (chan w c)" and nr: "\<not> recv_ready_for (pend w) (chan w c) (Some p)"
    and n: "\<not> list_ex (\<lambda>s. s_p s = p \<and> s_arm s = arm) (recvq (chan w c))"
  shows "chan_inv cap (set_chan w c (publish_slot (chan w c) p arm))"
proof -
  have wf: "wf_world w" using inv by (simp add: chan_inv_def)
  have e: "entry_of w c (p, arm) False" using o' by (auto simp: entry_of_def)
  have f: "(p, arm) \<notin> slot_key ` set (recvq (chan w c))" using n by (auto simp: slot_key_def list_ex_iff)
  have "chan_ok (cap c) (pend w) (publish_slot (chan w c) p arm)"
    using inv z nc nr publish_slot_ok [of "pend w" "chan w c" p arm] by (auto simp: chan_inv_def dest: spec [of _ c])
  then show ?thesis using publish_slot_wf [OF wf e f unfilled_not_done [OF wf e f]] inv by (auto simp: chan_inv_def)
qed

lemma leave_inv:
  assumes inv: "chan_inv cap w" and c: "\<And>c. chan w' c = withdraw (chan w c) p" and o': "ops w' = (ops w)(p := None)"
    and ps: "\<And>q. q \<noteq> p \<Longrightarrow> pend w' q = pend w q" and q: "pend w' p = Queued \<Longrightarrow> pend w p = Queued"
  shows "chan_inv cap w'"
proof -
  have "pend w q' = Queued" if "pend w' q' = Queued" for q' using that ps q by (cases "q' = p") auto
  then show ?thesis using inv leave_wf [OF _ c o' ps] c by (auto simp: chan_inv_def intro: withdraw_ok)
qed

lemma withdraw_early_move:
  assumes wf: "wf_world w" and q: "pend w p = Queued"
  shows "chan_move (pend w) (chan w c) (fst (try_cancel (pend w) p)) (withdraw (chan w c) p)"
proof -
  have "s_p s \<noteq> p" if "s \<in> set (recvq (chan w c))" "s_got s \<noteq> None" for s
    using that wf q by (force simp: wf_world_def wf_slots_def)
  then show ?thesis using q
    by (auto simp: chan_move_def try_cancel_pends withdraw_def intro: subseq_map split: if_splits)
qed

lemma chan_step_keeps: "chan_step built cap w w' \<Longrightarrow> chan_inv cap w \<Longrightarrow> chan_inv cap w'"
proof (induction rule: chan_step.induct)
  case (Try_Send w c v ps ch out)
  then show ?case using send_none_now [OF Try_Send(1)] by (auto intro: send_now_inv)
next
  case (Send_Now w p c v ps ch out)
  then show ?case by (auto intro: send_now_inv)
next
  case (Send_Offer w p c v ps ch)
  obtain ch1 where m: "chan_move (pend w) (chan w c) (pend w) ch1" and e: "ps = pend w" "ch = publish_offer ch1 p 0 v"
    and k: "queue ch1 = queue (chan w c)" "\<not> closed (chan w c)" "closed ch1 = closed (chan w c)" "sealed ch1 = sealed (chan w c)"
      "unbuilt ch1 = unbuilt (chan w c)" "\<not> send_ready_for (pend w) ch1 (cap c) (Some p)"
    using send_offered [OF Send_Offer(3)] by blast
  let ?w = "update w c (pend w) ch1"
  have "chan_ok (cap c) (pend w) ch1"
    by (rule move_ok [OF _ m]) (use Send_Offer(4) k in \<open>auto simp: chan_inv_def chan_ok_def\<close>)
  then have "chan_inv cap ?w" using Send_Offer(4) m by (auto intro: update_inv)
  then have "chan_inv cap (register_op (set_chan ?w c (publish_offer (chan ?w c) p 0 v)) p ([] @ [(c, 0, True)]))"
    by (rule offer_step_inv) (use Send_Offer k in \<open>auto simp: arms_of_def\<close>)
  moreover have "set_chan ?w c (publish_offer (chan ?w c) p 0 v) = update w c ps ch"
    by (simp add: e update_def set_chan_def)
  ultimately show ?case by simp
next
  case (Wait_Begin w p)
  then show ?case using register_op_wf [of w p "[]" "[]"] by (auto simp: chan_inv_def arms_of_def)
next
  case (Wait_Offer w p at arm c v)
  then show ?case by (intro offer_step_inv) auto
next
  case (Wait_Recv w p at arm c)
  then have "distinct (arms_of (at @ [(c, arm, False)]))" by (auto simp: chan_inv_def wf_world_def wf_arms_def arms_of_def)
  then show ?case using Wait_Recv register_op_wf [of w p at "[(c, arm, False)]"] by (auto simp: chan_inv_def)
next
  case (Wait_Slot w p at c arm)
  then show ?case by (intro slot_step_inv) auto
next
  case (Recv latched w c ps ch r)
  note d = inv_offers_distinct [OF Recv(2), of c]
  show ?case by (rule update_inv [OF Recv(2) recv_ready_move [OF Recv(1) d] recv_ready_ok [OF inv_ok [OF Recv(2)] Recv(1) d]])
next
  case (Close w c ps ch)
  show ?case by (rule update_inv [OF Close(2) close_move [OF Close(1)] close_ok [OF inv_ok [OF Close(2)] Close(1)]])
next
  case (Seal w c v ch b)
  then have "chan_move (pend w) (chan w c) (pend w) ch" by (auto simp: seal_def intro!: chan_move_same split: if_splits)
  then show ?case unfolding set_chan_update using update_inv [OF Seal(2)] seal_ok [OF inv_ok [OF Seal(2)] Seal(1)] by blast
next
  case (Seal_Err w c msg ch b)
  then have "chan_move (pend w) (chan w c) (pend w) ch" by (auto simp: seal_err_def intro!: chan_move_same split: if_splits)
  then show ?case unfolding set_chan_update using update_inv [OF Seal_Err(2)] seal_err_ok [OF inv_ok [OF Seal_Err(2)] Seal_Err(1)] by blast
next
  case (Withdraw_Early w p c arm)
  have "chan_move (pend w) (chan w c) (fst (try_cancel (pend w) p)) (withdraw (chan w c) p)"
    by (rule withdraw_early_move) (use Withdraw_Early in \<open>auto simp: chan_inv_def\<close>)
  moreover have "chan_ok (cap c) (fst (try_cancel (pend w) p)) (withdraw (chan w c) p)"
    by (rule withdraw_ok [OF inv_ok [OF Withdraw_Early(3)]]) (auto simp: try_cancel_pends split: if_splits)
  ultimately show ?case by (rule update_inv [OF Withdraw_Early(3)])
next
  case (Settle w p at w' r)
  have w': "w' = w\<lparr>pend := fst (try_cancel (pend w) p), chan := (\<lambda>c. withdraw (chan w c) p), ops := (ops w)(p := None)\<rparr>"
    using settle_world [OF _ Settle(1,2)] Settle(3) by (simp add: chan_inv_def)
  show ?case by (rule leave_inv [OF Settle(3), of _ p]) (auto simp: w' try_cancel_pends split: if_splits)
qed

interpretation channels: invariant_system world_init "chan_step built cap" "chan_inv cap" for built cap
proof unfold_locales
  show "world_init w \<Longrightarrow> chan_inv cap w" for w
    by (simp add: world_init_def chan_inv_def wf_world_def wf_offers_def wf_slots_def wf_keys_def wf_arms_def wf_done_def chan_ok_def
        chan_new_def waiting_offer_def within_def split: option.split)
qed (rule chan_step_keeps)

lemma ok_no_stall:
  assumes "chan_ok cap ps ch" "\<not> sealed ch"
  shows "waiting_offer ps ch p \<Longrightarrow> \<not> closed ch \<and> \<not> send_ready_for ps ch cap (Some p)"
    and "waiting_slot ps ch p \<Longrightarrow> \<not> closed ch \<and> \<not> recv_ready_for ps ch (Some p)"
proof -
  assume l: "waiting_offer ps ch p"
  have "\<not> closed ch" using assms l by (auto simp: chan_ok_def waiting_offer_def)
  moreover have "at_cap cap (length (queue ch))" "\<And>q. waiting_slot ps ch q \<Longrightarrow> p = q" using assms(1) l by (auto simp: chan_ok_def)
  ultimately show "\<not> closed ch \<and> \<not> send_ready_for ps ch cap (Some p)"
    by (fastforce simp: send_ready_for_def at_cap_def list_ex_iff waiting_slot_def is_queued_def is_me_def split: option.splits nat.splits)
next
  assume l: "waiting_slot ps ch p"
  have "\<not> closed ch" "cap = Some 0" using assms l by (auto simp: chan_ok_def waiting_slot_def)
  moreover have "queue ch = []" "\<And>q. waiting_offer ps ch q \<Longrightarrow> q = p" using assms l calculation by (auto simp: chan_ok_def within_def)
  ultimately show "\<not> closed ch \<and> \<not> recv_ready_for ps ch (Some p)"
    using assms(2) by (auto simp: recv_ready_for_def list_ex_iff waiting_offer_def is_queued_def is_me_def)
qed

subsection \<open>What a settled party learns\<close>

lemma find_arm:
  assumes "distinct (arms_of at)" "(c, a, b) \<in> set at"
  shows "find (\<lambda>(_, x, _). x = a) at = Some (c, a, b)"
  using assms by (induction at) (auto simp: arms_of_def image_iff split: if_splits)

lemma take_slot_got:
  assumes "\<exists>s\<in>set ss. s_p s = p \<and> s_got s \<noteq> None" "\<forall>s\<in>set ss. s_p s = p \<and> s_got s \<noteq> None \<longrightarrow> s_got s = Some v"
  shows "snd (take_slot p ss) = Some v"
  using assms by (induction ss) (fastforce split: prod.split)+

lemma only_filled_slot:
  assumes wf: "wf_world w" and s: "s \<in> set (recvq (chan w c))" "s_got s \<noteq> None"
    and t: "t \<in> set (recvq (chan w c))" "s_got t \<noteq> None" "s_p t = s_p s"
  shows "t = s"
proof -
  have "pend w (s_p s) = Done_P (s_arm s)" "pend w (s_p s) = Done_P (s_arm t)"
    using wf s t unfolding wf_world_def wf_slots_def by metis+
  then have "slot_key t = slot_key s" using t(3) by (simp add: slot_key_def)
  then show ?thesis using wf s(1) t(1) by (auto simp: wf_world_def wf_keys_def distinct_map dest: inj_onD)
qed

text \<open>The result of settling, by the state of the commit record.\<close>

lemma settle_done:
  assumes wf: "wf_world w" and o': "ops w p = Some at" and d: "pend w p = Done_P a" and s: "settle_op w p = (w', r)"
  shows "(\<exists>c. (c, a, True) \<in> set at \<and> r = SSent a) \<or>
    (\<exists>c v. (c, a, False) \<in> set at \<and> \<lparr>s_p = p, s_arm = a, s_got = Some v\<rparr> \<in> set (recvq (chan w c)) \<and> r = SGot a v)"
proof -
  have da: "distinct (arms_of at)" using wf o' by (simp add: wf_world_def wf_arms_def)
  have r: "r = snd (settled_of w p at)" using s o' by (auto simp: settle_op_def split: prod.splits)
  obtain c where c: "entry_of w c (p, a) True \<or> entry_of w c (p, a) False \<and> filled_at (chan w c) (p, a)"
    using wf o' d unfolding wf_world_def wf_done_def by blast
  show ?thesis
  proof (cases "(c, a, True) \<in> set at")
    case True
    then show ?thesis using r d find_arm [OF da True] by (auto simp: settled_of_def try_cancel_def)
  next
    case False
    then have f: "(c, a, False) \<in> set at" and "filled_at (chan w c) (p, a)" using c o' by (auto simp: entry_of_def)
    then obtain t v where t: "t \<in> set (recvq (chan w c))" "s_p t = p" "s_arm t = a" "s_got t = Some v"
      by (auto simp: filled_at_def slot_key_def)
    have "snd (take_slot p (recvq (chan w c))) = Some v"
    proof (rule take_slot_got)
      show "\<exists>s\<in>set (recvq (chan w c)). s_p s = p \<and> s_got s \<noteq> None" using t by auto
      show "\<forall>s\<in>set (recvq (chan w c)). s_p s = p \<and> s_got s \<noteq> None \<longrightarrow> s_got s = Some v"
      proof (intro ballI impI)
        fix x assume "x \<in> set (recvq (chan w c))" "s_p x = p \<and> s_got x \<noteq> None"
        then have "x = t" using t by (intro only_filled_slot [OF wf t(1)]) auto
        then show "s_got x = Some v" using t(4) by simp
      qed
    qed
    then have "snd (take_filled (chan w c) p) = Some v" by (simp add: take_filled_def case_prod_unfold)
    then have "r = SGot a v" using r d find_arm [OF da f]
      by (cases "take_filled (chan w c) p") (simp add: settled_of_def try_cancel_def)
    moreover have "t = \<lparr>s_p = p, s_arm = a, s_got = Some v\<rparr>" using t(2-4) by (cases t) simp
    ultimately show ?thesis using f t(1) by blast
  qed
qed

lemma settle_other:
  assumes "settle_op w p = (w', r)"
  shows "pend w p = Queued \<or> pend w p = Cancelled_P \<Longrightarrow> r = SCancelled" "pend w p = Closed_P \<Longrightarrow> r = SClosed"
  using assms by (auto simp: settle_op_def settled_of_def try_cancel_def Let_def split: prod.splits)

text \<open>A run on a channel of capacity one: a value is buffered, a second sender offers, a receive refills the buffer.\<close>

definition world0 :: "nat world" where
  "world0 = \<lparr>pend = (\<lambda>_. Queued), chan = (\<lambda>_. chan_new), ops = (\<lambda>_. None)\<rparr>"

definition world1 :: "nat world" where
  "world1 = update world0 0 (pend world0) (push_value chan_new 7)"

definition world2 :: "nat world" where
  "world2 = register_op (update world1 0 (pend world1) (publish_offer (chan world1 0) 5 0 8)) 5 [(0, 0, True)]"

definition world3 :: "nat world" where
  "world3 = update world2 0 ((pend world2)(5 := Done_P 0)) (chan_new\<lparr>queue := [8]\<rparr>)"

lemmas world_defs = world0_def world1_def world2_def world3_def chan_new_def push_value_def publish_offer_def

lemma world_run:
  "(chan_step built (\<lambda>_. Some 1))\<^sup>*\<^sup>* world0 world2" "(chan_step built (\<lambda>_. Some 1))\<^sup>*\<^sup>* world0 world3"
proof -
  have s1: "chan_step built (\<lambda>_. Some 1) world0 world1"
    unfolding world1_def by (rule Try_Send [of _ _ _ 7 _ _ Sent]) (simp add: world_defs send_def)
  have s2: "chan_step built (\<lambda>_. Some 1) world1 world2"
    unfolding world2_def by (rule Send_Offer [of _ 5 0 _ 8]) (simp_all add: world_defs send_def offer_or_full_def)
  have s3: "chan_step built (\<lambda>_. Some 1) world2 world3"
    unfolding world3_def
    by (rule Recv [of _ False _ 0 _ _ "RValue 7"])
       (simp add: world_defs recv_ready_def pop_def pop_for_def take_offer_def is_me_def try_commit_def)
  show "(chan_step built (\<lambda>_. Some 1))\<^sup>*\<^sup>* world0 world2" "(chan_step built (\<lambda>_. Some 1))\<^sup>*\<^sup>* world0 world3"
    using s1 s2 s3 by (meson rtranclp.intros)+
qed

text \<open>
  C13. A channel is a first-in first-out line, its buffer and then its waiting senders, in which the dead offers are
  not seen. Receiving takes the head of the buffer and moves the first waiting sender's value into the freed place, or takes
  that value when the buffer is empty; sending on an open buffered channel appends to the buffer while there is room and otherwise
  joins the end of the line. Where every sender waits at most once, a receive takes exactly the head of the values in line.
\<close>

theorem channel_fifo:
  assumes "\<not> sealed ch" "pop_for ps ch me = (ps', ch', r)"
    and "cap \<noteq> Some 0" "ps p = Queued" "\<not> is_me p me"
  shows "(line_of_chan ps' me ch', r) = fifo_recv (line_of_chan ps me ch) \<and>
    (\<not> closed ch \<longrightarrow> send ps ch cap v (Some (p, a)) = (qs, ch2, out) \<longrightarrow>
       qs = ps \<and> (line_of_chan ps me ch2, out) = fifo_send cap (line_of_chan ps me ch) v (Some p)) \<and>
    (distinct (map fst (waiting ps me (sendq ch))) \<longrightarrow> r = Some x \<longrightarrow>
       line_values (line_of_chan ps me ch) = x # line_values (line_of_chan ps' me ch'))"
proof -
  have f: "(line_of_chan ps' me ch', r) = fifo_recv (line_of_chan ps me ch)" using pop_for_fifo [OF assms(1,2)] .
  have "qs = ps \<and> (line_of_chan ps me ch2, out) = fifo_send cap (line_of_chan ps me ch) v (Some p)"
    if "\<not> closed ch" "send ps ch cap v (Some (p, a)) = (qs, ch2, out)"
    using send_fifo [OF that(1) assms(3) that(2), of me] assms(4,5) by auto
  moreover have "line_values (line_of_chan ps me ch) = x # line_values (line_of_chan ps' me ch')"
    if "distinct (map fst (waiting ps me (sendq ch)))" "r = Some x"
    using fifo_recv_head [OF that(1), of "queue ch" "queue ch'" "waiting ps' me (sendq ch')" x] f that(2)
    by (simp add: line_of_chan_def line_values_def)
  ultimately show ?thesis using f by blast
qed

theorem channel_fifo_witness:
  "fst (pop_for (\<lambda>_. Queued) (chan world2 0) None) 5 = Done_P 0 \<and>
   fifo_recv (line_of_chan (\<lambda>_. Queued) None (chan world2 0)) = (([8], []), Some 7) \<and>
   line_of_chan (pend world3) None (chan world3 0) = ([8], [])"
  using channel_fifo [of "chan world2 0" "\<lambda>_. Queued" None "pend world3" "chan world3 0" "Some 7" "Some 1" 9 8 0 "\<lambda>_. Queued"
      "publish_offer (chan world2 0) 9 0 8" Offered 7]
  by (simp add: world_defs pop_for_def take_offer_def is_me_def try_commit_def send_def offer_or_full_def line_of_chan_def)

text \<open>
  C7. No party waits where it need not. In every state that sends, receives, waits, closes, seals and settles of any parties
  reach, and on every channel but a sealed handle: the buffer is within the capacity; a sender's live offer means that
  the channel is open, and neither room nor another party's waiting slot could take the value; a receiver's live slot
  means that the channel is open, the buffer is empty and no other sender's offer waits.
\<close>

theorem channel_no_stall:
  assumes "world_init w" "(chan_step built cap)\<^sup>*\<^sup>* w u" "\<not> sealed (chan u c)"
  shows "within (cap c) (chan_len (chan u c)) \<and>
    (waiting_offer (pend u) (chan u c) p \<longrightarrow> \<not> closed (chan u c) \<and> \<not> send_ready_for (pend u) (chan u c) (cap c) (Some p)) \<and>
    (waiting_slot (pend u) (chan u c) p \<longrightarrow> \<not> closed (chan u c) \<and> \<not> recv_ready_for (pend u) (chan u c) (Some p))"
proof -
  have ok: "chan_ok (cap c) (pend u) (chan u c)" by (rule inv_ok [OF channels.reachable_inv [OF assms(1,2)]])
  then show ?thesis using assms(3) ok_no_stall [OF ok assms(3), of p] by (auto simp: chan_ok_def chan_len_def)
qed

theorem channel_no_stall_witness:
  "waiting_offer (pend world2) (chan world2 0) 5 \<and> \<not> closed (chan world2 0) \<and>
   \<not> send_ready_for (pend world2) (chan world2 0) (Some 1) (Some 5) \<and> chan_len (chan world2 0) = 1"
proof -
  have "world_init world0" "\<not> sealed (chan world2 0)" by (simp_all add: world_init_def world_defs)
  moreover have "waiting_offer (pend world2) (chan world2 0) 5" by (simp add: world_defs waiting_offer_def)
  ultimately show ?thesis using channel_no_stall [OF _ world_run(1) [of "\<lambda>_. 0"], of 0 5] by (simp add: world_defs chan_len_def)
qed

text \<open>
  C5. A party that settles learns exactly what happened. Of a queued or cancelled record it learns that nothing moved, of
  a closed one that its send failed; of a record that is done on an arm either that its offer on that send arm was taken, or the value
  that its slot on that receive arm was given: the fallback of the code, done but nothing found, is never taken. Afterwards
  no channel holds an entry of the party, and the buffers and the entries of the others are as before.
\<close>

theorem settle_exact:
  assumes "world_init w" "(chan_step built cap)\<^sup>*\<^sup>* w u" "ops u p = Some at" "settle_op u p = (u', r)"
  shows "(case pend u p of
       Closed_P \<Rightarrow> r = SClosed
     | Done_P a \<Rightarrow> (\<exists>c. (c, a, True) \<in> set at \<and> r = SSent a) \<or>
         (\<exists>c v. (c, a, False) \<in> set at \<and> \<lparr>s_p = p, s_arm = a, s_got = Some v\<rparr> \<in> set (recvq (chan u c)) \<and> r = SGot a v)
     | _ \<Rightarrow> r = SCancelled) \<and>
    ops u' p = None \<and> pend u' p \<noteq> Queued \<and>
    queue (chan u' c) = queue (chan u c) \<and>
    sendq (chan u' c) = filter (\<lambda>x. o_p x \<noteq> p) (sendq (chan u c)) \<and>
    recvq (chan u' c) = filter (\<lambda>s. s_p s \<noteq> p) (recvq (chan u c))"
proof -
  have wf: "wf_world u" using channels.reachable_inv [OF assms(1,2)] by (simp add: chan_inv_def)
  have "case pend u p of
       Closed_P \<Rightarrow> r = SClosed
     | Done_P a \<Rightarrow> (\<exists>c. (c, a, True) \<in> set at \<and> r = SSent a) \<or>
         (\<exists>c v. (c, a, False) \<in> set at \<and> \<lparr>s_p = p, s_arm = a, s_got = Some v\<rparr> \<in> set (recvq (chan u c)) \<and> r = SGot a v)
     | _ \<Rightarrow> r = SCancelled"
    using settle_other [OF assms(4)] settle_done [OF wf assms(3) _ assms(4)] by (simp split: pending.split)
  then show ?thesis using settle_world [OF wf assms(3,4)] by (auto simp: withdraw_def try_cancel_pends)
qed

theorem settle_exact_witness:
  "pend world3 5 = Done_P 0 \<and> snd (settle_op world3 5) = SSent 0 \<and> ops (fst (settle_op world3 5)) 5 = None"
proof -
  have "world_init world0" "ops world3 5 = Some [(0, 0, True)]" "pend world3 5 = Done_P 0" by (simp_all add: world_init_def world_defs)
  then show ?thesis
    using settle_exact [OF _ world_run(2) [of "\<lambda>_. 0"], of 5 "[(0, 0, True)]" "fst (settle_op world3 5)" "snd (settle_op world3 5)"] by simp
qed

end
