(* ===== verification/Guard.thy ===== *)
theory Guard
  imports Prelude
begin

unbundle bit_operations_syntax

text \<open>
  The guards of \<^verbatim>\<open>Shared\<close> and \<^verbatim>\<open>RwShared\<close> boxes, \<^verbatim>\<open>src/src/vm/core.rs\<close> with the re-entry test of \<^verbatim>\<open>vm/netio.rs\<close>: a readers-writer lock in
  one atomic word, the tickets of those that wait for it, the admission of waiting readers by a write release, and
  the search for a cycle in the graph of who waits for whom. An attempt to take a guard runs as a sequence of atomic steps on
  the word, interleaved with those of all other attempts; a section under the registry's mutex is one step, apart from the
  write release, whose changes to the lock word and to the flags are seen by others while it holds the mutex.
\<close>

subsection \<open>The lock word\<close>

datatype guard_mode = GWrite | GRead

definition WRITER :: u64 where
  "WRITER = 2 ^ 63"

definition WW_ONE :: u64 where
  "WW_ONE = 2 ^ 32"

definition WW_MASK :: u64 where
  "WW_MASK = push_bit 32 0x7fffffff"

definition R_MASK :: u64 where
  "R_MASK = 0xffffffff"

text \<open>The word a take writes over \<open>s\<close>, or \<open>None\<close>; \<open>counted\<close>: the writer is one of the waiting writers.\<close>

definition try_take_word :: "u64 \<Rightarrow> guard_mode \<Rightarrow> bool \<Rightarrow> u64 option" where
  "try_take_word s mode counted =
     (case mode of
        GWrite \<Rightarrow>
          if s AND (WRITER OR R_MASK) = 0 then
            let ww = (if counted then WW_ONE else 0)
            in if \<not> counted \<and> s AND WW_MASK \<noteq> 0 then None else Some ((s - ww) OR WRITER)
          else None
      | GRead \<Rightarrow>
          if s AND (WRITER OR WW_MASK) = 0 \<and> s AND R_MASK \<noteq> R_MASK then Some (s + 1) else None)"

definition writer_waits :: "u64 \<Rightarrow> bool" where
  "writer_waits s \<longleftrightarrow> s AND WW_MASK \<noteq> 0"

definition looks_free :: "u64 \<Rightarrow> guard_mode \<Rightarrow> bool" where
  "looks_free s mode =
     (case mode of
        GWrite \<Rightarrow> s AND (WRITER OR R_MASK) = 0
      | GRead \<Rightarrow> s AND (WRITER OR WW_MASK) = 0)"

subsection \<open>A box and the attempts on it\<close>

text \<open>
  Where an attempt stands. \<open>Taken_W\<close> is a writer between its exchange and the store of its token; \<open>Taken_R\<close> a reader that took the
  guard by its own exchange and is still registered; \<open>Extra_R\<close> and \<open>Extra_Drop\<close> one that was admitted as well and gives a count
  back; the last four are the stages of a write release.
\<close>

datatype phase =
    Idle | Ticket_W | Ticket_R | Taken_W | Taken_R | Hold_W | Hold_R | Extra_R | Extra_Drop
  | Rel_W | Rel_Plain | Rel_Lock | Admit nat "nat list"

record box =
  state :: u64
  writer :: nat
  wait_readers :: "32 word"
  readers :: "nat list"
  flag :: "nat \<Rightarrow> bool"
  registry :: "nat option"
  phase :: "nat \<Rightarrow> phase"

definition box_new :: box where
  "box_new = \<lparr>state = 0, writer = 0, wait_readers = 0, readers = [], flag = (\<lambda>_. False), registry = None, phase = (\<lambda>_. Idle)\<rparr>"

definition move_to :: "box \<Rightarrow> nat \<Rightarrow> phase \<Rightarrow> box" where
  "move_to b i p = b\<lparr>phase := (phase b)(i := p)\<rparr>"

text \<open>\<^verbatim>\<open>WaitTicket::new\<close>, by mode.\<close>

definition ticket_write :: "box \<Rightarrow> nat \<Rightarrow> box" where
  "ticket_write b i = move_to (b\<lparr>state := state b + WW_ONE\<rparr>) i Ticket_W"

definition ticket_read :: "box \<Rightarrow> nat \<Rightarrow> box" where
  "ticket_read b i =
     move_to (b\<lparr>flag := (flag b)(i := False), readers := readers b @ [i], wait_readers := wait_readers b + 1\<rparr>) i Ticket_R"

text \<open>\<^verbatim>\<open>WaitTicket::unregister\<close>: \<open>keep\<close> and \<open>extra\<close> are where the attempt goes on.\<close>

definition unregister :: "box \<Rightarrow> nat \<Rightarrow> phase \<Rightarrow> phase \<Rightarrow> box" where
  "unregister b i extra keep =
     (if flag b i then move_to b i extra
      else move_to (b\<lparr>readers := filter (\<lambda>j. j \<noteq> i) (readers b), wait_readers := wait_readers b - 1\<rparr>) i keep)"

text \<open>The stages of \<^verbatim>\<open>BoxLock::release_write\<close>.\<close>

definition release_writer :: "box \<Rightarrow> nat \<Rightarrow> box" where
  "release_writer b i = move_to (b\<lparr>writer := 0\<rparr>) i Rel_W"

definition release_check :: "box \<Rightarrow> nat \<Rightarrow> box" where
  "release_check b i = move_to b i (if wait_readers b = 0 then Rel_Plain else Rel_Lock)"

definition release_plain :: "box \<Rightarrow> nat \<Rightarrow> box" where
  "release_plain b i = move_to (b\<lparr>state := state b AND NOT WRITER\<rparr>) i Idle"

definition release_admit :: "box \<Rightarrow> nat \<Rightarrow> box" where
  "release_admit b i =
     move_to (b\<lparr>readers := [], state := (state b AND NOT WRITER) + of_nat (length (readers b)), registry := Some i\<rparr>)
       i (Admit (length (readers b)) (readers b))"

definition release_flag :: "box \<Rightarrow> nat \<Rightarrow> nat \<Rightarrow> nat \<Rightarrow> nat list \<Rightarrow> box" where
  "release_flag b i n f fs = move_to (b\<lparr>flag := (flag b)(f := True)\<rparr>) i (Admit n fs)"

definition release_done :: "box \<Rightarrow> nat \<Rightarrow> nat \<Rightarrow> box" where
  "release_done b i n = move_to (b\<lparr>wait_readers := wait_readers b - of_nat n, registry := None\<rparr>) i Idle"

definition release_read :: "box \<Rightarrow> nat \<Rightarrow> phase \<Rightarrow> box" where
  "release_read b i p = move_to (b\<lparr>state := state b - 1\<rparr>) i p"

text \<open>
  The steps of the attempts \<open>0 .. N - 1\<close>, each by a task with the given token: \<^verbatim>\<open>try_update_guard\<close>, the tickets, \<^verbatim>\<open>WaitTicket::try_take\<close>, the
  drop of a ticket and of a guard.
\<close>

inductive guard_step :: "nat \<Rightarrow> (nat \<Rightarrow> nat) \<Rightarrow> box \<Rightarrow> box \<Rightarrow> bool" for N tok where
  Fast_Write: "i < N \<Longrightarrow> phase b i = Idle \<Longrightarrow> try_take_word (state b) GWrite False = Some s \<Longrightarrow>
    guard_step N tok b (move_to (b\<lparr>state := s\<rparr>) i Taken_W)"
| Fast_Read: "i < N \<Longrightarrow> phase b i = Idle \<Longrightarrow> try_take_word (state b) GRead False = Some s \<Longrightarrow>
    guard_step N tok b (move_to (b\<lparr>state := s\<rparr>) i Hold_R)"
| New_Ticket_W: "i < N \<Longrightarrow> phase b i = Idle \<Longrightarrow> guard_step N tok b (ticket_write b i)"
| New_Ticket_R: "i < N \<Longrightarrow> phase b i = Idle \<Longrightarrow> registry b = None \<Longrightarrow> guard_step N tok b (ticket_read b i)"
| Take_Write: "i < N \<Longrightarrow> phase b i = Ticket_W \<Longrightarrow> try_take_word (state b) GWrite True = Some s \<Longrightarrow>
    guard_step N tok b (move_to (b\<lparr>state := s\<rparr>) i Taken_W)"
| Store_Writer: "i < N \<Longrightarrow> phase b i = Taken_W \<Longrightarrow> guard_step N tok b (move_to (b\<lparr>writer := tok i\<rparr>) i Hold_W)"
| Take_Admitted: "i < N \<Longrightarrow> phase b i = Ticket_R \<Longrightarrow> flag b i \<Longrightarrow> guard_step N tok b (move_to b i Hold_R)"
| Take_Read: "i < N \<Longrightarrow> phase b i = Ticket_R \<Longrightarrow> try_take_word (state b) GRead False = Some s \<Longrightarrow>
    guard_step N tok b (move_to (b\<lparr>state := s\<rparr>) i Taken_R)"
| Unregister_Taken: "i < N \<Longrightarrow> phase b i = Taken_R \<Longrightarrow> registry b = None \<Longrightarrow> guard_step N tok b (unregister b i Extra_R Hold_R)"
| Drop_Read: "i < N \<Longrightarrow> phase b i = Ticket_R \<Longrightarrow> registry b = None \<Longrightarrow> guard_step N tok b (unregister b i Extra_Drop Idle)"
| Give_Back: "i < N \<Longrightarrow> phase b i = Extra_R \<Longrightarrow> guard_step N tok b (release_read b i Hold_R)"
| Give_Back_Drop: "i < N \<Longrightarrow> phase b i = Extra_Drop \<Longrightarrow> guard_step N tok b (release_read b i Idle)"
| Drop_Write: "i < N \<Longrightarrow> phase b i = Ticket_W \<Longrightarrow> guard_step N tok b (move_to (b\<lparr>state := state b - WW_ONE\<rparr>) i Idle)"
| Release_Read: "i < N \<Longrightarrow> phase b i = Hold_R \<Longrightarrow> guard_step N tok b (release_read b i Idle)"
| Release_Write: "i < N \<Longrightarrow> phase b i = Hold_W \<Longrightarrow> guard_step N tok b (release_writer b i)"
| Release_Check: "i < N \<Longrightarrow> phase b i = Rel_W \<Longrightarrow> guard_step N tok b (release_check b i)"
| Release_Plain: "i < N \<Longrightarrow> phase b i = Rel_Plain \<Longrightarrow> guard_step N tok b (release_plain b i)"
| Release_Admit: "i < N \<Longrightarrow> phase b i = Rel_Lock \<Longrightarrow> registry b = None \<Longrightarrow> guard_step N tok b (release_admit b i)"
| Release_Flag: "i < N \<Longrightarrow> phase b i = Admit n (f # fs) \<Longrightarrow> guard_step N tok b (release_flag b i n f fs)"
| Release_Done: "i < N \<Longrightarrow> phase b i = Admit n [] \<Longrightarrow> guard_step N tok b (release_done b i n)"

subsection \<open>Who waits for whom\<close>

text \<open>
  The graph on the boxes of the process, each known by its address: the token of its writer, and the waits by task in whatever
  order the map holds them.
\<close>

record guard_graph =
  writer_of :: "nat \<Rightarrow> nat"
  waiting_for :: "(nat \<times> nat \<times> guard_mode) list"

definition blockers :: "guard_graph \<Rightarrow> nat \<Rightarrow> guard_mode \<Rightarrow> nat \<Rightarrow> nat list" where
  "blockers g lock mode me =
     (if writer_of g lock \<noteq> 0 \<and> writer_of g lock \<noteq> me then [writer_of g lock] else []) @
     (if mode = GRead
      then map fst (filter (\<lambda>(t, l, m). t \<noteq> me \<and> m = GWrite \<and> l = lock) (waiting_for g))
      else [])"

definition next_tasks :: "guard_graph \<Rightarrow> nat \<Rightarrow> nat list" where
  "next_tasks g cur = (case map_of (waiting_for g) cur of None \<Rightarrow> [] | Some (lock, mode) \<Rightarrow> blockers g lock mode cur)"

text \<open>The inner loop: \<open>None\<close> when a blocker is the start; a task is pushed the first time it is seen.\<close>

fun visit :: "nat \<Rightarrow> nat list \<Rightarrow> nat list \<Rightarrow> nat list \<Rightarrow> (nat list \<times> nat list) option" where
  "visit start [] seen work = Some (seen, work)"
| "visit start (t # ts) seen work =
     (if t = start then None
      else if t \<in> set seen then visit start ts seen work
      else visit start ts (t # seen) (work @ [t]))"

partial_function (option) cycle_loop :: "guard_graph \<Rightarrow> nat \<Rightarrow> nat list \<Rightarrow> nat list \<Rightarrow> bool option" where
  "cycle_loop g start seen work =
     (if work = [] then Some False
      else case visit start (next_tasks g (last work)) seen (butlast work) of
             None \<Rightarrow> Some True
           | Some (seen', work') \<Rightarrow> cycle_loop g start seen' work')"

definition wait_for_cycle :: "guard_graph \<Rightarrow> nat \<Rightarrow> bool option" where
  "wait_for_cycle g start = cycle_loop g start [] [start]"

datatype guard_cycle = SelfHeld | ReadHeld | Cycle

text \<open>\<^verbatim>\<open>Vm::guard_reentry\<close>: the certain re-entries of a task that failed to take a guard.\<close>

definition guard_reentry :: "nat \<Rightarrow> nat list \<Rightarrow> nat \<Rightarrow> nat \<Rightarrow> guard_mode \<Rightarrow> guard_cycle option" where
  "guard_reentry w held_reads me lock mode =
     (if w = me then Some SelfHeld
      else case mode of
             GWrite \<Rightarrow> if lock \<in> set held_reads then Some ReadHeld else None
           | GRead \<Rightarrow> if lock \<in> set held_reads then Some Cycle else None)"

text \<open>\<^verbatim>\<open>guard_wait_satisfiable\<close>: would the wait of a registered waiter end now? \<open>w\<close> is the writer's token.\<close>

definition guard_wait_satisfiable :: "guard_graph \<Rightarrow> bool \<Rightarrow> bool \<Rightarrow> u64 \<Rightarrow> nat \<Rightarrow> guard_mode \<Rightarrow> nat \<Rightarrow> bool option" where
  "guard_wait_satisfiable g taking admitted s w mode me =
     (if taking \<or> admitted \<or> looks_free s mode \<or> w = me then Some True else wait_for_cycle g me)"

end
