(* ===== verification/GuardCorrect.thy ===== *)
theory GuardCorrect
  imports Guard
begin

unbundle bit_operations_syntax

text \<open>
  What the guards promise: a writer is alone with its box, the lock word counts exactly those that hold and wait, a write
  release lets every waiting reader in before the next writer, and the search for a wait-for cycle finds
  one exactly when there is one.
\<close>

subsection \<open>The fields of the lock word\<close>

text \<open>The word holds a writer bit, the number of waiting writers and the number of read holds.\<close>

definition lock_word :: "u64 \<Rightarrow> bool \<Rightarrow> nat \<Rightarrow> nat \<Rightarrow> bool" where
  "lock_word s w ww r \<longleftrightarrow> unat s = (if w then 2 ^ 63 else 0) + ww * 2 ^ 32 + r \<and> ww < 2 ^ 31 \<and> r < 2 ^ 32"

lemma and_bit_zero: "(s :: u64) AND 2 ^ n = 0 \<longleftrightarrow> \<not> bit s n"
  using bit_iff_and_push_bit_not_eq_0 [of s n] by simp

lemma and_field_zero: "(s :: u64) AND push_bit n (mask m) = 0 \<longleftrightarrow> take_bit m (drop_bit n s) = 0"
proof
  assume z: "s AND push_bit n (mask m) = 0"
  show "take_bit m (drop_bit n s) = 0"
  proof (rule bit_eqI)
    fix k
    have "\<not> bit (s AND push_bit n (mask m)) (n + k)" by (simp add: z)
    then show "bit (take_bit m (drop_bit n s)) k = bit 0 k"
      using bit_imp_le_length [of s "n + k"] by (auto simp: bit_simps)
  qed
next
  assume z: "take_bit m (drop_bit n s) = 0"
  show "s AND push_bit n (mask m) = 0"
  proof (rule bit_eqI)
    fix k
    have "\<not> bit (take_bit m (drop_bit n s)) (k - n)" by (simp add: z)
    then show "bit (s AND push_bit n (mask m)) k = bit 0 k" by (auto simp: bit_simps)
  qed
qed

lemma lock_word_fields:
  assumes "lock_word s w ww r"
  shows "unat s mod 2 ^ 32 = r" "unat s div 2 ^ 32 mod 2 ^ 31 = ww"
proof -
  have u: "unat s = ((if w then 1 else 0) * 2 ^ 31 + ww) * 2 ^ 32 + r" "ww < 2 ^ 31" "r < 2 ^ 32"
    using assms by (auto simp: lock_word_def)
  show "unat s mod 2 ^ 32 = r" using u(3) unfolding u(1) mod_mult_self3 by (rule mod_less)
  have "unat s div 2 ^ 32 = (if w then 1 else 0) * 2 ^ 31 + ww" using u(3) unfolding u(1) by (subst div_mult_self3) simp_all
  then show "unat s div 2 ^ 32 mod 2 ^ 31 = ww" using u(2) by (simp only: mod_mult_self3 mod_less)
qed

lemma lock_word_readers:
  assumes "lock_word s w ww r"
  shows "unat (s AND R_MASK) = r"
proof -
  have "R_MASK = mask 32" by (simp add: R_MASK_def mask_eq_exp_minus_1)
  then have "s AND R_MASK = take_bit 32 s" by (simp only: take_bit_eq_mask)
  then have "unat (s AND R_MASK) = unat s mod 2 ^ 32" by (simp only: unsigned_take_bit_eq) (simp only: take_bit_eq_mod)
  then show ?thesis using lock_word_fields(1) [OF assms] by simp
qed

lemma lock_word_waiting:
  assumes "lock_word s w ww r"
  shows "s AND WW_MASK = 0 \<longleftrightarrow> ww = 0"
proof -
  have m: "WW_MASK = push_bit 32 (mask 31)" by (simp add: WW_MASK_def mask_eq_exp_minus_1)
  have "unat (take_bit 31 (drop_bit 32 s)) = unat s div 2 ^ 32 mod 2 ^ 31"
    using unsigned_less [of s, where ?'a = nat]
    by (simp only: unsigned_take_bit_eq unsigned_drop_bit_eq) (simp only: take_bit_eq_mod drop_bit_eq_div mod_less)
  also have "\<dots> = ww" by (rule lock_word_fields(2) [OF assms])
  finally show ?thesis unfolding m and_field_zero by (simp add: unat_eq_0 [symmetric] del: unat_eq_0)
qed

lemma lock_word_writer:
  assumes "lock_word s w ww r"
  shows "s AND WRITER = 0 \<longleftrightarrow> \<not> w"
proof -
  have "s AND WRITER = 0 \<longleftrightarrow> \<not> bit s 63" by (simp only: WRITER_def and_bit_zero)
  also have "\<dots> \<longleftrightarrow> \<not> bit (unat s) 63" by (simp add: bit_unsigned_iff)
  also have "\<dots> \<longleftrightarrow> even (unat s div 2 ^ 63)" by (simp add: bit_iff_odd)
  also have "unat s div 2 ^ 63 = (if w then 1 else 0)" using assms by (auto simp: lock_word_def)
  finally show ?thesis by simp
qed

lemma and_or_zero: "s AND (a OR b) = 0 \<longleftrightarrow> s AND a = 0 \<and> s AND b = (0 :: u64)"
  by (simp add: bit.conj_disj_distrib or_eq_0_iff)

lemma lock_word_set_writer:
  assumes "lock_word s False ww r"
  shows "lock_word (s OR WRITER) True ww r"
proof -
  have "s AND WRITER = 0" using lock_word_writer [OF assms] by simp
  then have "s OR WRITER = s + WRITER" by (simp add: disjunctive_add_eq_or)
  moreover have "unat s < 2 ^ 63" using assms by (auto simp: lock_word_def)
  then have "unat (s + WRITER) = unat s + 2 ^ 63" by (subst unat_add_lem [THEN iffD1]) (simp_all add: WRITER_def)
  ultimately show ?thesis using assms by (simp add: lock_word_def)
qed

lemma lock_word_clear_writer:
  assumes "lock_word s True ww r"
  shows "lock_word (s AND NOT WRITER) False ww r"
proof -
  have "bit s 63" using lock_word_writer [OF assms] by (simp only: WRITER_def and_bit_zero) simp
  then have "NOT s AND WRITER = 0" by (simp only: WRITER_def and_bit_zero) (simp add: bit_simps)
  then have "s AND NOT WRITER = s - WRITER" by (simp add: disjunctive_diff_eq_and_not)
  moreover have "2 ^ 63 \<le> unat s" using assms by (auto simp: lock_word_def)
  then have "unat (s - WRITER) = unat s - 2 ^ 63" by (subst unat_sub) (simp_all add: WRITER_def word_le_nat_alt)
  ultimately show ?thesis using assms by (simp add: lock_word_def)
qed

lemma lock_word_add:
  assumes "lock_word s w ww r" "r + n < 2 ^ 32"
  shows "lock_word (s + of_nat n) w ww (r + n)"
proof -
  have "unat (of_nat n :: u64) = n" using assms(2) by (simp add: unat_of_nat)
  moreover have "unat s + n < 2 ^ 64" using assms by (auto simp: lock_word_def)
  ultimately have "unat (s + of_nat n) = unat s + n" by (subst unat_add_lem [THEN iffD1]) simp_all
  then show ?thesis using assms by (simp add: lock_word_def)
qed

lemma lock_word_sub:
  assumes "lock_word s w ww r" "0 < r"
  shows "lock_word (s - 1) w ww (r - 1)"
proof -
  have "1 \<le> unat s" using assms by (auto simp: lock_word_def)
  then have "unat (s - 1) = unat s - 1" by (subst unat_sub) (simp_all add: word_le_nat_alt)
  then show ?thesis using assms by (auto simp: lock_word_def)
qed

lemma lock_word_add_waiting:
  assumes "lock_word s w ww r" "Suc ww < 2 ^ 31"
  shows "lock_word (s + WW_ONE) w (Suc ww) r"
proof -
  have "unat s + 2 ^ 32 < 2 ^ 64" using assms by (auto simp: lock_word_def)
  then have "unat (s + WW_ONE) = unat s + 2 ^ 32" by (subst unat_add_lem [THEN iffD1]) (simp_all add: WW_ONE_def)
  then show ?thesis using assms by (simp add: lock_word_def)
qed

lemma lock_word_sub_waiting:
  assumes "lock_word s w ww r" "0 < ww"
  shows "lock_word (s - WW_ONE) w (ww - 1) r"
proof -
  have "2 ^ 32 \<le> unat s" using assms by (auto simp: lock_word_def)
  then have "unat (s - WW_ONE) = unat s - 2 ^ 32" by (subst unat_sub) (simp_all add: WW_ONE_def word_le_nat_alt)
  then show ?thesis using assms by (auto simp: lock_word_def diff_mult_distrib)
qed


lemma take_write_word:
  assumes "lock_word s w ww r" "try_take_word s GWrite counted = Some s'" "counted \<Longrightarrow> 0 < ww"
  shows "\<not> w \<and> r = 0 \<and> (counted \<or> ww = 0) \<and> lock_word s' True (if counted then ww - 1 else ww) 0"
proof -
  have c: "s AND WRITER = 0" "s AND R_MASK = 0" "counted \<or> s AND WW_MASK = 0"
    and s': "s' = (s - (if counted then WW_ONE else 0)) OR WRITER"
    using assms(2) by (auto simp: try_take_word_def and_or_zero Let_def split: if_splits)
  have wr: "\<not> w" "r = 0" using c lock_word_writer [OF assms(1)] lock_word_readers [OF assms(1)] by auto
  have "lock_word (s - (if counted then WW_ONE else 0)) False (if counted then ww - 1 else ww) 0"
    using assms(1,3) wr lock_word_sub_waiting [of s False ww 0] by auto
  then show ?thesis using wr c(3) lock_word_waiting [OF assms(1)] s' lock_word_set_writer by auto
qed

lemma take_read_word:
  assumes "lock_word s w ww r" "try_take_word s GRead counted = Some s'"
  shows "\<not> w \<and> ww = 0 \<and> lock_word s' False 0 (Suc r)"
proof -
  have c: "s AND WRITER = 0" "s AND WW_MASK = 0" "s AND R_MASK \<noteq> R_MASK" and s': "s' = s + 1"
    using assms(2) by (auto simp: try_take_word_def and_or_zero split: if_splits)
  have "unat (s AND R_MASK) \<noteq> unat R_MASK" using c(3) by (simp add: word_unat_eq_iff)
  then have "r \<noteq> 2 ^ 32 - 1" using lock_word_readers [OF assms(1)] by (simp add: R_MASK_def)
  then have "r + 1 < 2 ^ 32" using assms(1) by (auto simp: lock_word_def)
  then show ?thesis using lock_word_add [OF assms(1), of 1] c s' lock_word_writer [OF assms(1)] lock_word_waiting [OF assms(1)] by auto
qed

subsection \<open>What the word counts\<close>

definition writes :: "phase \<Rightarrow> bool" where
  "writes p \<longleftrightarrow> p \<in> {Taken_W, Hold_W, Rel_W, Rel_Plain, Rel_Lock}"

definition waits_write :: "phase \<Rightarrow> nat" where
  "waits_write p = (if p = Ticket_W then 1 else 0)"

text \<open>The read holds an attempt stands for: its own, and the one a release gave it when it took the attempt off the list.\<close>

definition read_holds :: "box \<Rightarrow> nat \<Rightarrow> nat" where
  "read_holds b i =
     (case phase b i of
        Hold_R \<Rightarrow> 1
      | Ticket_R \<Rightarrow> if i \<in> set (readers b) then 0 else 1
      | Taken_R \<Rightarrow> if i \<in> set (readers b) then 1 else 2
      | Extra_R \<Rightarrow> 2
      | Extra_Drop \<Rightarrow> 1
      | _ \<Rightarrow> 0)"

definition all_holds :: "nat \<Rightarrow> box \<Rightarrow> nat" where
  "all_holds N b = (\<Sum>i<N. read_holds b i)"

definition all_waits :: "nat \<Rightarrow> box \<Rightarrow> nat" where
  "all_waits N b = (\<Sum>i<N. waits_write (phase b i))"

definition words_ok :: "nat \<Rightarrow> box \<Rightarrow> bool" where
  "words_ok N b \<longleftrightarrow>
     lock_word (state b) (\<exists>i<N. writes (phase b i)) (all_waits N b) (all_holds N b) \<and>
     (\<forall>i<N. \<forall>j<N. writes (phase b i) \<longrightarrow> writes (phase b j) \<longrightarrow> i = j) \<and>
     (\<forall>i<N. writes (phase b i) \<longrightarrow> all_holds N b = 0)"

lemma sum_change:
  assumes "i < (N :: nat)" "\<And>j. j < N \<Longrightarrow> j \<noteq> i \<Longrightarrow> f' j = (f j :: nat)"
  shows "(\<Sum>j<N. f' j) + f i = (\<Sum>j<N. f j) + f' i"
proof -
  have "(\<Sum>j<N. f' j) = f' i + (\<Sum>j\<in>{..<N} - {i}. f' j)" "(\<Sum>j<N. f j) = f i + (\<Sum>j\<in>{..<N} - {i}. f j)"
    using assms(1) by (simp_all add: sum.remove)
  moreover have "(\<Sum>j\<in>{..<N} - {i}. f' j) = (\<Sum>j\<in>{..<N} - {i}. f j)" by (rule sum.cong) (use assms(2) in auto)
  ultimately show ?thesis by simp
qed

text \<open>One attempt moves and the others count as before.\<close>

definition moved :: "nat \<Rightarrow> box \<Rightarrow> nat \<Rightarrow> box \<Rightarrow> bool" where
  "moved N b i b' \<longleftrightarrow> i < N \<and> (\<forall>j<N. j \<noteq> i \<longrightarrow> phase b' j = phase b j \<and> read_holds b' j = read_holds b j)"

lemma moved_counts:
  assumes "moved N b i b'"
  shows "all_holds N b' + read_holds b i = all_holds N b + read_holds b' i"
    "all_waits N b' + waits_write (phase b i) = all_waits N b + waits_write (phase b' i)"
  using assms unfolding moved_def all_holds_def all_waits_def by (auto intro!: sum_change)

lemma words_okD:
  assumes "words_ok N b"
  shows "lock_word (state b) (\<exists>i<N. writes (phase b i)) (all_waits N b) (all_holds N b)"
    "\<And>i j. i < N \<Longrightarrow> j < N \<Longrightarrow> writes (phase b i) \<Longrightarrow> writes (phase b j) \<Longrightarrow> i = j"
    "\<And>i. i < N \<Longrightarrow> writes (phase b i) \<Longrightarrow> all_holds N b = 0"
  using assms by (auto simp: words_ok_def)

text \<open>The three cases of who writes: those as before, one attempt, nobody.\<close>

lemma words_same_writers:
  assumes ok: "words_ok N b" and w: "\<And>j. j < N \<Longrightarrow> writes (phase b' j) = writes (phase b j)"
    and lw: "lock_word (state b') (\<exists>j<N. writes (phase b j)) (all_waits N b') (all_holds N b')"
    and z: "\<And>j. j < N \<Longrightarrow> writes (phase b j) \<Longrightarrow> all_holds N b' = 0"
  shows "words_ok N b'"
proof -
  have "(\<exists>j<N. writes (phase b' j)) = (\<exists>j<N. writes (phase b j))" using w by blast
  then show ?thesis unfolding words_ok_def using lw w z words_okD(2) [OF ok] by simp
qed

lemma words_one_writer:
  assumes "i < N" "\<And>j. j < N \<Longrightarrow> writes (phase b' j) \<longleftrightarrow> j = i" "lock_word (state b') True (all_waits N b') 0" "all_holds N b' = 0"
  shows "words_ok N b'"
proof -
  have "(\<exists>j<N. writes (phase b' j)) = True" using assms(1,2) by blast
  then show ?thesis unfolding words_ok_def using assms(2-4) by simp
qed

lemma words_no_writer:
  assumes "\<And>j. j < N \<Longrightarrow> \<not> writes (phase b' j)" "lock_word (state b') False (all_waits N b') (all_holds N b')"
  shows "words_ok N b'"
proof -
  have e: "(\<exists>j<N. writes (phase b' j)) = False" using assms(1) by blast
  show ?thesis unfolding words_ok_def e using assms by simp
qed

lemma words_quiet:
  assumes "words_ok N b" "moved N b i b'" "writes (phase b' i) = writes (phase b i)"
    "read_holds b' i = read_holds b i" "waits_write (phase b' i) = waits_write (phase b i)" "state b' = state b"
  shows "words_ok N b'"
proof -
  have "writes (phase b' j) = writes (phase b j)" if "j < N" for j using assms(2,3) that by (cases "j = i") (auto simp: moved_def)
  then show ?thesis
    by (rule words_same_writers [OF assms(1)]) (use assms moved_counts [OF assms(2)] words_okD(1,3) [OF assms(1)] in simp_all)
qed

text \<open>A change of the read holds or of the waiting writers by an attempt that does not write.\<close>

lemma words_change:
  assumes ok: "words_ok N b" and m: "moved N b i b'" and n: "\<not> writes (phase b i)" "\<not> writes (phase b' i)"
    and lw: "lock_word (state b') (\<exists>j<N. writes (phase b j)) (all_waits N b') (all_holds N b')"
    and z: "\<And>j. j < N \<Longrightarrow> writes (phase b j) \<Longrightarrow> all_holds N b' = 0"
  shows "words_ok N b'"
proof -
  have "writes (phase b' j) = writes (phase b j)" if "j < N" for j using m n that by (cases "j = i") (auto simp: moved_def)
  then show ?thesis by (rule words_same_writers [OF ok _ lw z])
qed

lemma words_take_write:
  assumes ok: "words_ok N b" and m: "moved N b i b'" and p: "phase b i = (if counted then Ticket_W else Idle)" "phase b' i = Taken_W"
    and t: "try_take_word (state b) GWrite counted = Some (state b')"
  shows "words_ok N b'"
proof -
  have c: "counted \<Longrightarrow> 0 < all_waits N b" "all_waits N b' = (if counted then all_waits N b - 1 else all_waits N b)"
    "all_holds N b' = all_holds N b"
    using moved_counts [OF m] p by (auto simp: waits_write_def read_holds_def split: if_splits)
  note w = take_write_word [OF words_okD(1) [OF ok] t c(1)]
  have i: "i < N" "\<And>j. j < N \<Longrightarrow> j \<noteq> i \<Longrightarrow> phase b' j = phase b j" using m by (auto simp: moved_def)
  have no: "\<not> writes (phase b j)" if "j < N" for j using w that by blast
  have "writes (phase b' j) \<longleftrightarrow> j = i" if "j < N" for j using i no that p(2) by (cases "j = i") (auto simp: writes_def)
  then show ?thesis by (rule words_one_writer [OF i(1)]) (use w c in simp_all)
qed

lemma words_take_read:
  assumes ok: "words_ok N b" and m: "moved N b i b'" and r: "read_holds b' i = Suc (read_holds b i)"
    and n: "\<not> writes (phase b i)" "\<not> writes (phase b' i)" "waits_write (phase b' i) = waits_write (phase b i)"
    and t: "try_take_word (state b) GRead counted = Some (state b')"
  shows "words_ok N b'"
proof -
  have c: "all_holds N b' = Suc (all_holds N b)" "all_waits N b' = all_waits N b" using moved_counts [OF m] r n(3) by auto
  note w = take_read_word [OF words_okD(1) [OF ok] t]
  then have no: "\<not> writes (phase b j)" if "j < N" for j using that by blast
  then have e: "(\<exists>j<N. writes (phase b j)) = False" by blast
  show ?thesis
  proof (rule words_change [OF ok m n(1,2)])
    show "lock_word (state b') (\<exists>j<N. writes (phase b j)) (all_waits N b') (all_holds N b')" unfolding e c using w by simp
  qed (use no in blast)
qed

lemma words_give_back:
  assumes ok: "words_ok N b" and m: "moved N b i b'" and r: "read_holds b i = Suc (read_holds b' i)"
    and n: "\<not> writes (phase b i)" "\<not> writes (phase b' i)" "waits_write (phase b' i) = waits_write (phase b i)"
    and s: "state b' = state b - 1"
  shows "words_ok N b'"
proof -
  have c: "all_holds N b = Suc (all_holds N b')" "all_waits N b' = all_waits N b" using moved_counts [OF m] r n(3) by auto
  then have "lock_word (state b - 1) (\<exists>j<N. writes (phase b j)) (all_waits N b) (all_holds N b')"
    using lock_word_sub [OF words_okD(1) [OF ok]] by simp
  then show ?thesis by (intro words_change [OF ok m n(1,2)]) (use c s words_okD(3) [OF ok] in simp_all)
qed

lemma all_waits_bound: "all_waits N b \<le> N"
  unfolding all_waits_def using sum_bounded_above [of "{..<N}" "\<lambda>i. waits_write (phase b i)" 1] by (simp add: waits_write_def)

lemma all_holds_bound: "all_holds N b \<le> 2 * N"
proof -
  have "read_holds b i \<le> 2" for i by (simp add: read_holds_def split: phase.split)
  then have "(\<Sum>i<N. read_holds b i) \<le> of_nat (card {..<N}) * 2" by (intro sum_bounded_above)
  then show ?thesis by (simp add: all_holds_def)
qed

lemma words_ticket:
  assumes ok: "words_ok N b" and m: "moved N b i b'" and p: "phase b i = Idle" "phase b' i = Ticket_W"
    and s: "state b' = state b + WW_ONE" and N: "N < 2 ^ 31"
  shows "words_ok N b'"
proof -
  have c: "all_waits N b' = Suc (all_waits N b)" "all_holds N b' = all_holds N b"
    using moved_counts [OF m] p by (auto simp: waits_write_def read_holds_def)
  have "lock_word (state b + WW_ONE) (\<exists>j<N. writes (phase b j)) (Suc (all_waits N b)) (all_holds N b)"
    using all_waits_bound [of N b'] N c by (intro lock_word_add_waiting [OF words_okD(1) [OF ok]]) simp
  then show ?thesis by (intro words_change [OF ok m]) (use c s words_okD(3) [OF ok] p in \<open>simp_all add: writes_def\<close>)
qed

lemma words_drop_ticket:
  assumes ok: "words_ok N b" and m: "moved N b i b'" and p: "phase b i = Ticket_W" "phase b' i = Idle" and s: "state b' = state b - WW_ONE"
  shows "words_ok N b'"
proof -
  have c: "all_waits N b = Suc (all_waits N b')" "all_holds N b' = all_holds N b"
    using moved_counts [OF m] p by (auto simp: waits_write_def read_holds_def)
  then have "lock_word (state b - WW_ONE) (\<exists>j<N. writes (phase b j)) (all_waits N b') (all_holds N b)"
    using lock_word_sub_waiting [OF words_okD(1) [OF ok]] by simp
  then show ?thesis by (intro words_change [OF ok m]) (use c s words_okD(3) [OF ok] p in \<open>simp_all add: writes_def\<close>)
qed

text \<open>The two ends of a write: without and with readers to admit.\<close>

lemma words_release:
  assumes ok: "words_ok N b" and i: "i < N" "writes (phase b i)" "\<not> writes (phase b' i)" and o': "\<And>j. j < N \<Longrightarrow> j \<noteq> i \<Longrightarrow> phase b' j = phase b j"
    and w: "waits_write (phase b' i) = waits_write (phase b i)"
    and s: "state b' = (state b AND NOT WRITER) + of_nat n" and h: "all_holds N b' = n" and n: "n < 2 ^ 32"
  shows "words_ok N b'"
proof -
  have e: "(\<exists>j<N. writes (phase b j)) = True" using i by blast
  have no: "\<not> writes (phase b' j)" if "j < N" for j
    using that i o' words_okD(2) [OF ok that i(1)] by (cases "j = i") auto
  have "waits_write (phase b' j) = waits_write (phase b j)" if "j < N" for j using that o' w by (cases "j = i") auto
  then have "all_waits N b' = all_waits N b" unfolding all_waits_def by (intro sum.cong) auto
  moreover have "lock_word (state b AND NOT WRITER) False (all_waits N b) 0"
    using lock_word_clear_writer [of "state b" "all_waits N b" 0] words_okD(1) [OF ok] words_okD(3) [OF ok i(1,2)] e by simp
  then have "lock_word (state b') False (all_waits N b) n" using lock_word_add [of _ False "all_waits N b" 0 n] n s by simp
  ultimately show ?thesis using no h by (intro words_no_writer) simp_all
qed

subsection \<open>The registered readers\<close>

definition ticketed :: "phase \<Rightarrow> bool" where
  "ticketed p \<longleftrightarrow> p = Ticket_R \<or> p = Taken_R"

text \<open>What the release that holds the registry has still to do: flags to set, and the number to take off the count.\<close>

definition admitting :: "box \<Rightarrow> nat list" where
  "admitting b = (case registry b of None \<Rightarrow> [] | Some k \<Rightarrow> (case phase b k of Admit n fs \<Rightarrow> fs | _ \<Rightarrow> []))"

definition uncounted :: "box \<Rightarrow> nat" where
  "uncounted b = (case registry b of None \<Rightarrow> 0 | Some k \<Rightarrow> (case phase b k of Admit n fs \<Rightarrow> n | _ \<Rightarrow> 0))"

definition is_admit :: "phase \<Rightarrow> bool" where
  "is_admit p \<longleftrightarrow> (\<exists>n fs. p = Admit n fs)"

definition readers_ok :: "nat \<Rightarrow> box \<Rightarrow> bool" where
  "readers_ok N b \<longleftrightarrow>
     distinct (readers b) \<and> (\<forall>i\<in>set (readers b). i < N \<and> ticketed (phase b i)) \<and>
     (\<forall>i<N. ticketed (phase b i) \<longrightarrow> (flag b i \<longleftrightarrow> i \<notin> set (readers b) \<and> i \<notin> set (admitting b))) \<and>
     (\<forall>i<N. is_admit (phase b i) \<longleftrightarrow> registry b = Some i) \<and>
     (\<forall>k. registry b = Some k \<longrightarrow> k < N \<and> readers b = []) \<and>
     distinct (admitting b) \<and> wait_readers b = of_nat (length (readers b) + uncounted b)"

lemma readers_frame:
  assumes ok: "readers_ok N b" and i: "i < N"
    and e: "readers b' = readers b" "flag b' = flag b" "registry b' = registry b" "wait_readers b' = wait_readers b"
      "phase b' = (phase b)(i := p)"
    and p: "\<not> is_admit (phase b i)" "\<not> is_admit p" "ticketed p \<Longrightarrow> ticketed (phase b i)" "i \<in> set (readers b) \<Longrightarrow> ticketed p"
  shows "readers_ok N b'"
proof -
  have r: "registry b \<noteq> Some i" using ok i p(1) by (auto simp: readers_ok_def)
  have a: "admitting b' = admitting b" "uncounted b' = uncounted b" using r e by (auto simp: admitting_def uncounted_def split: option.split)
  show ?thesis using ok p r i unfolding readers_ok_def a e by auto
qed

lemma readers_register:
  assumes ok: "readers_ok N b" and i: "i < N" and p: "phase b i = Idle" and r: "registry b = None"
  shows "readers_ok N (ticket_read b i)"
proof -
  have "i \<notin> set (readers b)" using ok p by (auto simp: readers_ok_def ticketed_def)
  then show ?thesis using ok i p r
    by (auto simp: readers_ok_def ticket_read_def move_to_def ticketed_def is_admit_def admitting_def uncounted_def)
qed

lemma readers_unregister:
  assumes ok: "readers_ok N b" and i: "i < N" and p: "ticketed (phase b i)" and r: "registry b = None"
    and n: "\<not> ticketed p" "\<not> ticketed p'" "\<not> is_admit p" "\<not> is_admit p'"
  shows "readers_ok N (unregister b i p p')"
proof (cases "flag b i")
  case True
  then have "i \<notin> set (readers b)" using ok i p by (auto simp: readers_ok_def)
  then show ?thesis using True n p i
    by (intro readers_frame [OF ok i, of _ p]) (auto simp: unregister_def move_to_def is_admit_def ticketed_def)
next
  case False
  then have m: "i \<in> set (readers b)" using ok i p r by (auto simp: readers_ok_def admitting_def)
  have d: "distinct (readers b)" using ok by (simp add: readers_ok_def)
  have "filter (\<lambda>j. j \<noteq> i) (readers b) = remove1 i (readers b)"
    using d by (auto simp: distinct_remove1_removeAll removeAll_filter_not_eq intro!: filter_cong)
  then have l: "length (readers b) = Suc (length (filter (\<lambda>j. j \<noteq> i) (readers b)))"
    using m length_pos_if_in_set [OF m] by (simp add: length_remove1)
  have "wait_readers b = of_nat (length (readers b))" using ok r by (simp add: readers_ok_def uncounted_def)
  then have "wait_readers b - 1 = of_nat (length (filter (\<lambda>j. j \<noteq> i) (readers b)))" unfolding l by simp
  then show ?thesis using ok i p r n False
    by (auto simp: readers_ok_def unregister_def move_to_def admitting_def uncounted_def is_admit_def)
qed

lemma readers_admit:
  assumes ok: "readers_ok N b" and i: "i < N" and p: "phase b i = Rel_Lock" and r: "registry b = None"
  shows "readers_ok N (release_admit b i)"
  using ok i p r by (auto simp: readers_ok_def release_admit_def move_to_def admitting_def uncounted_def is_admit_def ticketed_def)

lemma readers_flag:
  assumes ok: "readers_ok N b" and i: "i < N" and p: "phase b i = Admit n (f # fs)"
  shows "readers_ok N (release_flag b i n f fs)"
proof -
  have r: "registry b = Some i" using ok i p by (auto simp: readers_ok_def is_admit_def)
  then show ?thesis using ok i p by (auto simp: readers_ok_def release_flag_def move_to_def admitting_def uncounted_def is_admit_def ticketed_def)
qed

lemma readers_done:
  assumes ok: "readers_ok N b" and i: "i < N" and p: "phase b i = Admit n []"
  shows "readers_ok N (release_done b i n)"
proof -
  have r: "registry b = Some i" "readers b = []" using ok i p by (auto simp: readers_ok_def is_admit_def)
  then show ?thesis using ok i p by (auto simp: readers_ok_def release_done_def move_to_def admitting_def uncounted_def is_admit_def ticketed_def)
qed

text \<open>The token of the writer is stored exactly while it holds the box.\<close>

definition writer_ok :: "nat \<Rightarrow> (nat \<Rightarrow> nat) \<Rightarrow> box \<Rightarrow> bool" where
  "writer_ok N tok b \<longleftrightarrow> (\<forall>i<N. phase b i = Hold_W \<longrightarrow> writer b = tok i) \<and> ((\<forall>i<N. phase b i \<noteq> Hold_W) \<longrightarrow> writer b = 0)"

subsection \<open>The steps keep the invariant\<close>

definition guard_inv :: "nat \<Rightarrow> (nat \<Rightarrow> nat) \<Rightarrow> box \<Rightarrow> bool" where
  "guard_inv N tok b \<longleftrightarrow> N < 2 ^ 31 \<longrightarrow> words_ok N b \<and> readers_ok N b \<and> writer_ok N tok b"

lemma move_to_simps [simp]: "phase (move_to b i p) = (phase b)(i := p)" "state (move_to b i p) = state b" "writer (move_to b i p) = writer b"
  "readers (move_to b i p) = readers b" "flag (move_to b i p) = flag b" "registry (move_to b i p) = registry b"
  "wait_readers (move_to b i p) = wait_readers b"
  by (simp_all add: move_to_def)

lemmas box_steps = ticket_write_def ticket_read_def unregister_def release_writer_def release_check_def release_plain_def release_admit_def
  release_flag_def release_done_def release_read_def

lemmas phase_simps = writes_def waits_write_def read_holds_def ticketed_def is_admit_def

lemma moved_goto:
  assumes "i < N" "phase c = phase b" "\<And>j. j \<noteq> i \<Longrightarrow> j \<in> set (readers c) \<longleftrightarrow> j \<in> set (readers b)"
  shows "moved N b i (move_to c i p)"
  using assms by (auto simp: moved_def read_holds_def split: phase.split)

lemma moved_steps [simp]:
  assumes "i < N"
  shows "moved N b i (move_to b i p)" "moved N b i (move_to (b\<lparr>state := s\<rparr>) i p)" "moved N b i (move_to (b\<lparr>writer := t\<rparr>) i p)"
    "moved N b i (ticket_write b i)" "moved N b i (ticket_read b i)" "moved N b i (unregister b i p p')" "moved N b i (release_writer b i)"
    "moved N b i (release_check b i)" "moved N b i (release_plain b i)" "moved N b i (release_flag b i n f fs)" "moved N b i (release_done b i n)"
    "moved N b i (release_read b i p)"
  using assms by (auto simp: box_steps intro!: moved_goto)

lemma admit_holds:
  assumes w: "words_ok N b" and r: "readers_ok N b" and i: "i < N" and p: "phase b i = Rel_Lock"
  shows "all_holds N (release_admit b i) = length (readers b)"
proof -
  have z: "read_holds b j = 0" if "j < N" for j
    using words_okD(3) [OF w i] p that by (auto simp: all_holds_def writes_def)
  have "read_holds (release_admit b i) j = (if j \<in> set (readers b) then 1 else 0)" if j: "j < N" for j
  proof (cases "j = i")
    case True
    then show ?thesis using p r by (auto simp: release_admit_def read_holds_def readers_ok_def ticketed_def)
  next
    case False
    then show ?thesis using z [OF j] r by (auto simp: release_admit_def read_holds_def readers_ok_def ticketed_def split: phase.splits if_splits)
  qed
  then have "all_holds N (release_admit b i) = (\<Sum>j<N. if j \<in> set (readers b) then 1 else 0)"
    unfolding all_holds_def by (intro sum.cong) auto
  also have "\<dots> = card ({..<N} \<inter> set (readers b))" by (simp add: sum.If_cases Int_def)
  also have "{..<N} \<inter> set (readers b) = set (readers b)" using r by (auto simp: readers_ok_def)
  finally show ?thesis using r by (simp add: readers_ok_def distinct_card)
qed

lemma readers_bound: "readers_ok N b \<Longrightarrow> length (readers b) \<le> N"
proof -
  assume r: "readers_ok N b"
  then have "card (set (readers b)) \<le> card {..<N}" by (intro card_mono) (auto simp: readers_ok_def)
  then show ?thesis using r by (simp add: readers_ok_def distinct_card)
qed

lemma words_keep:
  assumes "guard_step N tok b b'" "N < 2 ^ 31" "words_ok N b" "readers_ok N b"
  shows "words_ok N b'"
  using assms
proof (induction rule: guard_step.induct)
  case (Fast_Write i b s)
  show ?case by (rule words_take_write [OF Fast_Write(5), of i _ False]) (use Fast_Write in \<open>auto simp: phase_simps\<close>)
next
  case (Fast_Read i b s)
  show ?case by (rule words_take_read [OF Fast_Read(5), of i _ False]) (use Fast_Read in \<open>auto simp: phase_simps\<close>)
next
  case (New_Ticket_W i b)
  show ?case by (rule words_ticket [OF New_Ticket_W(4), of i]) (use New_Ticket_W in \<open>auto simp: phase_simps ticket_write_def intro!: moved_goto\<close>)
next
  case (New_Ticket_R i b)
  show ?case by (rule words_quiet [OF New_Ticket_R(5), of i]) (use New_Ticket_R in \<open>auto simp: phase_simps ticket_read_def intro!: moved_goto\<close>)
next
  case (Take_Write i b s)
  show ?case by (rule words_take_write [OF Take_Write(5), of i _ True]) (use Take_Write in \<open>auto simp: phase_simps\<close>)
next
  case (Store_Writer i b)
  show ?case by (rule words_quiet [OF Store_Writer(4), of i]) (use Store_Writer in \<open>auto simp: phase_simps\<close>)
next
  case (Take_Admitted i b)
  then have "i \<notin> set (readers b)" by (auto simp: readers_ok_def ticketed_def)
  then show ?case by (intro words_quiet [OF Take_Admitted(5), of i]) (use Take_Admitted in \<open>auto simp: phase_simps\<close>)
next
  case (Take_Read i b s)
  show ?case by (rule words_take_read [OF Take_Read(5), of i _ False]) (use Take_Read in \<open>auto simp: phase_simps\<close>)
next
  case (Unregister_Taken i b)
  then have "flag b i \<longleftrightarrow> i \<notin> set (readers b)" by (auto simp: readers_ok_def ticketed_def admitting_def)
  then show ?case by (intro words_quiet [OF Unregister_Taken(5), of i]) (use Unregister_Taken in \<open>auto simp: phase_simps unregister_def intro!: moved_goto\<close>)
next
  case (Drop_Read i b)
  then have "flag b i \<longleftrightarrow> i \<notin> set (readers b)" by (auto simp: readers_ok_def ticketed_def admitting_def)
  then show ?case by (intro words_quiet [OF Drop_Read(5), of i]) (use Drop_Read in \<open>auto simp: phase_simps unregister_def intro!: moved_goto\<close>)
next
  case (Give_Back i b)
  show ?case by (rule words_give_back [OF Give_Back(4), of i]) (use Give_Back in \<open>auto simp: phase_simps release_read_def intro!: moved_goto\<close>)
next
  case (Give_Back_Drop i b)
  show ?case by (rule words_give_back [OF Give_Back_Drop(4), of i]) (use Give_Back_Drop in \<open>auto simp: phase_simps release_read_def intro!: moved_goto\<close>)
next
  case (Drop_Write i b)
  show ?case by (rule words_drop_ticket [OF Drop_Write(4), of i]) (use Drop_Write in \<open>auto simp: phase_simps\<close>)
next
  case (Release_Read i b)
  show ?case by (rule words_give_back [OF Release_Read(4), of i]) (use Release_Read in \<open>auto simp: phase_simps release_read_def intro!: moved_goto\<close>)
next
  case (Release_Write i b)
  show ?case by (rule words_quiet [OF Release_Write(4), of i]) (use Release_Write in \<open>auto simp: phase_simps release_writer_def intro!: moved_goto\<close>)
next
  case (Release_Check i b)
  show ?case by (rule words_quiet [OF Release_Check(4), of i]) (use Release_Check in \<open>auto simp: phase_simps release_check_def intro!: moved_goto\<close>)
next
  case (Release_Plain i b)
  have m: "moved N b i (release_plain b i)" using Release_Plain(1) by simp
  have "all_holds N (release_plain b i) = 0"
    using moved_counts(1) [OF m] words_okD(3) [OF Release_Plain(4,1)] Release_Plain(2) by (auto simp: phase_simps release_plain_def)
  then show ?case
    by (intro words_release [OF Release_Plain(4,1), of _ 0]) (use Release_Plain in \<open>auto simp: phase_simps release_plain_def intro!: moved_goto\<close>)
next
  case (Release_Admit i b)
  show ?case
    by (rule words_release [OF Release_Admit(5,1), of _ "length (readers b)"])
       (use Release_Admit admit_holds [OF Release_Admit(5,6,1,2)] readers_bound [OF Release_Admit(6)]
        in \<open>auto simp: phase_simps release_admit_def intro!: moved_goto\<close>)
next
  case (Release_Flag i b n f fs)
  show ?case by (rule words_quiet [OF Release_Flag(4), of i]) (use Release_Flag in \<open>auto simp: phase_simps release_flag_def intro!: moved_goto\<close>)
next
  case (Release_Done i b n)
  show ?case by (rule words_quiet [OF Release_Done(4), of i]) (use Release_Done in \<open>auto simp: phase_simps release_done_def intro!: moved_goto\<close>)
qed

lemma readers_goto:
  assumes "readers_ok N b" "i < N" "readers c = readers b" "flag c = flag b" "registry c = registry b" "wait_readers c = wait_readers b"
    "phase c = phase b" "\<not> is_admit (phase b i)" "\<not> is_admit p" "ticketed p \<Longrightarrow> ticketed (phase b i)"
    "i \<in> set (readers b) \<Longrightarrow> ticketed p"
  shows "readers_ok N (move_to c i p)"
  by (rule readers_frame [OF assms(1,2), of _ p]) (use assms in auto)

lemma registered_phase: "readers_ok N b \<Longrightarrow> i \<in> set (readers b) \<Longrightarrow> phase b i = Ticket_R \<or> phase b i = Taken_R"
  by (auto simp: readers_ok_def ticketed_def)

lemma readers_keep:
  assumes "guard_step N tok b b'" "readers_ok N b"
  shows "readers_ok N b'"
  using assms
proof (induction rule: guard_step.induct)
  case (Take_Admitted i b)
  then have "i \<notin> set (readers b)" by (auto simp: readers_ok_def ticketed_def)
  then show ?case using readers_goto [OF Take_Admitted(4,1)] Take_Admitted(2) by (simp add: is_admit_def ticketed_def)
next
  case (Take_Read i b s)
  show ?case by (rule readers_goto [OF Take_Read(4,1)]) (use Take_Read in \<open>auto simp: is_admit_def ticketed_def\<close>)
next
  case (New_Ticket_R i b)
  show ?case by (rule readers_register [OF New_Ticket_R(4,1,2,3)])
next
  case (Unregister_Taken i b)
  show ?case by (rule readers_unregister [OF Unregister_Taken(4,1)]) (use Unregister_Taken in \<open>auto simp: is_admit_def ticketed_def\<close>)
next
  case (Drop_Read i b)
  show ?case by (rule readers_unregister [OF Drop_Read(4,1)]) (use Drop_Read in \<open>auto simp: is_admit_def ticketed_def\<close>)
next
  case (Release_Admit i b)
  show ?case by (rule readers_admit [OF Release_Admit(4,1,2,3)])
next
  case (Release_Flag i b n f fs)
  show ?case by (rule readers_flag [OF Release_Flag(3,1,2)])
next
  case (Release_Done i b n)
  show ?case by (rule readers_done [OF Release_Done(3,1,2)])
qed (auto simp: is_admit_def ticketed_def ticket_write_def release_read_def release_writer_def release_check_def release_plain_def
    dest: registered_phase intro!: readers_goto)

lemma writer_goto:
  assumes "writer_ok N tok b" "writer c = writer b" "phase c = phase b" "phase b i \<noteq> Hold_W" "p \<noteq> Hold_W"
  shows "writer_ok N tok (move_to c i p)"
  using assms by (auto simp: writer_ok_def)

lemma writer_keep:
  assumes "guard_step N tok b b'" "words_ok N b" "writer_ok N tok b"
  shows "writer_ok N tok b'"
  using assms
proof (induction rule: guard_step.induct)
  case (Store_Writer i b)
  then have "phase b j \<noteq> Hold_W" if "j < N" "j \<noteq> i" for j using that words_okD(2) [OF Store_Writer(3), of i j] by (auto simp: writes_def)
  then show ?case using Store_Writer by (auto simp: writer_ok_def)
next
  case (Release_Write i b)
  then have "phase b j \<noteq> Hold_W" if "j < N" "j \<noteq> i" for j using that words_okD(2) [OF Release_Write(3), of i j] by (auto simp: writes_def)
  then show ?case using Release_Write by (auto simp: writer_ok_def release_writer_def)
qed (auto simp: box_steps intro!: writer_goto)

lemma guard_step_keeps: "guard_step N tok b b' \<Longrightarrow> guard_inv N tok b \<Longrightarrow> guard_inv N tok b'"
  using words_keep [of N tok b b'] readers_keep [of N tok b b'] writer_keep [of N tok b b'] by (auto simp: guard_inv_def)

interpretation guards: invariant_system "\<lambda>b. b = box_new" "guard_step N tok" "guard_inv N tok" for N tok
proof unfold_locales
  show "b = box_new \<Longrightarrow> guard_inv N tok b" for b
    by (simp add: guard_inv_def words_ok_def readers_ok_def writer_ok_def box_new_def lock_word_def all_waits_def all_holds_def
        phase_simps admitting_def uncounted_def)
qed (rule guard_step_keeps)

lemma reachable_guard:
  assumes "(guard_step N tok)\<^sup>*\<^sup>* box_new b" "N < 2 ^ 31"
  shows "words_ok N b" "readers_ok N b" "writer_ok N tok b"
  using guards.reachable_inv [OF refl assms(1)] assms(2) by (auto simp: guard_inv_def)

lemma holds_zero: "all_holds N b = 0 \<Longrightarrow> j < N \<Longrightarrow> read_holds b j = 0"
  by (simp add: all_holds_def)

text \<open>The count of waiting readers does not wrap, so a release that reads zero has nobody to admit.\<close>

lemma none_registered:
  assumes ok: "readers_ok N b" and N: "N < 2 ^ 31" and z: "wait_readers b = 0"
  shows "readers b = []"
proof (cases "registry b")
  case None
  then have "of_nat (length (readers b)) = (0 :: 32 word)" using ok z by (simp add: readers_ok_def uncounted_def)
  then have "unat (of_nat (length (readers b)) :: 32 word) = 0" by simp
  then have "length (readers b) mod 2 ^ 32 = 0" by (simp add: unat_of_nat)
  then show ?thesis using readers_bound [OF ok] N by simp
next
  case (Some k)
  then show ?thesis using ok by (simp add: readers_ok_def)
qed

subsection \<open>What the lock promises\<close>

text \<open>A word that looks free to a waiting writer is one it can take; to a reader, unless the count of readers is full.\<close>

lemma looks_free_take:
  "looks_free s GWrite \<longleftrightarrow> try_take_word s GWrite True \<noteq> None"
  "looks_free s GRead \<and> s AND R_MASK \<noteq> R_MASK \<longleftrightarrow> try_take_word s GRead c \<noteq> None"
  by (simp_all add: looks_free_def try_take_word_def Let_def)

text \<open>A re-entry reported as self-held is one: the task of that token writes the box.\<close>

lemma self_held:
  assumes "(guard_step N tok)\<^sup>*\<^sup>* box_new b" "N < 2 ^ 31" "me \<noteq> 0" "guard_reentry (writer b) hr me l mode = Some SelfHeld"
  shows "\<exists>i<N. phase b i = Hold_W \<and> tok i = me"
proof -
  have "writer b = me" using assms(4) by (auto simp: guard_reentry_def split: guard_mode.splits if_splits)
  then show ?thesis using reachable_guard(3) [OF assms(1,2)] assms(3) by (auto simp: writer_ok_def)
qed

text \<open>A writer takes the box, a reader registers, and the writer's release finds it.\<close>

definition box1 :: box where
  "box1 = move_to (box_new\<lparr>state := WRITER\<rparr>) 0 Taken_W"

definition box2 :: box where
  "box2 = move_to (box1\<lparr>writer := 5\<rparr>) 0 Hold_W"

definition box3 :: box where
  "box3 = release_check (release_writer (ticket_read box2 1) 0) 0"

lemma box_run: "(guard_step 2 (\<lambda>i. i + 5))\<^sup>*\<^sup>* box_new box2" "(guard_step 2 (\<lambda>i. i + 5))\<^sup>*\<^sup>* box_new box3"
proof -
  let ?s = "guard_step 2 (\<lambda>i. i + 5)"
  have a: "?s box_new box1" unfolding box1_def by (rule Fast_Write) (simp_all add: box_new_def try_take_word_def)
  have b: "?s box1 box2" unfolding box2_def using Store_Writer [of 0 2 box1 "\<lambda>i. i + 5"] by (simp add: box1_def)
  have c: "?s box2 (ticket_read box2 1)" by (rule New_Ticket_R) (simp_all add: box1_def box2_def box_new_def)
  have d: "?s (ticket_read box2 1) (release_writer (ticket_read box2 1) 0)"
    by (rule Release_Write) (simp_all add: box1_def box2_def box_new_def ticket_read_def)
  have e: "?s (release_writer (ticket_read box2 1) 0) box3"
    unfolding box3_def by (rule Release_Check) (simp_all add: release_writer_def)
  show "?s\<^sup>*\<^sup>* box_new box2" "?s\<^sup>*\<^sup>* box_new box3" using a b c d e by (meson rtranclp.intros)+
qed





subsection \<open>The search for a cycle\<close>

text \<open>A task waits on the writer of the box it waits for and, as a reader, on the writers that wait for that box.\<close>

definition waits_on :: "guard_graph \<Rightarrow> (nat \<times> nat) set" where
  "waits_on g = {(a, b). a \<noteq> b \<and> (\<exists>l m. map_of (waiting_for g) a = Some (l, m) \<and>
     (b = writer_of g l \<and> b \<noteq> 0 \<or> m = GRead \<and> (b, l, GWrite) \<in> set (waiting_for g)))}"

lemma waits_on_next: "(a, b) \<in> waits_on g \<longleftrightarrow> b \<in> set (next_tasks g a)"
  by (cases "map_of (waiting_for g) a") (auto simp: waits_on_def next_tasks_def blockers_def image_iff)

definition graph_tasks :: "guard_graph \<Rightarrow> nat set" where
  "graph_tasks g = writer_of g ` (fst \<circ> snd) ` set (waiting_for g) \<union> fst ` set (waiting_for g)"

lemma next_tasks_bound: "set (next_tasks g a) \<subseteq> graph_tasks g"
proof
  fix x assume x: "x \<in> set (next_tasks g a)"
  then obtain l m where m: "map_of (waiting_for g) a = Some (l, m)" and b: "x \<in> set (blockers g l m a)"
    by (cases "map_of (waiting_for g) a") (auto simp: next_tasks_def)
  then have "(a, l, m) \<in> set (waiting_for g)" by (simp add: map_of_SomeD)
  then show "x \<in> graph_tasks g" using b by (force simp: blockers_def graph_tasks_def split: if_splits)
qed

lemma visit_none: "visit s ts seen work = None \<Longrightarrow> s \<in> set ts"
  by (induction ts arbitrary: seen work) (auto split: if_splits)

lemma visit_some:
  "visit s ts seen work = Some (seen', work') \<Longrightarrow>
   s \<notin> set ts \<and> set seen' = set seen \<union> set ts \<and>
   (\<exists>ns. work' = work @ ns \<and> set ns \<subseteq> set ts \<and> set seen' = set seen \<union> set ns \<and> card (set seen') = card (set seen) + length ns)"
proof (induction ts arbitrary: seen work)
  case (Cons t ts)
  show ?case
  proof (cases "t \<in> set seen")
    case True
    then show ?thesis using Cons by (fastforce split: if_splits)
  next
    case False
    then have n: "t \<noteq> s" and v: "visit s ts (t # seen) (work @ [t]) = Some (seen', work')" using Cons.prems by (auto split: if_splits)
    from Cons.IH [OF v] obtain ns where ns: "work' = (work @ [t]) @ ns" "set ns \<subseteq> set ts" "set seen' = set (t # seen) \<union> set ns"
      "card (set seen') = card (set (t # seen)) + length ns" and s: "s \<notin> set ts" "set seen' = set (t # seen) \<union> set ts" by blast
    show ?thesis using n ns s False by (intro conjI exI [of _ "t # ns"]) auto
  qed
qed simp

text \<open>Every task seen or started from is reached; those not on the stack have been expanded.\<close>

definition search_inv :: "guard_graph \<Rightarrow> nat \<Rightarrow> nat list \<Rightarrow> nat list \<Rightarrow> bool" where
  "search_inv g s seen work \<longleftrightarrow>
     s \<notin> set seen \<and> set work \<subseteq> insert s (set seen) \<and> set seen \<subseteq> graph_tasks g \<and>
     (\<forall>x\<in>insert s (set seen). (s, x) \<in> (waits_on g)\<^sup>*) \<and>
     (\<forall>x\<in>insert s (set seen) - set work. set (next_tasks g x) \<subseteq> set seen)"

lemma closed_no_cycle:
  assumes "search_inv g s seen []"
  shows "(s, s) \<notin> (waits_on g)\<^sup>+"
proof
  have c: "set (next_tasks g x) \<subseteq> set seen" if "x \<in> insert s (set seen)" for x using assms that by (auto simp: search_inv_def)
  assume "(s, s) \<in> (waits_on g)\<^sup>+"
  moreover have "y \<in> set seen" if "(s, y) \<in> (waits_on g)\<^sup>+" for y
    using that by (induction rule: trancl_induct) (use c in \<open>auto simp: waits_on_next\<close>)
  ultimately show False using assms by (auto simp: search_inv_def)
qed

lemma search_step:
  assumes inv: "search_inv g s seen work" and ne: "work \<noteq> []"
    and v: "visit s (next_tasks g (last work)) seen (butlast work) = Some (seen', work')"
  shows "search_inv g s seen' work' \<and>
    2 * card (graph_tasks g - set seen') + length work' < 2 * card (graph_tasks g - set seen) + length work"
proof -
  let ?c = "last work"
  obtain ns where ns: "work' = butlast work @ ns" "set ns \<subseteq> set (next_tasks g ?c)" "set seen' = set seen \<union> set ns"
      "card (set seen') = card (set seen) + length ns"
    and s: "s \<notin> set (next_tasks g ?c)" "set seen' = set seen \<union> set (next_tasks g ?c)"
    using visit_some [OF v] by blast
  have c: "?c \<in> insert s (set seen)" using inv last_in_set [OF ne] by (auto simp: search_inv_def)
  have r: "(s, x) \<in> (waits_on g)\<^sup>*" if "x \<in> set (next_tasks g ?c)" for x
    using inv c that unfolding search_inv_def waits_on_next [symmetric] by (blast intro: rtrancl_into_rtrancl)
  have w: "set work = insert ?c (set (butlast work))" using ne by (metis Un_insert_right append_butlast_last_id list.simps(15) set_append sup_bot_right empty_set)
  have sub: "set seen' \<subseteq> graph_tasks g" using inv s next_tasks_bound [of g ?c] by (auto simp: search_inv_def)
  have "search_inv g s seen' work'"
    unfolding search_inv_def
  proof (intro conjI ballI)
    show "s \<notin> set seen'" using inv s by (auto simp: search_inv_def)
    show "set work' \<subseteq> insert s (set seen')" using inv w ns by (auto simp: search_inv_def)
    show "set seen' \<subseteq> graph_tasks g" by (rule sub)
    show "(s, x) \<in> (waits_on g)\<^sup>*" if "x \<in> insert s (set seen')" for x using that inv s r by (auto simp: search_inv_def)
    show "set (next_tasks g x) \<subseteq> set seen'" if "x \<in> insert s (set seen') - set work'" for x
      using that inv ns s w by (cases "x = ?c") (auto simp: search_inv_def)
  qed
  moreover have f: "finite (graph_tasks g)" by (simp add: graph_tasks_def)
  have "card (graph_tasks g - set seen') = card (graph_tasks g) - card (set seen')"
    "card (graph_tasks g - set seen) = card (graph_tasks g) - card (set seen)"
    using sub ns(3) by (auto intro: card_Diff_subset)
  moreover have "card (set seen') \<le> card (graph_tasks g)" by (rule card_mono [OF f sub])
  moreover have "length work = Suc (length (butlast work))" using ne by (cases work rule: rev_cases) auto
  ultimately show ?thesis using ns(1,4) by auto
qed

lemma cycle_loop_exact:
  "search_inv g s seen work \<Longrightarrow> cycle_loop g s seen work = Some ((s, s) \<in> (waits_on g)\<^sup>+)"
proof (induction "2 * card (graph_tasks g - set seen) + length work" arbitrary: seen work rule: less_induct)
  case less
  show ?case
  proof (cases "work = []")
    case True
    then show ?thesis using closed_no_cycle less.prems by (simp add: cycle_loop.simps)
  next
    case False
    show ?thesis
    proof (cases "visit s (next_tasks g (last work)) seen (butlast work)")
      case None
      have "(s, last work) \<in> (waits_on g)\<^sup>*" using less.prems last_in_set [OF False] by (auto simp: search_inv_def)
      moreover have "(last work, s) \<in> waits_on g" using visit_none [OF None] by (simp add: waits_on_next)
      ultimately show ?thesis using None False by (simp add: cycle_loop.simps rtrancl_into_trancl1)
    next
      case (Some sw)
      obtain seen' work' where sw: "sw = (seen', work')" by (cases sw)
      show ?thesis using search_step [OF less.prems False Some [unfolded sw]] less.hyps Some sw False
        by (simp add: cycle_loop.simps [of g s seen work])
    qed
  qed
qed

text \<open>
  C15. The search for a wait-for cycle ends, and it answers yes exactly when the task waits, through the writers of the boxes
  waited for and, for a reader, the writers waiting for the same box, for itself.
\<close>

theorem wait_for_cycle_exact: "wait_for_cycle g s = Some ((s, s) \<in> (waits_on g)\<^sup>+)"
  unfolding wait_for_cycle_def by (rule cycle_loop_exact) (simp add: search_inv_def)

lemma satisfiable_ends: "guard_wait_satisfiable g t a s w mode me \<noteq> None"
  by (auto simp: guard_wait_satisfiable_def wait_for_cycle_def cycle_loop_exact search_inv_def)

end
